(* ===== verification/HFS_Prelude.thy ===== *)
theory HFS_Prelude
  imports Main "HOL-Library.Word"
begin

text \<open>
  Shared vocabulary of the development: the machine integer types of the sources, the error
  codes that the modelled routines return, and the generic facts on lists and sets of blocks
  that several components use.
\<close>

section \<open>Types of the C sources\<close>

type_synonym u8 = "8 word"
type_synonym u16 = "16 word"
type_synonym u32 = "32 word"

text \<open>
  The error codes of the modelled routines, under the names the sources use.  A routine with
  result type \<open>OSErr\<close>, \<open>OSStatus\<close> or \<open>errno_t\<close> returns a value of this type; \<open>noErr\<close> is
  the code 0 of both families.
\<close>

datatype hfs_err =
    noErr
  | dskFulErr
  | fsBTInvalidNodeErr
  | fsBTInvalidHeaderErr
  | fsBTBadNodeType
  | fsBTNoMoreMapNodesErr
  | fsBTRecordNotFoundErr
  | fsBTFullErr
  | EIO
  | EINVAL
  | ENOSPC
  | ESTALE
  | ENOMEM
  | EPERM
  | fxRangeErr
  | fxOvFlErr
  | memFullErr
  | cmExists
  | btExists
  | cmNotFound
  | cmNotEmpty
  | cmFThdDirErr
  | bdNamErr
  | paramErr
  | fileBoundsErr
  | fsBTBadNodeSize
  | HFS_ERESERVEDNAME
  | EOVERFLOW
  | EEXIST
  | ENOENT
  | ENOTEMPTY
  | EISDIR
  | ERANGE
  | ENAMETOOLONG
  | ENXIO
  | hfs_panic

section \<open>Unsigned arithmetic\<close>

text \<open>
  Block numbers and counts of type \<open>u_int32_t\<close> are natural numbers below \<open>2 ^ 32\<close>; addition,
  subtraction and multiplication that can wrap around are written with the operators below.
  Flag words and bitmap words, on which the sources work bitwise, are words.
\<close>

definition UINT32_MAX :: nat where
  "UINT32_MAX = 4294967295"

definition add32 :: "nat \<Rightarrow> nat \<Rightarrow> nat" where
  "add32 a b = (a + b) mod 4294967296"

definition sub32 :: "nat \<Rightarrow> nat \<Rightarrow> nat" where
  "sub32 a b = (a + (4294967296 - b mod 4294967296)) mod 4294967296"

definition mul32 :: "nat \<Rightarrow> nat \<Rightarrow> nat" where
  "mul32 a b = (a * b) mod 4294967296"

lemma add32_eq: "a + b < 4294967296 \<Longrightarrow> add32 a b = a + b"
  by (simp add: add32_def)

lemma sub32_eq: "b \<le> a \<Longrightarrow> a < 4294967296 \<Longrightarrow> sub32 a b = a - b"
proof -
  assume le: "b \<le> a" and less: "a < 4294967296"
  have "a + (4294967296 - b) = a - b + 4294967296"
    using le less by linarith
  then have "(a + (4294967296 - b)) mod 4294967296 = (a - b) mod 4294967296"
    by (simp only: mod_add_self2)
  then show ?thesis
    using le less by (simp add: sub32_def)
qed

lemma mul32_eq: "a * b < 4294967296 \<Longrightarrow> mul32 a b = a * b"
  by (simp add: mul32_def)

lemma add32_less [simp]: "add32 a b < 4294967296"
  by (simp add: add32_def)

lemma add32_le: "add32 a b \<le> a + b"
  by (simp add: add32_def)

lemma sub32_less [simp]: "sub32 a b < 4294967296"
  by (simp add: sub32_def)

text \<open>The flag test \<open>ISSET(t, f)\<close> of the BSD sources: some bit of \<open>f\<close> is set in \<open>t\<close>.\<close>

definition ISSET :: "u32 \<Rightarrow> u32 \<Rightarrow> bool" where
  "ISSET t f \<longleftrightarrow> and t f \<noteq> 0"

section \<open>Moves within an array\<close>

text \<open>
  \<open>memmove(&a[dst], &a[src], n * sizeof(a[0]))\<close> on an array with enough elements.
\<close>

definition memmove :: "nat \<Rightarrow> nat \<Rightarrow> nat \<Rightarrow> 'a list \<Rightarrow> 'a list" where
  "memmove dst src n a = take dst a @ take n (drop src a) @ drop (dst + n) a"

lemma length_memmove [simp]:
  "dst + n \<le> length a \<Longrightarrow> src + n \<le> length a \<Longrightarrow> length (memmove dst src n a) = length a"
  by (simp add: memmove_def)

lemma memmove_0: "memmove (Suc i) i 0 a = a"
  by (simp add: memmove_def)

lemma memmove_close:
  assumes "i < c" "c \<le> length a"
  shows "take (c - 1) (memmove i (Suc i) (c - i - 1) a) = take i a @ drop (Suc i) (take c a)"
proof -
  obtain k where c: "c = Suc (i + k)"
    using \<open>i < c\<close> less_iff_Suc_add by blast
  show ?thesis
    using assms by (simp add: memmove_def c drop_take)
qed

lemma memmove_open:
  assumes "i \<le> c" "c < length a"
  shows "take (Suc c) ((memmove (Suc i) i (c - i) a)[i := x]) = take i (take c a) @ x # drop i (take c a)"
proof -
  obtain k where c: "c = i + k"
    using \<open>i \<le> c\<close> le_iff_add by blast
  have "take (Suc i) a = take i a @ [a ! i]"
    using assms by (intro take_Suc_conv_app_nth) linarith
  then have "(memmove (Suc i) i (c - i) a)[i := x] = take i a @ x # take k (drop i a) @ drop (Suc c) a"
    using assms by (simp add: memmove_def c list_update_append)
  then show ?thesis
    using assms by (simp add: c drop_take)
qed

section \<open>Collections of facts\<close>

named_theorems hfs_defs \<open>definitions that component proofs unfold\<close>
named_theorems hfs_inv \<open>invariant preservation facts\<close>

section \<open>Intervals of blocks\<close>

text \<open>Half-open runs of blocks, as a start and a length.\<close>

definition run :: "nat \<Rightarrow> nat \<Rightarrow> nat set" where
  "run s n = {s..<s + n}"

lemma run_0 [simp]: "run s 0 = {}"
  by (simp add: run_def)

lemma in_run [simp]: "b \<in> run s n \<longleftrightarrow> s \<le> b \<and> b < s + n"
  by (auto simp: run_def)

lemma run_add: "run s (m + n) = run s m \<union> run (s + m) n"
  by (auto simp: run_def)

lemma run_finite [simp]: "finite (run s n)"
  by (simp add: run_def)

lemma run_card [simp]: "card (run s n) = n"
  by (simp add: run_def)

section \<open>Stores of blocks\<close>

text \<open>
  The contract that range lists and bitmaps share: a state with an invariant stands for a set
  of blocks; a request names some blocks, adding it takes the union and removing it the
  difference, each under the operation's own precondition.
\<close>

locale block_store =
  fixes inv :: "'s \<Rightarrow> bool"
    and blocks :: "'s \<Rightarrow> 'b set"
    and named :: "'r \<Rightarrow> 'b set"
    and add_ok :: "'r \<Rightarrow> 's \<Rightarrow> bool"
    and add :: "'r \<Rightarrow> 's \<Rightarrow> 's"
    and del_ok :: "'r \<Rightarrow> 's \<Rightarrow> bool"
    and del :: "'r \<Rightarrow> 's \<Rightarrow> 's"
  assumes inv_add: "inv s \<Longrightarrow> add_ok r s \<Longrightarrow> inv (add r s)"
    and blocks_add: "inv s \<Longrightarrow> add_ok r s \<Longrightarrow> blocks (add r s) = blocks s \<union> named r"
    and inv_del: "inv s \<Longrightarrow> del_ok r s \<Longrightarrow> inv (del r s)"
    and blocks_del: "inv s \<Longrightarrow> del_ok r s \<Longrightarrow> blocks (del r s) = blocks s - named r"
begin

lemma del_add_cancel:
  assumes "inv s" "add_ok r s" "del_ok r (add r s)" "named r \<inter> blocks s = {}"
  shows "inv (del r (add r s))" "blocks (del r (add r s)) = blocks s"
  using assms inv_add [of s r] blocks_add [of s r] inv_del [of "add r s" r] blocks_del [of "add r s" r]
  by auto

lemma add_del_cancel:
  assumes "inv s" "del_ok r s" "add_ok r (del r s)" "named r \<subseteq> blocks s"
  shows "inv (add r (del r s))" "blocks (add r (del r s)) = blocks s"
  using assms inv_del [of s r] blocks_del [of s r] inv_add [of "del r s" r] blocks_add [of "del r s" r]
  by auto

fun del_all_ok :: "'r list \<Rightarrow> 's \<Rightarrow> bool" where
  "del_all_ok [] s = True"
| "del_all_ok (r # rs) s = (del_ok r s \<and> del_all_ok rs (del r s))"

lemma del_all:
  assumes "inv s" "del_all_ok rs s"
  shows "inv (fold del rs s) \<and> blocks (fold del rs s) = blocks s - (\<Union>r\<in>set rs. named r)"
  using assms by (induction rs arbitrary: s) (auto simp: inv_del blocks_del)

end

end
