(* ===== verification/Range_List.thy ===== *)
theory Range_List
  imports HFS_Prelude
begin

text \<open>
  The range lists of \<^verbatim>\<open>core/rangelist.c\<close> and \<^verbatim>\<open>core/rangelist.h\<close>: sorted lists of
  inclusive ranges of file offsets or blocks.  The kernel's tail queue is a list; a pointer into
  the queue is a zipper, the entries before the pointer (nearest first) and the entries from the
  pointer on, so that \<open>TAILQ_PREV\<close> and \<open>TAILQ_NEXT\<close> are the heads of its two halves and a null
  pointer is an empty second half.
\<close>

section \<open>Data\<close>

text \<open>\<open>off_t\<close> is a signed 64-bit integer; \<open>rl_ok\<close> below keeps every stored value in that range.\<close>

definition RL_INFINITY :: int where
  "RL_INFINITY = 2 ^ 63 - 1"

datatype rl_overlaptype =
    RL_NOOVERLAP
  | RL_MATCHINGOVERLAP
  | RL_OVERLAPCONTAINSRANGE
  | RL_OVERLAPISCONTAINED
  | RL_OVERLAPSTARTSBEFORE
  | RL_OVERLAPENDSAFTER

record rl_entry =
  rl_start :: int
  rl_end :: int

type_synonym rl_head = "rl_entry list"
type_synonym rl_cursor = "rl_entry list \<times> rl_entry list"

section \<open>Operations\<close>

definition rl_make :: "int \<Rightarrow> int \<Rightarrow> rl_entry" where
  "rl_make start end' = \<lparr>rl_start = start, rl_end = end'\<rparr>"

definition rl_len :: "rl_entry \<Rightarrow> int" where
  "rl_len rng = rl_end rng - rl_start rng + 1"

definition rl_init :: rl_head where
  "rl_init = []"

definition rl_overlap :: "rl_entry \<Rightarrow> int \<Rightarrow> int \<Rightarrow> rl_overlaptype" where
  "rl_overlap rng start end' =
     (if start > rl_end rng \<or> rl_start rng > end' then RL_NOOVERLAP
      else if rl_start rng = start \<and> rl_end rng = end' then RL_MATCHINGOVERLAP
      else if rl_start rng \<le> start \<and> rl_end rng \<ge> end' then RL_OVERLAPCONTAINSRANGE
      else if start \<le> rl_start rng \<and> end' \<ge> rl_end rng then RL_OVERLAPISCONTAINED
      else if rl_start rng < start \<and> rl_end rng < end' then RL_OVERLAPSTARTSBEFORE
      else RL_OVERLAPENDSAFTER)"

fun rl_scan_from :: "rl_entry list \<Rightarrow> int \<Rightarrow> int \<Rightarrow> rl_entry list \<Rightarrow> rl_overlaptype \<times> rl_cursor" where
  "rl_scan_from before start end' [] = (RL_NOOVERLAP, (before, []))"
| "rl_scan_from before start end' (rng # rest) =
     (let ot = rl_overlap rng start end' in
      if ot \<noteq> RL_NOOVERLAP \<or> rl_start rng > end' then (ot, (before, rng # rest))
      else rl_scan_from (rng # before) start end' rest)"

definition rl_scan :: "rl_head \<Rightarrow> int \<Rightarrow> int \<Rightarrow> rl_overlaptype \<times> rl_cursor" where
  "rl_scan rangelist start end' = rl_scan_from [] start end' rangelist"

text \<open>The entry a scan points at: \<open>*overlap\<close>, null at the end of the queue.\<close>

fun rl_deref :: "rl_cursor \<Rightarrow> rl_entry option" where
  "rl_deref (before, []) = None"
| "rl_deref (before, rng # rest) = Some rng"

fun rl_collapse_forwards :: "rl_entry \<Rightarrow> rl_entry list \<Rightarrow> rl_entry \<times> rl_entry list" where
  "rl_collapse_forwards rng [] = (rng, [])"
| "rl_collapse_forwards rng (next_range # rest) =
     (if rl_end rng \<noteq> RL_INFINITY \<and> rl_end rng < rl_start next_range - 1
      then (rng, next_range # rest)
      else rl_collapse_forwards (rng\<lparr>rl_end := rl_end next_range\<rparr>) rest)"

fun rl_collapse_backwards :: "rl_entry list \<Rightarrow> rl_entry \<Rightarrow> rl_entry list \<times> rl_entry" where
  "rl_collapse_backwards [] rng = ([], rng)"
| "rl_collapse_backwards (prev_range # before) rng =
     (if rl_end prev_range < rl_start rng - 1 then (prev_range # before, rng)
      else rl_collapse_backwards before (rng\<lparr>rl_start := rl_start prev_range\<rparr>))"

text \<open>The queue with the given entry between the two halves, after collapsing its neighbours.\<close>

definition rl_relink :: "rl_entry list \<Rightarrow> rl_entry \<Rightarrow> rl_entry list \<Rightarrow> rl_head" where
  "rl_relink before rng after = rev before @ rng # after"

definition rl_collapse_neighbors :: "rl_entry list \<Rightarrow> rl_entry \<Rightarrow> rl_entry list \<Rightarrow> rl_head" where
  "rl_collapse_neighbors before rng after =
     (let (rng', after') = rl_collapse_forwards rng after;
          (before', rng'') = rl_collapse_backwards before rng'
      in rl_relink before' rng'' after')"

definition rl_add :: "int \<Rightarrow> int \<Rightarrow> rl_head \<Rightarrow> rl_head" where
  "rl_add start end' rangelist =
     (case rl_scan rangelist start end' of
        (RL_NOOVERLAP, (before, after)) \<Rightarrow>
          rl_collapse_neighbors before (rl_make start end') after
      | (RL_MATCHINGOVERLAP, _) \<Rightarrow> rangelist
      | (RL_OVERLAPCONTAINSRANGE, _) \<Rightarrow> rangelist
      | (RL_OVERLAPISCONTAINED, (before, overlap # after)) \<Rightarrow>
          rl_collapse_neighbors before (overlap\<lparr>rl_start := start, rl_end := end'\<rparr>) after
      | (RL_OVERLAPSTARTSBEFORE, (before, overlap # after)) \<Rightarrow>
          (let (rng', after') = rl_collapse_forwards (overlap\<lparr>rl_end := end'\<rparr>) after
           in rl_relink before rng' after')
      | (RL_OVERLAPENDSAFTER, (before, overlap # after)) \<Rightarrow>
          (let (before', rng') = rl_collapse_backwards before (overlap\<lparr>rl_start := start\<rparr>)
           in rl_relink before' rng' after)
      | (_, (_, [])) \<Rightarrow> rangelist)"

lemma rl_scan_from_length:
  "rl_scan_from before start end' after = (ot, (before', after')) \<Longrightarrow> length after' \<le> length after"
  by (induction before start end' after rule: rl_scan_from.induct)
     (auto simp: Let_def split: if_splits)

function rl_remove_from :: "rl_entry list \<Rightarrow> int \<Rightarrow> int \<Rightarrow> rl_entry list \<Rightarrow> rl_head" where
  "rl_remove_from before start end' rng =
     (case rl_scan_from before start end' rng of
        (RL_NOOVERLAP, (before', after)) \<Rightarrow> rev before' @ after
      | (RL_MATCHINGOVERLAP, (before', overlap # after)) \<Rightarrow> rev before' @ after
      | (RL_OVERLAPCONTAINSRANGE, (before', overlap # after)) \<Rightarrow>
          (if rl_start overlap = start
           then rl_relink before' (overlap\<lparr>rl_start := end' + 1\<rparr>) after
           else if rl_end overlap = end'
           then rl_relink before' (overlap\<lparr>rl_end := start - 1\<rparr>) after
           else rl_relink before' (overlap\<lparr>rl_end := start - 1\<rparr>)
                  (rl_make (end' + 1) (rl_end overlap) # after))
      | (RL_OVERLAPISCONTAINED, (before', overlap # next_range)) \<Rightarrow>
          (if next_range \<noteq> [] then rl_remove_from before' start end' next_range
           else rev before')
      | (RL_OVERLAPSTARTSBEFORE, (before', overlap # next_range)) \<Rightarrow>
          (let overlap' = overlap\<lparr>rl_end := start - 1\<rparr> in
           if next_range \<noteq> [] then rl_remove_from (overlap' # before') start end' next_range
           else rev (overlap' # before'))
      | (RL_OVERLAPENDSAFTER, (before', overlap # after)) \<Rightarrow>
          rl_relink before'
            (overlap\<lparr>rl_start := (if end' = RL_INFINITY then RL_INFINITY else end' + 1)\<rparr>) after
      | (_, (_, [])) \<Rightarrow> rev before @ rng)"
  by pat_completeness auto
termination
  by (relation "measure (\<lambda>(before, start, end', rng). length rng)")
     (auto dest!: rl_scan_from_length [OF sym])

declare rl_remove_from.simps [simp del]

definition rl_remove :: "int \<Rightarrow> int \<Rightarrow> rl_head \<Rightarrow> rl_head" where
  "rl_remove start end' rangelist =
     (if rangelist = [] then rangelist else rl_remove_from [] start end' rangelist)"

definition rl_remove_all :: "rl_head \<Rightarrow> rl_head" where
  "rl_remove_all rangelist = []"

definition rl_subtract :: "rl_entry \<Rightarrow> rl_entry \<Rightarrow> rl_entry" where
  "rl_subtract a b =
     (case rl_overlap b (rl_start a) (rl_end a) of
        RL_MATCHINGOVERLAP \<Rightarrow> a\<lparr>rl_end := rl_start a - 1\<rparr>
      | RL_OVERLAPCONTAINSRANGE \<Rightarrow> a\<lparr>rl_end := rl_start a - 1\<rparr>
      | RL_OVERLAPISCONTAINED \<Rightarrow>
          (if rl_start b - rl_start a \<ge> rl_end a - rl_end b
           then a\<lparr>rl_end := rl_start b - 1\<rparr>
           else a\<lparr>rl_start := rl_end b + 1\<rparr>)
      | RL_OVERLAPSTARTSBEFORE \<Rightarrow> a\<lparr>rl_start := rl_end b + 1\<rparr>
      | RL_OVERLAPENDSAFTER \<Rightarrow> a\<lparr>rl_end := rl_start b - 1\<rparr>
      | RL_NOOVERLAP \<Rightarrow> a)"

section \<open>Well-formed range lists and the offsets they cover\<close>

definition rl_entry_ok :: "rl_entry \<Rightarrow> bool" where
  "rl_entry_ok r \<longleftrightarrow> 0 \<le> rl_start r \<and> rl_start r \<le> rl_end r \<and> rl_end r \<le> RL_INFINITY"

text \<open>Entries are in range, in increasing order, and neighbours are neither overlapping nor adjacent.\<close>

definition rl_ok :: "rl_head \<Rightarrow> bool" where
  "rl_ok xs \<longleftrightarrow> list_all rl_entry_ok xs \<and> sorted_wrt (\<lambda>a b. rl_end a + 1 < rl_start b) xs"

definition rl_set :: "rl_entry \<Rightarrow> int set" where
  "rl_set r = {rl_start r..rl_end r}"

definition rl_blocks :: "rl_head \<Rightarrow> int set" where
  "rl_blocks xs = (\<Union>r\<in>set xs. rl_set r)"

lemma rl_make_sel [simp]:
  "rl_start (rl_make s e) = s" "rl_end (rl_make s e) = e"
  by (simp_all add: rl_make_def)

lemma rl_ok_Nil [simp]: "rl_ok []"
  by (simp add: rl_ok_def)

lemma rl_ok_append:
  "rl_ok (xs @ ys) \<longleftrightarrow> rl_ok xs \<and> rl_ok ys \<and> (\<forall>a\<in>set xs. \<forall>b\<in>set ys. rl_end a + 1 < rl_start b)"
  by (auto simp: rl_ok_def sorted_wrt_append)

lemma rl_ok_Cons:
  "rl_ok (x # ys) \<longleftrightarrow> rl_entry_ok x \<and> rl_ok ys \<and> (\<forall>b\<in>set ys. rl_end x + 1 < rl_start b)"
  by (auto simp: rl_ok_def)

lemma rl_blocks_simps [simp]:
  "rl_blocks [] = {}"
  "rl_blocks (x # xs) = rl_set x \<union> rl_blocks xs"
  "rl_blocks (xs @ ys) = rl_blocks xs \<union> rl_blocks ys"
  "rl_blocks (rev xs) = rl_blocks xs"
  by (auto simp: rl_blocks_def)

lemma rl_ok_entry: "rl_ok xs \<Longrightarrow> r \<in> set xs \<Longrightarrow> rl_entry_ok r"
  by (auto simp: rl_ok_def list_all_iff)

lemmas rl_list_simps = rl_ok_append rl_ok_Cons rl_relink_def

section \<open>Facts about single steps\<close>

lemma rl_scan_from_spec:
  assumes "rl_scan_from before s e after = (ot, (before', after'))"
  shows "\<exists>mid. before' = rev mid @ before \<and> after = mid @ after' \<and> (\<forall>r\<in>set mid. rl_end r < s) \<and>
    (case after' of [] \<Rightarrow> ot = RL_NOOVERLAP
     | r # _ \<Rightarrow> ot = rl_overlap r s e \<and> (ot = RL_NOOVERLAP \<longrightarrow> e < rl_start r))"
  using assms
proof (induction before s e after rule: rl_scan_from.induct)
  case (1 before s e)
  then show ?case by auto
next
  case (2 before s e r rest)
  show ?case
  proof (cases "rl_overlap r s e \<noteq> RL_NOOVERLAP \<or> rl_start r > e")
    case True
    with 2 show ?thesis by (intro exI [of _ "[]"]) (auto simp: Let_def)
  next
    case False
    then have "rl_end r < s" by (auto simp: rl_overlap_def split: if_splits)
    moreover from 2 False obtain mid where "before' = rev mid @ r # before" "rest = mid @ after'"
      "\<forall>r\<in>set mid. rl_end r < s"
      "case after' of [] \<Rightarrow> ot = RL_NOOVERLAP
       | r # _ \<Rightarrow> ot = rl_overlap r s e \<and> (ot = RL_NOOVERLAP \<longrightarrow> e < rl_start r)"
      by (auto simp: Let_def)
    ultimately show ?thesis by (intro exI [of _ "r # mid"]) auto
  qed
qed

text \<open>In a well-formed list each collapse loop absorbs at most one neighbour.\<close>

lemma rl_collapse_forwards_eq:
  assumes "rl_ok after" and "rl_end rng \<le> RL_INFINITY"
  shows "rl_collapse_forwards rng after =
    (case after of [] \<Rightarrow> (rng, [])
     | n # rest \<Rightarrow> if rl_end rng + 1 < rl_start n then (rng, n # rest)
                   else (rng\<lparr>rl_end := rl_end n\<rparr>, rest))"
proof (cases after)
  case Nil
  then show ?thesis by simp
next
  case (Cons n rest)
  have n: "rl_entry_ok n" and gap: "\<forall>b\<in>set rest. rl_end n + 1 < rl_start b"
    and ok: "\<forall>b\<in>set rest. rl_entry_ok b"
    using assms(1) Cons by (auto simp: rl_ok_Cons intro: rl_ok_entry)
  have "rl_collapse_forwards (rng\<lparr>rl_end := rl_end n\<rparr>) rest = (rng\<lparr>rl_end := rl_end n\<rparr>, rest)"
    using n gap ok by (cases rest) (auto simp: rl_entry_ok_def)
  then show ?thesis
    using Cons n assms(2) by (auto simp: rl_entry_ok_def)
qed

lemma rl_collapse_backwards_eq:
  assumes "rl_ok (rev before)"
  shows "rl_collapse_backwards before rng =
    (case before of [] \<Rightarrow> ([], rng)
     | p # rest \<Rightarrow> if rl_end p + 1 < rl_start rng then (p # rest, rng)
                   else (rest, rng\<lparr>rl_start := rl_start p\<rparr>))"
proof (cases before)
  case Nil
  then show ?thesis by simp
next
  case (Cons p rest)
  have gap: "\<forall>a\<in>set rest. rl_end a + 1 < rl_start p"
    using assms Cons by (auto simp: rl_ok_append)
  have "rl_collapse_backwards rest (rng\<lparr>rl_start := rl_start p\<rparr>) = (rest, rng\<lparr>rl_start := rl_start p\<rparr>)"
    using gap by (cases rest) auto
  then show ?thesis
    using Cons by auto
qed


lemma rl_scan_spec:
  assumes "rl_scan xs s e = (ot, (before, after))"
  shows "xs = rev before @ after" "\<forall>r\<in>set before. rl_end r < s"
    "case after of [] \<Rightarrow> ot = RL_NOOVERLAP
     | r # _ \<Rightarrow> ot = rl_overlap r s e \<and> (ot = RL_NOOVERLAP \<longrightarrow> e < rl_start r)"
  using rl_scan_from_spec [OF assms [unfolded rl_scan_def]] by auto

text \<open>
  What the forward loop keeps: the absorbed entry's end replaces the end of the grown range even
  when it is smaller, so the tail of the range is kept exactly when no later entry ends before it.
\<close>

lemma rl_collapse_forwards_ok:
  assumes "rl_ok after" "rl_entry_ok rng" "\<forall>r\<in>set after. rl_start rng < rl_start r"
    and "rl_collapse_forwards rng after = (rng', after')"
  shows "rl_start rng' = rl_start rng" "rl_ok (rng' # after')" "set after' \<subseteq> set after"
    "rl_blocks after \<subseteq> rl_blocks (rng' # after')"
    "rl_blocks (rng' # after') \<subseteq> rl_blocks (rng # after)"
    "\<forall>x. x \<in> rl_set rng \<and> (\<forall>r\<in>set after. x < rl_start r) \<longrightarrow> x \<in> rl_set rng'"
    "rl_blocks (rng' # after') = rl_blocks (rng # after) \<longleftrightarrow> (\<forall>r\<in>set after. rl_end rng \<le> rl_end r)"
proof -
  have eq: "(rng', after') = (case after of [] \<Rightarrow> (rng, [])
     | n # rest \<Rightarrow> if rl_end rng + 1 < rl_start n then (rng, n # rest)
                   else (rng\<lparr>rl_end := rl_end n\<rparr>, rest))"
    using assms rl_collapse_forwards_eq [of after rng] by (auto simp: rl_entry_ok_def)
  have all: "rl_start rng' = rl_start rng \<and> rl_ok (rng' # after') \<and> set after' \<subseteq> set after \<and>
    rl_blocks after \<subseteq> rl_blocks (rng' # after') \<and> rl_blocks (rng' # after') \<subseteq> rl_blocks (rng # after) \<and>
    (\<forall>x. x \<in> rl_set rng \<and> (\<forall>r\<in>set after. x < rl_start r) \<longrightarrow> x \<in> rl_set rng') \<and>
    (rl_blocks (rng' # after') = rl_blocks (rng # after) \<longleftrightarrow> (\<forall>r\<in>set after. rl_end rng \<le> rl_end r))"
  proof (cases "\<exists>n rest. after = n # rest \<and> \<not> rl_end rng + 1 < rl_start n")
    case False
    with eq have same: "rng' = rng" "after' = after" by (auto split: list.splits)
    have "\<forall>r\<in>set after. rl_end rng + 1 < rl_start r"
      using False assms(1) by (cases after) (auto simp: rl_ok_Cons rl_entry_ok_def)
    with assms same show ?thesis
      by (fastforce simp: rl_ok_Cons rl_entry_ok_def dest: rl_ok_entry)
  next
    case True
    then obtain n rest where after: "after = n # rest" and touch: "rl_start n \<le> rl_end rng + 1" by auto
    with eq have new: "rng' = rng\<lparr>rl_end := rl_end n\<rparr>" "after' = rest" by auto
    have n: "rl_entry_ok n" "rl_start rng < rl_start n" "\<forall>b\<in>set rest. rl_end n + 1 < rl_start b"
        "\<forall>b\<in>set rest. rl_entry_ok b" "rl_ok rest"
      using assms(1,3) after by (auto simp: rl_ok_Cons intro: rl_ok_entry)
    have lost: "rl_end n + 1 \<notin> rl_blocks (rng' # after')"
      using n(3) new by (auto simp: rl_blocks_def rl_set_def)
    have "rl_blocks (rng' # after') = rl_blocks (rng # after) \<longleftrightarrow> rl_end rng \<le> rl_end n"
    proof
      assume same: "rl_blocks (rng' # after') = rl_blocks (rng # after)"
      show "rl_end rng \<le> rl_end n"
      proof (rule ccontr)
        assume "\<not> rl_end rng \<le> rl_end n"
        then have "rl_end n + 1 \<in> rl_set rng"
          using n(1,2) by (auto simp: rl_set_def rl_entry_ok_def)
        with lost same show False by auto
      qed
    next
      assume "rl_end rng \<le> rl_end n"
      with n(1,2) touch new after show "rl_blocks (rng' # after') = rl_blocks (rng # after)"
        by (auto simp: rl_set_def rl_entry_ok_def)
    qed
    moreover have "(\<forall>r\<in>set after. rl_end rng \<le> rl_end r) \<longleftrightarrow> rl_end rng \<le> rl_end n"
      using after n(3,4) by (fastforce simp: rl_entry_ok_def)
    ultimately show ?thesis
      using n touch new after assms(2) by (auto simp: rl_ok_Cons rl_entry_ok_def rl_set_def)
  qed
  then show "rl_start rng' = rl_start rng" "rl_ok (rng' # after')" "set after' \<subseteq> set after"
    "rl_blocks after \<subseteq> rl_blocks (rng' # after')"
    "rl_blocks (rng' # after') \<subseteq> rl_blocks (rng # after)"
    "\<forall>x. x \<in> rl_set rng \<and> (\<forall>r\<in>set after. x < rl_start r) \<longrightarrow> x \<in> rl_set rng'"
    "rl_blocks (rng' # after') = rl_blocks (rng # after) \<longleftrightarrow> (\<forall>r\<in>set after. rl_end rng \<le> rl_end r)"
    by blast+
qed

lemma rl_collapse_backwards_ok:
  assumes "rl_ok (rev before)" "rl_ok (rng # after)" "\<forall>r\<in>set before. rl_end r < rl_start rng"
    and "rl_collapse_backwards before rng = (before', rng')"
  shows "rl_ok (rl_relink before' rng' after)"
    "rl_blocks (rl_relink before' rng' after) = rl_blocks before \<union> rl_blocks (rng # after)"
proof -
  have eq: "(before', rng') = (case before of [] \<Rightarrow> ([], rng)
     | p # rest \<Rightarrow> if rl_end p + 1 < rl_start rng then (p # rest, rng)
                   else (rest, rng\<lparr>rl_start := rl_start p\<rparr>))"
    using assms rl_collapse_backwards_eq [of before rng] by auto
  have "rl_ok (rl_relink before' rng' after) \<and>
    rl_blocks (rl_relink before' rng' after) = rl_blocks before \<union> rl_blocks (rng # after)"
  proof (cases before)
    case Nil
    with eq assms show ?thesis by (auto simp: rl_list_simps)
  next
    case (Cons p rest)
    have p: "rl_entry_ok p" "rl_end p < rl_start rng" "\<forall>a\<in>set rest. rl_end a + 1 < rl_start p"
      "rl_ok (rev rest)"
      using assms Cons by (auto simp: rl_list_simps)
    show ?thesis
    proof (cases "rl_end p + 1 < rl_start rng")
      case True
      have "\<forall>a\<in>set rest. rl_end a + 1 < rl_start rng"
        using p True by (auto simp: rl_entry_ok_def)
      with True eq Cons assms p show ?thesis
        by (fastforce simp: rl_list_simps rl_entry_ok_def)
    next
      case False
      with eq Cons assms p show ?thesis
        by (fastforce simp: rl_list_simps rl_entry_ok_def rl_set_def)
    qed
  qed
  then show "rl_ok (rl_relink before' rng' after)"
    "rl_blocks (rl_relink before' rng' after) = rl_blocks before \<union> rl_blocks (rng # after)"
    by blast+
qed

lemma rl_collapse_neighbors_ok:
  assumes "rl_ok (rev before)" "rl_ok after" "rl_entry_ok rng"
    "\<forall>r\<in>set before. rl_end r < rl_start rng" "\<forall>r\<in>set after. rl_start rng < rl_start r"
  shows "rl_ok (rl_collapse_neighbors before rng after)"
    "rl_blocks before \<union> rl_blocks after \<subseteq> rl_blocks (rl_collapse_neighbors before rng after)"
    "rl_blocks (rl_collapse_neighbors before rng after) \<subseteq> rl_blocks before \<union> rl_blocks (rng # after)"
    "\<forall>x. x \<in> rl_set rng \<and> (\<forall>r\<in>set after. x < rl_start r) \<longrightarrow>
       x \<in> rl_blocks (rl_collapse_neighbors before rng after)"
    "rl_blocks (rl_collapse_neighbors before rng after) = rl_blocks before \<union> rl_blocks (rng # after)
     \<longleftrightarrow> (\<forall>r\<in>set after. rl_end rng \<le> rl_end r)"
proof -
  obtain rng' after' where fw: "rl_collapse_forwards rng after = (rng', after')" by fastforce
  obtain before' rng'' where bw: "rl_collapse_backwards before rng' = (before', rng'')" by fastforce
  note f = rl_collapse_forwards_ok [OF assms(2,3,5) fw]
  note b = rl_collapse_backwards_ok [OF assms(1) f(2) _ bw]
  have def: "rl_collapse_neighbors before rng after = rl_relink before' rng'' after'"
    by (simp add: rl_collapse_neighbors_def fw bw)
  have sep: "rl_blocks before \<inter> rl_blocks (rng # after) = {}"
    using assms by (fastforce simp: rl_blocks_def rl_set_def)
  have b1: "rl_ok (rl_relink before' rng'' after')"
    and b2: "rl_blocks (rl_relink before' rng'' after') = rl_blocks before \<union> rl_blocks (rng' # after')"
    using b assms(4) f(1) by auto
  show "rl_ok (rl_collapse_neighbors before rng after)"
    using def b1 by simp
  show "rl_blocks before \<union> rl_blocks after \<subseteq> rl_blocks (rl_collapse_neighbors before rng after)"
    "rl_blocks (rl_collapse_neighbors before rng after) \<subseteq> rl_blocks before \<union> rl_blocks (rng # after)"
    using def b2 f(4,5) by auto
  show "\<forall>x. x \<in> rl_set rng \<and> (\<forall>r\<in>set after. x < rl_start r) \<longrightarrow>
       x \<in> rl_blocks (rl_collapse_neighbors before rng after)"
    using def b2 f(6) by auto
  have "rl_blocks before \<union> rl_blocks (rng' # after') = rl_blocks before \<union> rl_blocks (rng # after)
    \<longleftrightarrow> rl_blocks (rng' # after') = rl_blocks (rng # after)"
    using sep f(5) by blast
  then show "rl_blocks (rl_collapse_neighbors before rng after) = rl_blocks before \<union> rl_blocks (rng # after)
     \<longleftrightarrow> (\<forall>r\<in>set after. rl_end rng \<le> rl_end r)"
    using def b2 f(7) by metis
qed

text \<open>
  An add loses blocks exactly when the added range reaches past the end of an entry that is not
  the first one it overlaps.
\<close>

definition rl_add_swallows :: "int \<Rightarrow> int \<Rightarrow> rl_head \<Rightarrow> bool" where
  "rl_add_swallows s e xs \<longleftrightarrow>
     (\<exists>a\<in>set xs. \<exists>b\<in>set xs. s \<le> rl_end a \<and> rl_end a < rl_start b \<and> rl_end b < e)"

lemma rl_add_swallows_iff:
  assumes ok: "rl_ok (xs @ r # ys)" and xs: "\<forall>a\<in>set xs. rl_end a < s" and r: "s \<le> rl_end r"
  shows "rl_add_swallows s e (xs @ r # ys) \<longleftrightarrow> (\<exists>b\<in>set ys. rl_end b < e)"
proof
  assume "rl_add_swallows s e (xs @ r # ys)"
  then obtain a b where ab: "a \<in> set (xs @ r # ys)" "b \<in> set (xs @ r # ys)" "s \<le> rl_end a"
    "rl_end a < rl_start b" "rl_end b < e"
    by (auto simp: rl_add_swallows_def)
  have "rl_entry_ok a" "rl_entry_ok b" using ok ab by (auto intro: rl_ok_entry)
  then have "b \<noteq> r" "b \<notin> set xs" using ab xs ok by (auto simp: rl_list_simps rl_entry_ok_def)
  with ab show "\<exists>b\<in>set ys. rl_end b < e" by auto
next
  assume "\<exists>b\<in>set ys. rl_end b < e"
  then obtain b where "b \<in> set ys" "rl_end b < e" by blast
  then show "rl_add_swallows s e (xs @ r # ys)"
    unfolding rl_add_swallows_def using ok r
    by (intro bexI [of _ r] bexI [of _ b]) (auto simp: rl_list_simps)
qed

definition rl_add_result :: "int \<Rightarrow> int \<Rightarrow> rl_head \<Rightarrow> rl_head \<Rightarrow> bool" where
  "rl_add_result s e xs ys \<longleftrightarrow> rl_ok ys \<and> rl_blocks xs \<subseteq> rl_blocks ys \<and>
     rl_blocks ys \<subseteq> rl_blocks xs \<union> {s..e} \<and>
     (rl_blocks ys = rl_blocks xs \<union> {s..e} \<longleftrightarrow> \<not> rl_add_swallows s e xs)"

text \<open>The branch that stores the whole range: after the insertion, or over a contained entry.\<close>

lemma rl_add_neighbors_result:
  assumes ok: "rl_ok (rev before @ mid @ after)" and se: "0 \<le> s" "s \<le> e" "e \<le> RL_INFINITY"
    and bs: "\<forall>r\<in>set before. rl_end r < s"
    and mid: "mid = [] \<and> (\<forall>r\<in>set after. e < rl_start r) \<or> (\<exists>r. mid = [r] \<and> s \<le> rl_start r \<and> rl_end r \<le> e)"
    and rng: "rl_start rng = s" "rl_end rng = e"
  shows "rl_add_result s e (rev before @ mid @ after) (rl_collapse_neighbors before rng after)"
proof -
  have okb: "rl_ok (rev before)" and oka: "rl_ok after" and okr: "rl_entry_ok rng"
    using ok se rng by (auto simp: rl_ok_append rl_entry_ok_def)
  have sa: "\<forall>r\<in>set after. rl_start rng < rl_start r"
    using mid ok rng se by (fastforce simp: rl_ok_append rl_ok_Cons rl_entry_ok_def)
  have ins: "rl_blocks mid \<subseteq> rl_set rng" "rl_set rng = {s..e}"
    using mid rng by (auto simp: rl_set_def)
  have early: "\<forall>x\<in>rl_blocks mid. \<forall>r\<in>set after. x < rl_start r"
  proof (intro ballI)
    fix x r
    assume x: "x \<in> rl_blocks mid" and r: "r \<in> set after"
    with mid obtain m where "mid = [m]" "x \<le> rl_end m" by (auto simp: rl_set_def)
    with ok r have "rl_end m + 1 < rl_start r" by (auto simp: rl_list_simps)
    with \<open>x \<le> rl_end m\<close> show "x < rl_start r" by simp
  qed
  note n = rl_collapse_neighbors_ok [OF okb oka okr _ sa]
  have "rl_add_swallows s e (rev before @ mid @ after) \<longleftrightarrow> (\<exists>r\<in>set after. rl_end r < e)"
  proof (cases mid)
    case Nil
    then have "\<forall>r\<in>set after. e < rl_end r"
      using mid oka by (force simp: rl_entry_ok_def dest: rl_ok_entry)
    moreover from this have "\<not> rl_add_swallows s e (rev before @ after)"
      using bs Nil mid oka ok
      by (force simp: rl_add_swallows_def rl_entry_ok_def dest: rl_ok_entry)
    ultimately show ?thesis using Nil by force
  next
    case (Cons r rest)
    with mid ok have "mid = [r]" "s \<le> rl_end r"
      by (auto simp: rl_list_simps rl_entry_ok_def)
    with rl_add_swallows_iff [of "rev before" r after s e] ok bs show ?thesis by auto
  qed
  then have swal: "\<not> rl_add_swallows s e (rev before @ mid @ after) \<longleftrightarrow> (\<forall>r\<in>set after. rl_end rng \<le> rl_end r)"
    using rng by force
  have whole: "rl_blocks (rev before @ mid @ after) \<union> {s..e} = rl_blocks before \<union> rl_blocks (rng # after)"
    using ins by auto
  have keep: "rl_blocks (rev before @ mid @ after) \<subseteq> rl_blocks (rl_collapse_neighbors before rng after)"
    using n(2,4) bs rng ins early by (simp add: subset_iff)
  show ?thesis
    unfolding rl_add_result_def whole swal using n(1,3,5) keep bs rng by auto
qed

text \<open>The branch that extends the end of the first overlapping entry.\<close>

lemma rl_add_starts_result:
  assumes ok: "rl_ok (rev before @ r # rest)" and bs: "\<forall>b\<in>set before. rl_end b < s"
    and rs: "rl_start r < s" "rl_end r < e" "s \<le> rl_end r" and e: "e \<le> RL_INFINITY"
    and fw: "rl_collapse_forwards (r\<lparr>rl_end := e\<rparr>) rest = (rng', after')"
  shows "rl_add_result s e (rev before @ r # rest) (rl_relink before rng' after')"
proof -
  have r: "rl_entry_ok r" "\<forall>b\<in>set rest. rl_end r + 1 < rl_start b" "rl_ok rest"
    using ok by (auto simp: rl_list_simps)
  have ro: "rl_entry_ok (r\<lparr>rl_end := e\<rparr>)"
    using r(1) rs e by (auto simp: rl_entry_ok_def)
  have later: "\<forall>b\<in>set rest. rl_start (r\<lparr>rl_end := e\<rparr>) < rl_start b"
    using r by (auto simp: rl_entry_ok_def)
  note f = rl_collapse_forwards_ok [OF r(3) ro later fw]
  have swal: "\<not> rl_add_swallows s e (rev before @ r # rest) \<longleftrightarrow>
      (\<forall>b\<in>set rest. rl_end (r\<lparr>rl_end := e\<rparr>) \<le> rl_end b)"
    using rl_add_swallows_iff [of "rev before" r rest s e] ok bs rs by force
  have whole: "rl_blocks (rev before @ r # rest) \<union> {s..e} = rl_blocks before \<union> rl_blocks (r\<lparr>rl_end := e\<rparr> # rest)"
    using rs by (auto simp: rl_set_def)
  have sep: "rl_blocks before \<inter> rl_blocks (r\<lparr>rl_end := e\<rparr> # rest) = {}"
    using ok by (fastforce simp: rl_blocks_def rl_set_def rl_list_simps)
  have "rl_set r \<subseteq> rl_set rng'"
  proof
    fix x
    assume "x \<in> rl_set r"
    then have "x \<in> rl_set (r\<lparr>rl_end := e\<rparr>) \<and> (\<forall>b\<in>set rest. x < rl_start b)"
      using r rs by (force simp: rl_set_def)
    with f(6) show "x \<in> rl_set rng'" by blast
  qed
  moreover have "rl_ok (rl_relink before rng' after')"
    using f(1-3) ok by (auto simp: rl_list_simps)
  moreover have "rl_blocks (rl_relink before rng' after') = rl_blocks (rev before @ r # rest) \<union> {s..e}
    \<longleftrightarrow> rl_blocks (rng' # after') = rl_blocks (r\<lparr>rl_end := e\<rparr> # rest)"
    using sep f(5) whole by (auto simp: rl_relink_def)
  ultimately show ?thesis
    unfolding rl_add_result_def swal f(7) [symmetric] using f(4,5) whole
    by (auto simp: rl_relink_def)
qed

text \<open>The branch that extends the start of the first overlapping entry.\<close>

lemma rl_add_ends_result:
  assumes ok: "rl_ok (rev before @ r # rest)" and bs: "\<forall>b\<in>set before. rl_end b < s"
    and rs: "s < rl_start r" "e < rl_end r" "rl_start r \<le> e" and s: "0 \<le> s"
    and bw: "rl_collapse_backwards before (r\<lparr>rl_start := s\<rparr>) = (before', rng')"
  shows "rl_add_result s e (rev before @ r # rest) (rl_relink before' rng' rest)"
proof -
  have okb: "rl_ok (rev before)" and ro: "rl_ok (r\<lparr>rl_start := s\<rparr> # rest)"
    using ok rs s by (auto simp: rl_list_simps rl_entry_ok_def)
  note b = rl_collapse_backwards_ok [OF okb ro _ bw]
  have "\<forall>b\<in>set rest. e < rl_end b"
    using ok rs by (force simp: rl_list_simps rl_entry_ok_def dest: rl_ok_entry)
  then have "\<not> rl_add_swallows s e (rev before @ r # rest)"
    using rl_add_swallows_iff [of "rev before" r rest s e] ok bs rs by force
  moreover have "rl_set (r\<lparr>rl_start := s\<rparr>) = {s..e} \<union> rl_set r"
    using rs by (auto simp: rl_set_def)
  ultimately show ?thesis
    unfolding rl_add_result_def using b bs by auto
qed

text \<open>The branches that leave the list alone.\<close>

lemma rl_add_inside_result:
  assumes ok: "rl_ok (rev before @ r # rest)" and bs: "\<forall>b\<in>set before. rl_end b < s"
    and rs: "rl_start r \<le> s" "e \<le> rl_end r" "s \<le> e"
  shows "rl_add_result s e (rev before @ r # rest) (rev before @ r # rest)"
proof -
  have "\<forall>b\<in>set rest. e < rl_end b"
    using ok rs by (force simp: rl_list_simps rl_entry_ok_def dest: rl_ok_entry)
  then have "\<not> rl_add_swallows s e (rev before @ r # rest)"
    using rl_add_swallows_iff [of "rev before" r rest s e] ok bs rs by force
  with ok rs show ?thesis by (auto simp: rl_add_result_def rl_set_def)
qed

lemma rl_add_all:
  assumes ok: "rl_ok xs" and se: "0 \<le> s" "s \<le> e" "e \<le> RL_INFINITY"
  shows "rl_add_result s e xs (rl_add s e xs)"
proof -
  obtain ot before after where scan: "rl_scan xs s e = (ot, (before, after))"
    by (metis surj_pair)
  note sp = rl_scan_spec [OF scan]
  show ?thesis
  proof (cases "ot = RL_NOOVERLAP")
    case True
    have "\<forall>r\<in>set after. e < rl_start r"
      using sp(1,3) ok True by (cases after) (auto simp: rl_list_simps rl_entry_ok_def)
    then have "rl_add_result s e (rev before @ [] @ after) (rl_collapse_neighbors before (rl_make s e) after)"
      using ok sp(1,2) se by (intro rl_add_neighbors_result) auto
    with True scan sp(1) show ?thesis by (simp add: rl_add_def)
  next
    case False
    then obtain r rest where after: "after = r # rest" and ot: "ot = rl_overlap r s e"
      using sp(3) by (cases after) auto
    have xs: "xs = rev before @ r # rest" using sp(1) after by simp
    show ?thesis
    proof (cases ot)
      case RL_OVERLAPISCONTAINED
      then have "s \<le> rl_start r" "rl_end r \<le> e"
        using ot by (auto simp: rl_overlap_def split: if_splits)
      then have "rl_add_result s e (rev before @ [r] @ rest)
          (rl_collapse_neighbors before (r\<lparr>rl_start := s, rl_end := e\<rparr>) rest)"
        using ok xs sp(2) se by (intro rl_add_neighbors_result) auto
      with RL_OVERLAPISCONTAINED scan after xs show ?thesis by (simp add: rl_add_def)
    qed (use False ot scan after xs ok sp(2) se in
      \<open>auto simp: rl_add_def rl_overlap_def split: if_splits prod.splits
         intro!: rl_add_inside_result rl_add_starts_result rl_add_ends_result\<close>)
  qed
qed

text \<open>
  What one step of \<open>rl_remove\<close> does to the entry it points at: the result keeps the order and
  covers what the list covered, less the part of that entry that is removed.
\<close>

definition rl_remove_result :: "int \<Rightarrow> int \<Rightarrow> rl_head \<Rightarrow> rl_head \<Rightarrow> bool" where
  "rl_remove_result s e xs ys \<longleftrightarrow> rl_ok ys \<and> rl_blocks ys = rl_blocks xs - {s..e}"

lemma rl_remove_untouched:
  assumes "rl_ok (rev before @ r # rest)" "\<forall>b\<in>set before. rl_end b < s"
  shows "rl_blocks before \<inter> {s..e} = {}" "rl_blocks rest \<inter> {..rl_end r} = {}"
  using assms by (force simp: rl_blocks_def rl_set_def rl_list_simps)+

lemma rl_remove_replace:
  assumes ok: "rl_ok (rev before @ r # rest)" and bs: "\<forall>b\<in>set before. rl_end b < s"
    and re: "e \<le> rl_end r" and mid: "rl_ok mid"
    and inside: "\<forall>m\<in>set mid. rl_start r \<le> rl_start m \<and> rl_end m \<le> rl_end r"
    and bl: "rl_blocks mid = rl_set r - {s..e}"
  shows "rl_remove_result s e (rev before @ r # rest) (rev before @ mid @ rest)"
proof -
  have "rl_ok (rev before @ mid @ rest)"
    using ok mid inside by (fastforce simp: rl_list_simps)
  moreover have "rl_blocks rest \<inter> {s..e} = {}"
    using rl_remove_untouched(2) [OF ok bs] re by auto
  ultimately show ?thesis
    using rl_remove_untouched(1) [OF ok bs] bl by (auto simp: rl_remove_result_def)
qed

lemma rl_remove_stop:
  assumes ok: "rl_ok (rev before @ r # rest)" and bs: "\<forall>b\<in>set before. rl_end b < s"
    and se: "s \<le> e" and ot: "ot = rl_overlap r s e"
  shows "ot = RL_MATCHINGOVERLAP \<Longrightarrow> rl_remove_result s e (rev before @ r # rest) (rev before @ rest)"
    "ot = RL_OVERLAPCONTAINSRANGE \<Longrightarrow> rl_start r = s \<Longrightarrow>
      rl_remove_result s e (rev before @ r # rest) (rev before @ r\<lparr>rl_start := e + 1\<rparr> # rest)"
    "ot = RL_OVERLAPCONTAINSRANGE \<Longrightarrow> rl_start r \<noteq> s \<Longrightarrow> rl_end r = e \<Longrightarrow>
      rl_remove_result s e (rev before @ r # rest) (rev before @ r\<lparr>rl_end := s - 1\<rparr> # rest)"
    "ot = RL_OVERLAPCONTAINSRANGE \<Longrightarrow> rl_start r \<noteq> s \<Longrightarrow> rl_end r \<noteq> e \<Longrightarrow>
      rl_remove_result s e (rev before @ r # rest)
        (rev before @ r\<lparr>rl_end := s - 1\<rparr> # rl_make (e + 1) (rl_end r) # rest)"
    "ot = RL_OVERLAPENDSAFTER \<Longrightarrow>
      rl_remove_result s e (rev before @ r # rest)
        (rev before @ r\<lparr>rl_start := if e = RL_INFINITY then RL_INFINITY else e + 1\<rparr> # rest)"
proof -
  have r: "rl_entry_ok r" using ok by (auto simp: rl_list_simps)
  note replace = rl_remove_replace [OF ok bs]
  note facts = rl_overlap_def rl_ok_Cons rl_entry_ok_def rl_set_def
  show "ot = RL_MATCHINGOVERLAP \<Longrightarrow> rl_remove_result s e (rev before @ r # rest) (rev before @ rest)"
    using replace [of e "[]"] ot by (auto simp: facts split: if_splits)
  show "ot = RL_OVERLAPCONTAINSRANGE \<Longrightarrow> rl_start r = s \<Longrightarrow>
      rl_remove_result s e (rev before @ r # rest) (rev before @ r\<lparr>rl_start := e + 1\<rparr> # rest)"
    using replace [of e "[r\<lparr>rl_start := e + 1\<rparr>]"] ot r se by (force simp: facts split: if_splits)
  show "ot = RL_OVERLAPCONTAINSRANGE \<Longrightarrow> rl_start r \<noteq> s \<Longrightarrow> rl_end r = e \<Longrightarrow>
      rl_remove_result s e (rev before @ r # rest) (rev before @ r\<lparr>rl_end := s - 1\<rparr> # rest)"
    using replace [of e "[r\<lparr>rl_end := s - 1\<rparr>]"] ot r se by (force simp: facts split: if_splits)
  show "ot = RL_OVERLAPCONTAINSRANGE \<Longrightarrow> rl_start r \<noteq> s \<Longrightarrow> rl_end r \<noteq> e \<Longrightarrow>
      rl_remove_result s e (rev before @ r # rest)
        (rev before @ r\<lparr>rl_end := s - 1\<rparr> # rl_make (e + 1) (rl_end r) # rest)"
    using replace [of e "[r\<lparr>rl_end := s - 1\<rparr>, rl_make (e + 1) (rl_end r)]"] ot r se
    by (force simp: facts split: if_splits)
  show "ot = RL_OVERLAPENDSAFTER \<Longrightarrow>
      rl_remove_result s e (rev before @ r # rest)
        (rev before @ r\<lparr>rl_start := if e = RL_INFINITY then RL_INFINITY else e + 1\<rparr> # rest)"
    using replace [of e "[r\<lparr>rl_start := e + 1\<rparr>]"] ot r se by (force simp: facts split: if_splits)
qed

lemma rl_remove_continue:
  assumes ok: "rl_ok (rev before @ r # rest)" and ot: "ot = rl_overlap r s e"
  shows "ot = RL_OVERLAPISCONTAINED \<Longrightarrow> rl_ok (rev before @ rest)"
    "ot = RL_OVERLAPISCONTAINED \<Longrightarrow> rl_remove_result s e (rev before @ rest) ys \<Longrightarrow>
      rl_remove_result s e (rev before @ r # rest) ys"
    "ot = RL_OVERLAPSTARTSBEFORE \<Longrightarrow> rl_ok (rev (r\<lparr>rl_end := s - 1\<rparr> # before) @ rest)"
    "ot = RL_OVERLAPSTARTSBEFORE \<Longrightarrow>
      rl_remove_result s e (rev (r\<lparr>rl_end := s - 1\<rparr> # before) @ rest) ys \<Longrightarrow>
      rl_remove_result s e (rev before @ r # rest) ys"
proof -
  show "rl_ok (rev before @ rest)" using ok by (auto simp: rl_list_simps)
next
  assume "ot = RL_OVERLAPISCONTAINED" and ys: "rl_remove_result s e (rev before @ rest) ys"
  then have "rl_set r \<subseteq> {s..e}"
    using ot by (auto simp: rl_overlap_def rl_set_def split: if_splits)
  with ys show "rl_remove_result s e (rev before @ r # rest) ys"
    by (simp add: rl_remove_result_def) blast
next
  assume "ot = RL_OVERLAPSTARTSBEFORE"
  then have rs: "rl_start r < s" "s \<le> rl_end r" "rl_end r \<le> e"
    using ot by (auto simp: rl_overlap_def split: if_splits)
  then have "\<forall>b\<in>set rest. s < rl_start b"
    using ok by (auto simp: rl_list_simps)
  then show "rl_ok (rev (r\<lparr>rl_end := s - 1\<rparr> # before) @ rest)"
    using ok rs by (simp add: rl_list_simps rl_entry_ok_def)
  assume ys: "rl_remove_result s e (rev (r\<lparr>rl_end := s - 1\<rparr> # before) @ rest) ys"
  have "rl_set (r\<lparr>rl_end := s - 1\<rparr>) - {s..e} = rl_set r - {s..e}"
    using rs by (auto simp: rl_set_def)
  with ys show "rl_remove_result s e (rev before @ r # rest) ys"
    by (simp add: rl_remove_result_def Un_Diff)
qed

lemma rl_remove_result_refl:
  assumes "rl_ok xs" "\<forall>r\<in>set xs. rl_end r < s \<or> e < rl_start r"
  shows "rl_remove_result s e xs xs"
  using assms by (force simp: rl_remove_result_def rl_blocks_def rl_set_def)

lemma rl_remove_from_all:
  assumes "rl_ok (rev before @ after)" "\<forall>r\<in>set before. rl_end r < s" "s \<le> e"
  shows "rl_remove_result s e (rev before @ after) (rl_remove_from before s e after)"
  using assms
proof (induction after arbitrary: before rule: measure_induct_rule [of length])
  case (less after)
  obtain ot before' after' where scan: "rl_scan_from before s e after = (ot, (before', after'))"
    by (metis surj_pair)
  obtain mid where mid: "before' = rev mid @ before" "after = mid @ after'" "\<forall>r\<in>set mid. rl_end r < s"
    "case after' of [] \<Rightarrow> ot = RL_NOOVERLAP
     | r # _ \<Rightarrow> ot = rl_overlap r s e \<and> (ot = RL_NOOVERLAP \<longrightarrow> e < rl_start r)"
    using rl_scan_from_spec [OF scan] by blast
  have ok: "rl_ok (rev before' @ after')" and bs: "\<forall>r\<in>set before'. rl_end r < s"
    and all: "rev before @ after = rev before' @ after'"
    using less.prems mid by auto
  note step = rl_remove_from.simps [of before s e after, unfolded scan]
  show ?case
  proof (cases "ot = RL_NOOVERLAP")
    case True
    have "\<forall>r\<in>set after'. e < rl_start r"
      using mid(4) ok True by (cases after') (auto simp: rl_list_simps rl_entry_ok_def)
    then have "rl_remove_result s e (rev before' @ after') (rev before' @ after')"
      using ok bs by (intro rl_remove_result_refl) auto
    with True step all show ?thesis by simp
  next
    case False
    then obtain r rest where after': "after' = r # rest" and ot: "ot = rl_overlap r s e"
      using mid(4) by (cases after') auto
    have ok': "rl_ok (rev before' @ r # rest)" using ok after' by simp
    have IH: "rl_remove_result s e (rev b @ rest) (rl_remove_from b s e rest)"
      if "rl_ok (rev b @ rest)" "\<forall>r\<in>set b. rl_end r < s" for b
      using less.IH [of rest b] that mid(2) after' \<open>s \<le> e\<close> by simp
    have last: "rl_remove_result s e (rev b @ rest) (rev b)"
      if "rest = []" "rl_ok (rev b @ rest)" "\<forall>r\<in>set b. rl_end r < s" for b
      using that rl_remove_result_refl [of "rev b" s e] by auto
    note stop = rl_remove_stop [OF ok' bs \<open>s \<le> e\<close> ot]
    note continue = rl_remove_continue [OF ok' ot]
    show ?thesis
    proof (cases ot)
      case RL_OVERLAPISCONTAINED
      have "rl_remove_result s e (rev before' @ rest)
          (if rest \<noteq> [] then rl_remove_from before' s e rest else rev before')"
        using IH [of before'] last [of before'] bs continue(1) [OF RL_OVERLAPISCONTAINED] by (cases rest) auto
      with continue(2) RL_OVERLAPISCONTAINED step all after' show ?thesis by simp
    next
      case RL_OVERLAPSTARTSBEFORE
      let ?b = "r\<lparr>rl_end := s - 1\<rparr> # before'"
      have "rl_remove_result s e (rev ?b @ rest)
          (if rest \<noteq> [] then rl_remove_from ?b s e rest else rev ?b)"
        using IH [of ?b] last [of ?b] bs continue(3) [OF RL_OVERLAPSTARTSBEFORE] by (cases rest) auto
      with continue(4) RL_OVERLAPSTARTSBEFORE step all after' show ?thesis by (simp add: Let_def)
    next
      case RL_NOOVERLAP
      with False show ?thesis by simp
    next
      case RL_MATCHINGOVERLAP
      with stop(1) step all after' show ?thesis by simp
    next
      case RL_OVERLAPCONTAINSRANGE
      with stop(2-4) step all after' show ?thesis by (simp add: rl_relink_def)
    next
      case RL_OVERLAPENDSAFTER
      with stop(5) step all after' show ?thesis by (simp add: rl_relink_def)
    qed
  qed
qed

section \<open>The range list as a store of offsets\<close>

definition rl_request_ok :: "int \<times> int \<Rightarrow> bool" where
  "rl_request_ok r \<longleftrightarrow> 0 \<le> fst r \<and> fst r \<le> snd r \<and> snd r \<le> RL_INFINITY"

interpretation rl: block_store rl_ok rl_blocks "\<lambda>r. {fst r..snd r}"
  "\<lambda>r xs. rl_request_ok r \<and> \<not> rl_add_swallows (fst r) (snd r) xs" "\<lambda>r. rl_add (fst r) (snd r)"
  "\<lambda>r xs. rl_request_ok r" "\<lambda>r. rl_remove (fst r) (snd r)"
proof unfold_locales
  fix xs :: rl_head and r :: "int \<times> int"
  assume ok: "rl_ok xs"
  {
    assume "rl_request_ok r \<and> \<not> rl_add_swallows (fst r) (snd r) xs"
    with ok have "rl_add_result (fst r) (snd r) xs (rl_add (fst r) (snd r) xs)"
      and "\<not> rl_add_swallows (fst r) (snd r) xs"
      by (auto simp: rl_request_ok_def intro: rl_add_all)
    then show "rl_ok (rl_add (fst r) (snd r) xs)"
      "rl_blocks (rl_add (fst r) (snd r) xs) = rl_blocks xs \<union> {fst r..snd r}"
      by (auto simp: rl_add_result_def)
  next
    assume "rl_request_ok r"
    then have "rl_remove_result (fst r) (snd r) xs (rl_remove (fst r) (snd r) xs)"
      using rl_remove_from_all [of "[]" xs "fst r" "snd r"] ok
      by (auto simp: rl_remove_def rl_request_ok_def rl_remove_result_def)
    then show "rl_ok (rl_remove (fst r) (snd r) xs)"
      "rl_blocks (rl_remove (fst r) (snd r) xs) = rl_blocks xs - {fst r..snd r}"
      by (auto simp: rl_remove_result_def)
  }
qed

section \<open>Properties\<close>

text \<open>
  C9.  Adding a range to a well-formed range list keeps it well formed, never forgets an offset it
  covered and never covers an offset outside the old list and the range; it covers exactly both
  unless the range reaches past the end of an entry that lies behind the first entry it overlaps.
\<close>

theorem rl_add_correct:
  assumes "rl_ok xs" "0 \<le> s" "s \<le> e" "e \<le> RL_INFINITY"
  shows "rl_ok (rl_add s e xs) \<and> rl_blocks xs \<subseteq> rl_blocks (rl_add s e xs) \<and>
    rl_blocks (rl_add s e xs) \<subseteq> rl_blocks xs \<union> {s..e} \<and>
    (rl_blocks (rl_add s e xs) = rl_blocks xs \<union> {s..e} \<longleftrightarrow> \<not> rl_add_swallows s e xs)"
  using rl_add_all [OF assms] by (auto simp: rl_add_result_def)

theorem rl_add_correct_witness:
  "rl_ok [rl_make 10 20, rl_make 30 40] \<and>
   rl_blocks (rl_add 15 32 [rl_make 10 20, rl_make 30 40]) = rl_blocks [rl_make 10 20, rl_make 30 40] \<union> {15..32}"
proof -
  have ok: "rl_ok [rl_make 10 20, rl_make 30 40]"
    by (simp add: rl_ok_def rl_entry_ok_def RL_INFINITY_def)
  have "\<not> rl_add_swallows 15 32 [rl_make 10 20, rl_make 30 40]"
    by (simp add: rl_add_swallows_def)
  with rl_add_correct [OF ok, of 15 32] ok show ?thesis
    by (simp add: RL_INFINITY_def del: rl_blocks_simps)
qed


text \<open>
  C11.  Removing a range from a well-formed range list keeps it well formed and leaves exactly the
  offsets outside the range, whether entries are deleted, shortened or split.
\<close>

theorem rl_remove_correct:
  assumes "rl_ok xs" "0 \<le> s" "s \<le> e" "e \<le> RL_INFINITY"
  shows "rl_ok (rl_remove s e xs) \<and> rl_blocks (rl_remove s e xs) = rl_blocks xs - {s..e}"
  using rl.inv_del [OF assms(1), of "(s, e)"] rl.blocks_del [OF assms(1), of "(s, e)"] assms
  by (simp add: rl_request_ok_def)

theorem rl_remove_correct_witness:
  "rl_ok [rl_make 10 20, rl_make 30 40] \<and>
   rl_blocks (rl_remove 15 32 [rl_make 10 20, rl_make 30 40]) = {10..14} \<union> {33..40}"
proof -
  have ok: "rl_ok [rl_make 10 20, rl_make 30 40]"
    by (simp add: rl_ok_def rl_entry_ok_def RL_INFINITY_def)
  moreover have "rl_blocks [rl_make 10 20, rl_make 30 40] - {15..32} = {10..14} \<union> {33..40}"
    by (simp add: rl_set_def) auto
  ultimately show ?thesis
    using rl_remove_correct [OF ok, of 15 32] by (simp add: RL_INFINITY_def)
qed



text \<open>
  C13.  Subtracting one range from another leaves a part of the first that avoids the second and
  that is at least as long as every other run of offsets doing so.
\<close>

theorem rl_subtract_largest:
  assumes "rl_entry_ok a" "rl_entry_ok b"
  shows "rl_set (rl_subtract a b) \<subseteq> rl_set a - rl_set b \<and>
    (\<forall>i j. i \<le> j \<and> {i..j} \<subseteq> rl_set a - rl_set b \<longrightarrow> j - i + 1 \<le> rl_len (rl_subtract a b))"
proof -
  have run: "i \<ge> rl_start a \<and> j \<le> rl_end a \<and> (j < rl_start b \<or> rl_end b < i)"
    if ij: "i \<le> j" "{i..j} \<subseteq> rl_set a - rl_set b" for i j
  proof -
    have "i \<in> rl_set a - rl_set b" "j \<in> rl_set a - rl_set b" using ij by auto
    moreover have "\<not> (i < rl_start b \<and> rl_end b < j)"
    proof
      assume "i < rl_start b \<and> rl_end b < j"
      then have "rl_start b \<in> {i..j}" using assms by (auto simp: rl_entry_ok_def)
      with ij(2) have "rl_start b \<notin> rl_set b" by blast
      with assms(2) show False by (auto simp: rl_set_def rl_entry_ok_def)
    qed
    ultimately show ?thesis by (auto simp: rl_set_def)
  qed
  have "rl_set (rl_subtract a b) \<subseteq> rl_set a - rl_set b"
    using assms by (auto simp: rl_subtract_def rl_overlap_def rl_set_def rl_entry_ok_def)
  moreover have "j - i + 1 \<le> rl_len (rl_subtract a b)" if "i \<le> j" "{i..j} \<subseteq> rl_set a - rl_set b" for i j
    using run [OF that] that(1) assms
    by (auto simp: rl_subtract_def rl_overlap_def rl_len_def rl_entry_ok_def)
  ultimately show ?thesis by blast
qed

theorem rl_subtract_largest_witness:
  "rl_subtract (rl_make 0 99) (rl_make 20 29) = rl_make 30 99 \<and>
   rl_set (rl_subtract (rl_make 0 99) (rl_make 20 29)) \<subseteq> rl_set (rl_make 0 99) - rl_set (rl_make 20 29)"
proof -
  have "rl_entry_ok (rl_make 0 99)" "rl_entry_ok (rl_make 20 29)"
    by (simp_all add: rl_entry_ok_def RL_INFINITY_def)
  from rl_subtract_largest [OF this] show ?thesis
    by (simp add: rl_subtract_def rl_overlap_def rl_make_def)
qed

text \<open>
  C14.  A range that meets no entry of a well-formed range list can be added and removed again:
  the list then covers exactly what it covered before.
\<close>

theorem rl_add_remove_roundtrip:
  assumes "rl_ok xs" "0 \<le> s" "s \<le> e" "e \<le> RL_INFINITY" "rl_blocks xs \<inter> {s..e} = {}"
  shows "rl_ok (rl_remove s e (rl_add s e xs)) \<and> rl_blocks (rl_remove s e (rl_add s e xs)) = rl_blocks xs"
proof -
  have "\<not> rl_add_swallows s e xs"
  proof
    assume "rl_add_swallows s e xs"
    then obtain a b where "a \<in> set xs" "b \<in> set xs" "s \<le> rl_end a" "rl_end a < rl_start b" "rl_end b < e"
      by (auto simp: rl_add_swallows_def)
    then have "rl_end b \<in> rl_blocks xs \<inter> {s..e}"
      using rl_ok_entry [OF assms(1), of b] by (auto simp: rl_blocks_def rl_set_def rl_entry_ok_def)
    with assms(5) show False by simp
  qed
  with assms rl.del_add_cancel [of xs "(s, e)"] show ?thesis
    by (auto simp: rl_request_ok_def)
qed

theorem rl_add_remove_roundtrip_witness:
  "rl_blocks (rl_remove 21 25 (rl_add 21 25 [rl_make 10 20, rl_make 30 40])) =
   rl_blocks [rl_make 10 20, rl_make 30 40]"
proof -
  have ok: "rl_ok [rl_make 10 20, rl_make 30 40]"
    by (simp add: rl_ok_def rl_entry_ok_def RL_INFINITY_def)
  have "rl_blocks [rl_make 10 20, rl_make 30 40] \<inter> {21..25} = {}"
    by (auto simp: rl_set_def)
  with rl_add_remove_roundtrip [OF ok, of 21 25] show ?thesis
    by (simp add: RL_INFINITY_def del: rl_blocks_simps)
qed

end
