(* ===== verification/Volume_Mount.thy ===== *)
theory Volume_Mount
  imports Range_List
begin

text \<open>
  The part of \<open>struct hfsmount\<close> (\<^verbatim>\<open>core/hfs.h\<close>) that the block allocator reads and writes, the
  extent descriptors of \<^verbatim>\<open>core/hfs_format.h\<close> and the flag words of \<^verbatim>\<open>core/hfs.h\<close> and
  \<^verbatim>\<open>core/FileMgrInternal.h\<close>.

  The contents of the allocation file are part of the mount: \<open>vcbBitmap\<close> is the sequence of its
  32-bit words in host order (the sources keep them big-endian and swap every access with
  \<open>SWAP_BE32\<close>, which commutes with the bitwise operations they apply).  \<open>jnl\<close> tells whether
  the volume has a journal, and \<open>jnl_trims\<close> records, latest first, the extents that the
  allocator hands to the journal's trim list.  The mount's locks are not part of the state: every
  routine below runs with the allocation file lock held.
\<close>

section \<open>Extents\<close>

record HFSPlusExtentDescriptor =
  startBlock :: nat
  blockCount :: nat

definition mk_extent :: "nat \<Rightarrow> nat \<Rightarrow> HFSPlusExtentDescriptor" where
  "mk_extent s c = \<lparr>startBlock = s, blockCount = c\<rparr>"

lemma mk_extent_sel [simp]:
  "startBlock (mk_extent s c) = s" "blockCount (mk_extent s c) = c"
  by (simp_all add: mk_extent_def)

lemma mk_extent_eq [simp]: "mk_extent s c = mk_extent s' c' \<longleftrightarrow> s = s' \<and> c = c'"
  by (simp add: mk_extent_def)

section \<open>Flags\<close>

definition HFS_METADATA_ZONE :: u32 where "HFS_METADATA_ZONE = 0x80"
definition HFS_HAS_SPARSE_DEVICE :: u32 where "HFS_HAS_SPARSE_DEVICE = 0x400"
definition HFS_SKIP_UPDATE_NEXT_ALLOCATION :: u32 where "HFS_SKIP_UPDATE_NEXT_ALLOCATION = 0x4000"
definition HFS_SUMMARY_TABLE :: u32 where "HFS_SUMMARY_TABLE = 0x800000"

definition HFS_ALLOC_FORCECONTIG :: u32 where "HFS_ALLOC_FORCECONTIG = 0x001"
definition HFS_ALLOC_METAZONE :: u32 where "HFS_ALLOC_METAZONE = 0x002"
definition HFS_ALLOC_SKIPFREEBLKS :: u32 where "HFS_ALLOC_SKIPFREEBLKS = 0x004"
definition HFS_ALLOC_FLUSHTXN :: u32 where "HFS_ALLOC_FLUSHTXN = 0x008"
definition HFS_ALLOC_TENTATIVE :: u32 where "HFS_ALLOC_TENTATIVE = 0x010"
definition HFS_ALLOC_LOCKED :: u32 where "HFS_ALLOC_LOCKED = 0x020"
definition HFS_ALLOC_IGNORE_TENTATIVE :: u32 where "HFS_ALLOC_IGNORE_TENTATIVE = 0x040"
definition HFS_ALLOC_IGNORE_RESERVED :: u32 where "HFS_ALLOC_IGNORE_RESERVED = 0x080"
definition HFS_ALLOC_USE_TENTATIVE :: u32 where "HFS_ALLOC_USE_TENTATIVE = 0x100"
definition HFS_ALLOC_COMMIT :: u32 where "HFS_ALLOC_COMMIT = 0x200"
definition HFS_ALLOC_TRY_HARD :: u32 where "HFS_ALLOC_TRY_HARD = 0x400"
definition HFS_ALLOC_ROLL_BACK :: u32 where "HFS_ALLOC_ROLL_BACK = 0x800"

lemmas hfs_flag_defs [hfs_defs] =
  HFS_METADATA_ZONE_def HFS_HAS_SPARSE_DEVICE_def HFS_SKIP_UPDATE_NEXT_ALLOCATION_def
  HFS_SUMMARY_TABLE_def HFS_ALLOC_FORCECONTIG_def HFS_ALLOC_METAZONE_def
  HFS_ALLOC_SKIPFREEBLKS_def HFS_ALLOC_FLUSHTXN_def HFS_ALLOC_TENTATIVE_def HFS_ALLOC_LOCKED_def
  HFS_ALLOC_IGNORE_TENTATIVE_def HFS_ALLOC_IGNORE_RESERVED_def HFS_ALLOC_USE_TENTATIVE_def
  HFS_ALLOC_COMMIT_def HFS_ALLOC_TRY_HARD_def HFS_ALLOC_ROLL_BACK_def ISSET_def

section \<open>The mount\<close>

definition kMaxFreeExtents :: nat where
  "kMaxFreeExtents = 10"

datatype hfs_reserved_type = HFS_TENTATIVE_BLOCKS | HFS_LOCKED_BLOCKS

text \<open>A call of the journal's trim interface, in bytes: offset and length.\<close>

datatype jnl_trim_call =
    Trim_add nat nat
  | Trim_remove nat nat

record hfsmount =
  hfs_flags :: u32
  freeBlocks :: nat
  tentativeBlocks :: nat
  nextAllocation :: nat
  sparseAllocation :: nat
  hfs_header_dirty :: bool
  vcbAtrb :: u32
  blockSize :: nat
  totalBlocks :: nat
  allocLimit :: nat
  hfsPlusIOPosOffset :: nat
  hfs_logical_bytes :: nat
  vcbVBMIOSize :: nat
  vcbFreeExtCnt :: nat
  vcbFreeExt :: "HFSPlusExtentDescriptor list"
  hfs_summary_table :: "u8 list"
  hfs_summary_size :: nat
  hfs_summary_bytes :: nat
  hfs_allocation_blocks :: nat
  reserveBlocks :: nat
  loanedBlocks :: nat
  lockedBlocks :: nat
  hfs_metazone_start :: nat
  hfs_metazone_end :: nat
  hfs_freed_block_count :: nat
  hfs_reserved_ranges :: "hfs_reserved_type \<Rightarrow> rl_head"
  vcbBitmap :: "u32 list"
  jnl :: bool
  jnl_trims :: "jnl_trim_call list"

definition MarkVCBDirty :: "hfsmount \<Rightarrow> hfsmount" where
  "MarkVCBDirty m = m\<lparr>hfs_header_dirty := True\<rparr>"

definition kHFSVolumeInconsistentMask :: u32 where
  "kHFSVolumeInconsistentMask = 0x4000"

definition hfs_mark_inconsistent :: "hfsmount \<Rightarrow> hfsmount" where
  "hfs_mark_inconsistent m =
     (if and (vcbAtrb m) kHFSVolumeInconsistentMask = 0
      then MarkVCBDirty (m\<lparr>vcbAtrb := or (vcbAtrb m) kHFSVolumeInconsistentMask\<rparr>)
      else m)"

text \<open>
  A freshly mounted volume with an empty free extent cache, no reservations, no journal and no
  summary table: \<open>nblocks\<close> blocks, a bitmap I/O size of \<open>iosize\<close> bytes and the given bitmap words.
\<close>

definition plain_mount :: "nat \<Rightarrow> nat \<Rightarrow> u32 list \<Rightarrow> hfsmount" where
  "plain_mount nblocks iosize bitmap =
     \<lparr>hfs_flags = 0, freeBlocks = nblocks, tentativeBlocks = 0, nextAllocation = 1,
      sparseAllocation = 1, hfs_header_dirty = False, vcbAtrb = 0, blockSize = 4096, totalBlocks = nblocks, allocLimit = nblocks,
      hfsPlusIOPosOffset = 0, hfs_logical_bytes = 4096 * nblocks, vcbVBMIOSize = iosize,
      vcbFreeExtCnt = 0, vcbFreeExt = replicate kMaxFreeExtents (mk_extent 0 0),
      hfs_summary_table = [], hfs_summary_size = 0, hfs_summary_bytes = 0,
      hfs_allocation_blocks = 1, reserveBlocks = 0, loanedBlocks = 0, lockedBlocks = 0,
      hfs_metazone_start = 0, hfs_metazone_end = 0, hfs_freed_block_count = 0,
      hfs_reserved_ranges = (\<lambda>_. []), vcbBitmap = bitmap, jnl = False, jnl_trims = []\<rparr>"

end
