(* ===== verification/Volume_Bitmap.thy ===== *)
theory Volume_Bitmap
  imports Volume_Mount
begin

text \<open>
  The volume bitmap of \<^verbatim>\<open>core/VolumeAllocation.c\<close> and its access in pieces of
  \<open>vcbVBMIOSize\<close> bytes.  Bit 31 of word \<open>i\<close> stands for block \<open>32 * i\<close>, bit 0 for block
  \<open>32 * i + 31\<close>.  Reading a piece through the buffer cache is the parameter \<open>bread\<close>, which
  gives the error code of \<open>buf_meta_bread\<close> for a piece number; when it is \<open>noErr\<close> the buffer
  holds that piece of \<open>vcbBitmap\<close>.
\<close>

section \<open>Blocks of a bitmap\<close>

definition bm_set :: "u32 list \<Rightarrow> nat set" where
  "bm_set ws = {b. b < 32 * length ws \<and> bit (ws ! (b div 32)) (31 - b mod 32)}"

text \<open>The blocks at the positions of a word's set bits.\<close>

definition word_blocks :: "nat \<Rightarrow> u32 \<Rightarrow> nat set" where
  "word_blocks i w = {b. b div 32 = i \<and> bit w (31 - b mod 32)}"

lemma in_bm_set: "b \<in> bm_set ws \<longleftrightarrow> b div 32 < length ws \<and> bit (ws ! (b div 32)) (31 - b mod 32)"
  by (auto simp: bm_set_def div_less_iff_less_mult mult.commute)

lemma bm_set_update:
  assumes "i < length ws"
  shows "bm_set (ws[i := w]) = (bm_set ws - {b. b div 32 = i}) \<union> word_blocks i w"
  using assms by (auto simp: in_bm_set word_blocks_def nth_list_update split: if_splits)

lemma bm_set_or:
  assumes "i < length ws"
  shows "bm_set (ws[i := or (ws ! i) w]) = bm_set ws \<union> word_blocks i w"
  using assms by (auto simp: in_bm_set word_blocks_def nth_list_update bit_simps split: if_splits)

lemma bm_set_and_not:
  assumes "i < length ws"
  shows "bm_set (ws[i := and (ws ! i) (not w)]) = bm_set ws - word_blocks i w"
  using assms by (auto simp: in_bm_set word_blocks_def nth_list_update bit_simps split: if_splits)

definition kAllBitsSetInWord :: u32 where
  "kAllBitsSetInWord = 0xFFFFFFFF"

definition kHighBitInWordMask :: u32 where
  "kHighBitInWordMask = 0x80000000"

definition kLowBitInWordMask :: u32 where
  "kLowBitInWordMask = 1"

lemma kAllBits_mask: "kAllBitsSetInWord = mask 32"
  by (simp add: kAllBitsSetInWord_def mask_eq_exp_minus_1)

lemma bit_kHighBit: "bit kHighBitInWordMask n \<longleftrightarrow> n = 31"
proof -
  have "kHighBitInWordMask = 2 ^ 31"
    by (simp add: kHighBitInWordMask_def)
  then have "bit kHighBitInWordMask n \<longleftrightarrow> bit (2 ^ 31 :: u32) n"
    by (simp only:)
  also have "\<dots> \<longleftrightarrow> n = 31"
    by (simp only: bit_exp_iff possible_bit_word) auto
  finally show ?thesis .
qed

lemma bit_all_shift:
  "j < 32 \<Longrightarrow> bit (drop_bit f kAllBitsSetInWord) (31 - j) \<longleftrightarrow> f \<le> j"
  by (auto simp: kAllBits_mask bit_simps)

text \<open>The masks of the marking routines, as sets of blocks.\<close>

lemma block_interval:
  fixes b i lo hi :: nat
  assumes "lo \<le> hi" "hi \<le> 32"
  shows "b div 32 = i \<and> lo \<le> b mod 32 \<and> b mod 32 < hi \<longleftrightarrow> 32 * i + lo \<le> b \<and> b < 32 * i + hi"
proof -
  define q r where "q = b div 32" and "r = b mod 32"
  then have "b = 32 * q + r" "r < 32"
    by simp_all
  moreover have "b div 32 = q" "b mod 32 = r"
    by (simp_all add: q_def r_def)
  ultimately show ?thesis
    using assms by (cases q i rule: linorder_cases) auto
qed

lemma word_blocks_interval:
  assumes "\<And>j. j < 32 \<Longrightarrow> bit w (31 - j) \<longleftrightarrow> lo \<le> j \<and> j < hi" "lo \<le> hi" "hi \<le> 32"
  shows "word_blocks i w = run (32 * i + lo) (hi - lo)"
  using assms block_interval [OF assms(2,3), of _ i] by (auto simp: word_blocks_def)

lemma word_blocks_all: "word_blocks i kAllBitsSetInWord = run (32 * i) 32"
  using word_blocks_interval [of kAllBitsSetInWord 0 32 i] bit_all_shift [of _ 0] by simp

lemma word_blocks_from:
  "f < 32 \<Longrightarrow> word_blocks i (drop_bit f kAllBitsSetInWord) = run (32 * i + f) (32 - f)"
  by (rule word_blocks_interval) (auto simp: bit_all_shift)

lemma word_blocks_first:
  assumes "n < 32"
  shows "word_blocks i (not (drop_bit n kAllBitsSetInWord)) = run (32 * i) n"
proof -
  have "word_blocks i (not (drop_bit n kAllBitsSetInWord)) = run (32 * i + 0) (n - 0)"
    using assms by (intro word_blocks_interval) (auto simp: bit_all_shift bit_not_iff)
  then show ?thesis by simp
qed

lemma word_blocks_middle:
  assumes "f + n < 32"
  shows "word_blocks i (and (drop_bit f kAllBitsSetInWord) (not (drop_bit (f + n) kAllBitsSetInWord))) =
    run (32 * i + f) n"
proof -
  have "word_blocks i (and (drop_bit f kAllBitsSetInWord) (not (drop_bit (f + n) kAllBitsSetInWord))) =
      run (32 * i + f) (f + n - f)"
    using assms by (intro word_blocks_interval) (auto simp: bit_all_shift bit_not_iff bit_and_iff)
  then show ?thesis by simp
qed

lemma word_blocks_bit:
  assumes "k < 32"
  shows "word_blocks i (drop_bit k kHighBitInWordMask) = {32 * i + k}"
proof -
  have "word_blocks i (drop_bit k kHighBitInWordMask) = run (32 * i + k) (Suc k - k)"
    using assms by (intro word_blocks_interval) (auto simp: bit_drop_bit_eq bit_kHighBit)
  then show ?thesis by (auto simp: run_def)
qed

section \<open>Reservations\<close>

text \<open>
  \<open>bits_set\<close> works on the buffer as 64-bit quantities; these too are kept in host order, the
  first of two words in the upper half.
\<close>

type_synonym u64 = "64 word"

definition quads_of_words :: "u32 list \<Rightarrow> u64 list" where
  "quads_of_words ws = map (\<lambda>i. word_cat (ws ! (2 * i)) (ws ! (2 * i + 1))) [0..<length ws div 2]"

definition words_of_quads :: "u64 list \<Rightarrow> u32 list" where
  "words_of_quads qs =
     map (\<lambda>i. if even i then ucast (drop_bit 32 (qs ! (i div 2))) else ucast (qs ! (i div 2)))
       [0..<2 * length qs]"

definition LEFT_MASK :: "nat \<Rightarrow> u64" where
  "LEFT_MASK k = push_bit (64 - k) (- 1)"

definition RIGHT_MASK :: "nat \<Rightarrow> u64" where
  "RIGHT_MASK k = drop_bit k (- 1)"

fun bits_set_quads :: "nat \<Rightarrow> nat \<Rightarrow> u64 list \<Rightarrow> u64 list" where
  "bits_set_quads 0 p qs = qs"
| "bits_set_quads (Suc nquads) p qs = bits_set_quads nquads (p + 1) (qs[p := - 1])"

definition bits_set :: "u64 list \<Rightarrow> nat \<Rightarrow> nat \<Rightarrow> u64 list" where
  "bits_set bitmap start end' =
     (let start_bit = start mod 64;
          end_bit = end' mod 64;
          p = start div 64
      in if start div 64 = end' div 64
         then bitmap[p := or (bitmap ! p) (and (RIGHT_MASK start_bit) (LEFT_MASK end_bit))]
         else
           let bitmap1 = bitmap[p := or (bitmap ! p) (RIGHT_MASK start_bit)];
               nquads = (end' - end_bit - start - 1) div 64;
               bitmap2 = bits_set_quads nquads (p + 1) bitmap1;
               p' = p + 1 + nquads
           in if end_bit \<noteq> 0 then bitmap2[p' := or (bitmap2 ! p') (LEFT_MASK end_bit)]
              else bitmap2)"

text \<open>
  The entries of one list of reservations, applied to a buffer whose first bit is block
  \<open>offset\<close>; the flag tells that an entry covers the whole buffer, where the C code returns.
\<close>

fun process_entries :: "int \<Rightarrow> int \<Rightarrow> rl_entry list \<Rightarrow> u64 list \<Rightarrow> bool \<times> u64 list" where
  "process_entries offset end' [] buffer = (False, buffer)"
| "process_entries offset end' (entry # entries) buffer =
     (case rl_overlap entry offset end' of
        RL_NOOVERLAP \<Rightarrow> process_entries offset end' entries buffer
      | RL_OVERLAPCONTAINSRANGE \<Rightarrow> (True, replicate (length buffer) (- 1))
      | RL_MATCHINGOVERLAP \<Rightarrow> (True, replicate (length buffer) (- 1))
      | RL_OVERLAPISCONTAINED \<Rightarrow>
          process_entries offset end' entries
            (bits_set buffer (nat (rl_start entry - offset)) (nat (rl_end entry - offset) + 1))
      | RL_OVERLAPSTARTSBEFORE \<Rightarrow>
          process_entries offset end' entries
            (bits_set buffer (nat (offset - offset)) (nat (rl_end entry - offset) + 1))
      | RL_OVERLAPENDSAFTER \<Rightarrow>
          process_entries offset end' entries
            (bits_set buffer (nat (rl_start entry - offset)) (nat (end' - offset) + 1)))"

definition process_reservations :: "hfsmount \<Rightarrow> u32 list \<Rightarrow> nat \<Rightarrow> u32 \<Rightarrow> u32 list" where
  "process_reservations m buffer offset flags =
     (let nbytes = 4 * length buffer;
          end' = int offset + int nbytes * 8 - 1;
          (full, buffer1) =
            (if ISSET flags HFS_ALLOC_IGNORE_TENTATIVE then (False, quads_of_words buffer)
             else process_entries (int offset) end' (hfs_reserved_ranges m HFS_TENTATIVE_BLOCKS)
                    (quads_of_words buffer));
          (_, buffer2) =
            (if full then (True, buffer1)
             else process_entries (int offset) end' (hfs_reserved_ranges m HFS_LOCKED_BLOCKS) buffer1)
      in words_of_quads buffer2)"

section \<open>Reading and releasing pieces of the bitmap\<close>

abbreviation words_per_block :: "hfsmount \<Rightarrow> nat" where
  "words_per_block m \<equiv> vcbVBMIOSize m div 4"

abbreviation bits_per_block :: "hfsmount \<Rightarrow> nat" where
  "bits_per_block m \<equiv> mul32 (vcbVBMIOSize m) 8"

definition ReadBitmapBlock ::
  "(nat \<Rightarrow> hfs_err) \<Rightarrow> hfsmount \<Rightarrow> nat \<Rightarrow> u32 \<Rightarrow> hfs_err + nat \<times> u32 list" where
  "ReadBitmapBlock bread m abit flags =
     (let block = abit div bits_per_block m;
          buffer = take (words_per_block m) (drop (block * words_per_block m) (vcbBitmap m))
      in case bread block of
           noErr \<Rightarrow>
             Inr (block, if ISSET flags HFS_ALLOC_IGNORE_RESERVED then buffer
                         else process_reservations m buffer (block * vcbVBMIOSize m * 8) flags)
         | err \<Rightarrow> Inl err)"

text \<open>
  Releasing a dirty buffer writes it back.  Only buffers read with \<open>HFS_ALLOC_IGNORE_RESERVED\<close>
  are released dirty; the C code panics on any other.
\<close>

definition ReleaseBitmapBlock :: "hfsmount \<Rightarrow> nat \<Rightarrow> u32 list \<Rightarrow> bool \<Rightarrow> hfsmount" where
  "ReleaseBitmapBlock m block buffer dirty =
     (if dirty
      then m\<lparr>vcbBitmap := take (block * words_per_block m) (vcbBitmap m) @ buffer @
                           drop (block * words_per_block m + length buffer) (vcbBitmap m)\<rparr>
      else m)"

section \<open>Reservations as sets of blocks\<close>

definition quad_set :: "u64 list \<Rightarrow> nat set" where
  "quad_set qs = {b. b div 64 < length qs \<and> bit (qs ! (b div 64)) (63 - b mod 64)}"

lemma quad_set_update:
  "i < length qs \<Longrightarrow> quad_set (qs[i := q]) = (quad_set qs - {b. b div 64 = i}) \<union> {b. b div 64 = i \<and> bit q (63 - b mod 64)}"
  by (auto simp: quad_set_def nth_list_update split: if_splits)

lemma quad_set_or:
  "i < length qs \<Longrightarrow> quad_set (qs[i := or (qs ! i) q]) = quad_set qs \<union> {b. b div 64 = i \<and> bit q (63 - b mod 64)}"
  by (auto simp: quad_set_def nth_list_update bit_simps split: if_splits)

lemma length_quads_of_words [simp]: "length (quads_of_words ws) = length ws div 2"
  by (simp add: quads_of_words_def)

lemma length_words_of_quads [simp]: "length (words_of_quads qs) = 2 * length qs"
  by (simp add: words_of_quads_def)

lemma div_mod_32_64:
  fixes b :: nat
  shows "b div 32 = (if b mod 64 < 32 then 2 * (b div 64) else 2 * (b div 64) + 1)"
    and "b mod 32 = (if b mod 64 < 32 then b mod 64 else b mod 64 - 32)"
proof -
  define d r where "d = b div 64" and "r = b mod 64"
  then have b: "b = 32 * (2 * d) + r" and r: "r < 64"
    by simp_all
  have "b div 32 = 2 * d + r div 32" "b mod 32 = r mod 32"
    unfolding b by (rule div_mult_self4, simp) (rule mod_mult_self4)
  moreover have "r div 32 = (if r < 32 then 0 else 1)" "r mod 32 = (if r < 32 then r else r - 32)"
    using r by (auto simp: div_nat_eqI mod_nat_eqI)
  ultimately show "b div 32 = (if b mod 64 < 32 then 2 * (b div 64) else 2 * (b div 64) + 1)"
    "b mod 32 = (if b mod 64 < 32 then b mod 64 else b mod 64 - 32)"
    by (simp_all add: d_def [symmetric] r_def [symmetric])
qed

lemma bit_word_cat_64:
  fixes a b :: u32
  assumes "r < 64"
  shows "bit (word_cat a b :: u64) (63 - r) \<longleftrightarrow> (if r < 32 then bit a (31 - r) else bit b (31 - (r - 32)))"
proof (cases "r < 32")
  case True
  then have "63 - r - 32 = 31 - r" "\<not> 63 - r < 32" "63 - r < 64"
    by auto
  with True show ?thesis
    by (simp add: bit_word_cat_iff)
next
  case False
  then have "63 - r < 32" "31 - (r - 32) = 63 - r"
    using assms by auto
  with False show ?thesis
    by (simp add: bit_word_cat_iff)
qed

lemma bit_quad_halves:
  fixes q :: u64
  assumes "r < 64"
  shows "r < 32 \<Longrightarrow> bit (ucast (drop_bit 32 q) :: u32) (31 - r) \<longleftrightarrow> bit q (63 - r)"
    and "\<not> r < 32 \<Longrightarrow> bit (ucast q :: u32) (63 - r) \<longleftrightarrow> bit q (63 - r)"
proof -
  assume "r < 32"
  then have "32 + (31 - r) = 63 - r" "31 - r < 32"
    by auto
  then show "bit (ucast (drop_bit 32 q) :: u32) (31 - r) \<longleftrightarrow> bit q (63 - r)"
    by (simp add: bit_ucast_iff bit_drop_bit_eq)
next
  assume "\<not> r < 32"
  then have "63 - r < 32"
    using assms by auto
  then show "bit (ucast q :: u32) (63 - r) \<longleftrightarrow> bit q (63 - r)"
    by (simp add: bit_ucast_iff)
qed

lemma words_of_quads_nth:
  "i < length qs \<Longrightarrow> words_of_quads qs ! (2 * i) = ucast (drop_bit 32 (qs ! i))"
  "i < length qs \<Longrightarrow> words_of_quads qs ! Suc (2 * i) = ucast (qs ! i)"
  by (simp_all add: words_of_quads_def)

lemma quad_set_of_words:
  assumes "even (length ws)"
  shows "quad_set (quads_of_words ws) = bm_set ws"
proof (rule set_eqI)
  fix b :: nat
  define q r where "q = b div 64" and "r = b mod 64"
  have r: "r < 64"
    by (simp add: r_def)
  note b32 = div_mod_32_64 [of b, folded q_def r_def]
  show "b \<in> quad_set (quads_of_words ws) \<longleftrightarrow> b \<in> bm_set ws"
    using assms
    by (cases "r < 32")
       (auto simp: quad_set_def in_bm_set q_def [symmetric] r_def [symmetric] b32 quads_of_words_def
         bit_word_cat_64 [OF r] elim!: evenE)
qed

lemma bm_set_of_quads: "bm_set (words_of_quads qs) = quad_set qs"
proof (rule set_eqI)
  fix b :: nat
  define q r where "q = b div 64" and "r = b mod 64"
  have r: "r < 64"
    by (simp add: r_def)
  note b32 = div_mod_32_64 [of b, folded q_def r_def]
  show "b \<in> bm_set (words_of_quads qs) \<longleftrightarrow> b \<in> quad_set qs"
  proof (cases "r < 32")
    case True
    then have "b div 32 = 2 * q" "b mod 32 = r"
      using b32 by simp_all
    then show ?thesis
      using bit_quad_halves(1) [OF r True, of "qs ! q"] words_of_quads_nth(1) [of q qs]
      by (auto simp: quad_set_def in_bm_set q_def [symmetric] r_def [symmetric])
  next
    case False
    then have "b div 32 = Suc (2 * q)" "31 - b mod 32 = 63 - r"
      using b32 by simp_all
    then show ?thesis
      using bit_quad_halves(2) [OF r False, of "qs ! q"] words_of_quads_nth(2) [of q qs]
      by (auto simp: quad_set_def in_bm_set q_def [symmetric] r_def [symmetric])
  qed
qed

lemma bit_masks:
  "j < 64 \<Longrightarrow> bit (RIGHT_MASK k) (63 - j) \<longleftrightarrow> k \<le> j"
  "j < 64 \<Longrightarrow> k \<le> 64 \<Longrightarrow> bit (LEFT_MASK k) (63 - j) \<longleftrightarrow> j < k"
  by (auto simp: RIGHT_MASK_def LEFT_MASK_def bit_simps)

lemma quad_blocks:
  assumes "\<And>j. j < 64 \<Longrightarrow> bit (q :: u64) (63 - j) \<longleftrightarrow> lo \<le> j \<and> j < hi" "lo \<le> hi" "hi \<le> 64"
  shows "{b. b div 64 = i \<and> bit q (63 - b mod 64)} = {64 * i + lo..<64 * i + hi}"
proof (rule set_eqI)
  fix b :: nat
  define d r where "d = b div 64" and "r = b mod 64"
  then have b: "b = 64 * d + r" "r < 64"
    by simp_all
  then have "b \<in> {b. b div 64 = i \<and> bit q (63 - b mod 64)} \<longleftrightarrow> d = i \<and> lo \<le> r \<and> r < hi"
    using assms(1) by (simp add: d_def [symmetric] r_def [symmetric])
  also have "\<dots> \<longleftrightarrow> b \<in> {64 * i + lo..<64 * i + hi}"
    using b assms(2,3) by (cases d i rule: linorder_cases) auto
  finally show "b \<in> {b. b div 64 = i \<and> bit q (63 - b mod 64)} \<longleftrightarrow> b \<in> {64 * i + lo..<64 * i + hi}" .
qed

lemma quad_set_fill:
  assumes "p < length qs"
  shows "quad_set (qs[p := - 1]) = quad_set qs \<union> {64 * p..<64 * p + 64}"
proof -
  have "{b. b div 64 = p \<and> bit (- 1 :: u64) (63 - b mod 64)} = {64 * p + 0..<64 * p + 64}"
    by (rule quad_blocks) auto
  moreover have "{b. b div 64 = p \<and> bit (- 1 :: u64) (63 - b mod 64)} = {b. b div 64 = p}"
    by auto
  ultimately have "{b. b div 64 = p} = {64 * p..<64 * p + 64}"
    "{b. b div 64 = p \<and> bit (- 1 :: u64) (63 - b mod 64)} = {64 * p..<64 * p + 64}"
    by simp_all
  then show ?thesis
    using quad_set_update [OF assms, of "- 1"] by simp
qed

lemma bits_set_quads_spec:
  "p + n \<le> length qs \<Longrightarrow> quad_set (bits_set_quads n p qs) = quad_set qs \<union> {64 * p..<64 * (p + n)} \<and>
   length (bits_set_quads n p qs) = length qs"
proof (induction n p qs rule: bits_set_quads.induct)
  case (1 p qs)
  then show ?case by simp
next
  case (2 n p qs)
  have "{64 * p..<64 * p + 64} \<union> {64 * (p + 1)..<64 * (p + 1 + n)} = {64 * p..<64 * (p + Suc n)}"
    by auto
  then show ?case
    using 2 quad_set_fill [of p qs] by (simp add: Un_assoc)
qed

lemma bits_set_same_quad:
  assumes "s < e" "e \<le> 64 * length qs" "s div 64 = e div 64"
  shows "quad_set (bits_set qs s e) = quad_set qs \<union> {s..<e} \<and> length (bits_set qs s e) = length qs"
proof -
  define a sb eb where "a = s div 64" and "sb = s mod 64" and "eb = e mod 64"
  have s: "s = 64 * a + sb" "sb < 64"
    by (simp_all add: a_def sb_def)
  have e: "e = 64 * a + eb" "eb < 64"
    using assms(3) by (simp_all add: a_def eb_def)
  have "sb \<le> eb" "a < length qs"
    using assms(1,2) s e by linarith+
  have "{b. b div 64 = a \<and> bit (and (RIGHT_MASK sb) (LEFT_MASK eb)) (63 - b mod 64)} =
      {64 * a + sb..<64 * a + eb}"
    using \<open>sb \<le> eb\<close> e(2) by (intro quad_blocks) (simp_all add: bit_and_iff bit_masks)
  then have "quad_set (qs[a := or (qs ! a) (and (RIGHT_MASK sb) (LEFT_MASK eb))]) = quad_set qs \<union> {s..<e}"
    by (simp add: quad_set_or \<open>a < length qs\<close> s(1) e(1))
  moreover have "bits_set qs s e = qs[a := or (qs ! a) (and (RIGHT_MASK sb) (LEFT_MASK eb))]"
    using assms(3) by (simp add: bits_set_def Let_def a_def sb_def eb_def)
  ultimately show ?thesis
    by simp
qed

lemma bits_set_quad_count:
  fixes a c sb :: nat
  assumes "a < c" "sb < 64"
  shows "(64 * c - (64 * a + sb) - 1) div 64 = c - a - 1"
proof -
  obtain d where d: "c = a + d + 1"
    using assms(1) less_iff_Suc_add by auto
  have "64 * c - (64 * a + sb) - 1 = 64 * d + (63 - sb)"
    using assms(2) by (simp add: d)
  then show ?thesis
    by (simp add: d)
qed

lemma bits_set_more_quads:
  assumes "s < e" "e \<le> 64 * length qs" "s div 64 \<noteq> e div 64"
  shows "quad_set (bits_set qs s e) = quad_set qs \<union> {s..<e} \<and> length (bits_set qs s e) = length qs"
proof -
  define a sb c eb where "a = s div 64" and "sb = s mod 64" and "c = e div 64" and "eb = e mod 64"
  have s: "s = 64 * a + sb" "sb < 64" and e: "e = 64 * c + eb" "eb < 64"
    by (simp_all add: a_def sb_def c_def eb_def)
  have ac: "a < c"
    using assms(1,3) div_le_mono [of s e 64] by (simp add: a_def c_def)
  then have a: "a < length qs" and c: "c \<le> length qs" "eb \<noteq> 0 \<Longrightarrow> c < length qs"
    using assms(2) e by linarith+
  define q1 where "q1 = qs[a := or (qs ! a) (RIGHT_MASK sb)]"
  define q2 where "q2 = bits_set_quads (c - a - 1) (a + 1) q1"
  have "{b. b div 64 = a \<and> bit (RIGHT_MASK sb) (63 - b mod 64)} = {64 * a + sb..<64 * a + 64}"
    using s(2) by (intro quad_blocks) (simp_all add: bit_masks)
  then have q1: "quad_set q1 = quad_set qs \<union> {64 * a + sb..<64 * a + 64}" "length q1 = length qs"
    using a by (simp_all add: q1_def quad_set_or)
  have q2: "quad_set q2 = quad_set q1 \<union> {64 * (a + 1)..<64 * c}" "length q2 = length qs"
    using bits_set_quads_spec [of "a + 1" "c - a - 1" q1] ac c(1) q1(2) by (simp_all add: q2_def)
  have "{b. b div 64 = c \<and> bit (LEFT_MASK eb) (63 - b mod 64)} = {64 * c + 0..<64 * c + eb}"
    using e(2) by (intro quad_blocks) (simp_all add: bit_masks)
  then have q3: "quad_set (q2[c := or (q2 ! c) (LEFT_MASK eb)]) = quad_set q2 \<union> {64 * c..<64 * c + eb}" if "eb \<noteq> 0"
    using c(2) [OF that] q2(2) by (simp add: quad_set_or)
  have n: "(e - eb - s - 1) div 64 = c - a - 1"
    using bits_set_quad_count [OF ac s(2)] s(1) e(1) by simp
  have "bits_set qs s e = (if eb \<noteq> 0 then q2[c := or (q2 ! c) (LEFT_MASK eb)] else q2)"
  proof -
    have "a + 1 + (c - a - 1) = c" "a \<noteq> c"
      using ac by simp_all
    then show ?thesis
      unfolding bits_set_def Let_def a_def [symmetric] sb_def [symmetric] c_def [symmetric] eb_def [symmetric]
        n q1_def [symmetric] q2_def [symmetric]
      by (simp only: if_False)
  qed
  moreover have "{s..<e} = {64 * a + sb..<64 * a + 64} \<union> {64 * (a + 1)..<64 * c} \<union> {64 * c..<64 * c + eb}"
    using ac s e by auto
  ultimately show ?thesis
    using q1 q2 q3 by (cases "eb = 0") (simp_all add: Un_assoc)
qed

lemma bits_set_spec:
  "s < e \<Longrightarrow> e \<le> 64 * length qs \<Longrightarrow>
   quad_set (bits_set qs s e) = quad_set qs \<union> {s..<e} \<and> length (bits_set qs s e) = length qs"
  using bits_set_same_quad bits_set_more_quads by blast

definition entry_blocks :: "rl_entry list \<Rightarrow> nat set" where
  "entry_blocks es = {b. \<exists>e\<in>set es. rl_start e \<le> int b \<and> int b \<le> rl_end e}"

definition entries_ok :: "rl_entry list \<Rightarrow> bool" where
  "entries_ok es \<longleftrightarrow> (\<forall>e\<in>set es. 0 \<le> rl_start e \<and> rl_start e \<le> rl_end e)"

lemma quad_set_full: "quad_set (replicate n (- 1)) = {..<64 * n}"
  by (auto simp: quad_set_def div_less_iff_less_mult mult.commute)

lemma quad_set_bound: "quad_set qs \<subseteq> {..<64 * length qs}"
  by (auto simp: quad_set_def div_less_iff_less_mult mult.commute)

text \<open>One entry that overlaps a buffer without covering it.\<close>

lemma process_entry_part:
  assumes "0 \<le> lo" "lo \<le> hi" "hi < 64 * int (length qs)"
    "\<And>b. b < 64 * length qs \<Longrightarrow> lo \<le> int b \<and> int b \<le> hi \<longleftrightarrow> x \<le> int (o' + b) \<and> int (o' + b) \<le> y"
  shows "quad_set (bits_set qs (nat lo) (nat hi + 1)) =
      quad_set qs \<union> {b. b < 64 * length qs \<and> x \<le> int (o' + b) \<and> int (o' + b) \<le> y}"
    and "length (bits_set qs (nat lo) (nat hi + 1)) = length qs"
proof -
  have "{nat lo..<nat hi + 1} = {b. b < 64 * length qs \<and> lo \<le> int b \<and> int b \<le> hi}"
    using assms(1-3) by auto
  also have "\<dots> = {b. b < 64 * length qs \<and> x \<le> int (o' + b) \<and> int (o' + b) \<le> y}"
    using assms(4) by auto
  finally show "quad_set (bits_set qs (nat lo) (nat hi + 1)) =
      quad_set qs \<union> {b. b < 64 * length qs \<and> x \<le> int (o' + b) \<and> int (o' + b) \<le> y}"
    "length (bits_set qs (nat lo) (nat hi + 1)) = length qs"
    using bits_set_spec [of "nat lo" "nat hi + 1" qs] assms(1-3) by auto
qed

definition process_result :: "nat \<Rightarrow> rl_entry list \<Rightarrow> u64 list \<Rightarrow> bool \<times> u64 list \<Rightarrow> bool" where
  "process_result o' es qs r \<longleftrightarrow>
     length (snd r) = length qs \<and>
     quad_set (snd r) = quad_set qs \<union> {b. b < 64 * length qs \<and> o' + b \<in> entry_blocks es} \<and>
     (fst r \<longrightarrow> quad_set (snd r) = {..<64 * length qs})"

lemma process_result_step:
  assumes "process_result o' es qs1 r" "length qs1 = length qs"
    "quad_set qs1 = quad_set qs \<union> {b. b < 64 * length qs \<and> rl_start e \<le> int (o' + b) \<and> int (o' + b) \<le> rl_end e}"
  shows "process_result o' (e # es) qs r"
  using assms by (auto simp: process_result_def entry_blocks_def)

lemma process_entries_result:
  assumes "entries_ok es" "0 < length qs"
  shows "process_result o' es qs
    (process_entries (int o') (int o' + 64 * int (length qs) - 1) es qs)"
  using assms
proof (induction es arbitrary: qs)
  case Nil
  then show ?case
    using quad_set_bound [of qs] by (simp add: process_result_def entry_blocks_def)
next
  case (Cons e es)
  let ?last = "int o' + 64 * int (length qs) - 1"
  have e: "0 \<le> rl_start e" "rl_start e \<le> rl_end e" and es: "entries_ok es"
    using Cons.prems(1) by (auto simp: entries_ok_def)
  have full: "process_result o' (e # es) qs (True, replicate (length qs) (- 1))"
    if "rl_start e \<le> int o'" "?last \<le> rl_end e"
    using that quad_set_bound [of qs]
    by (auto simp: process_result_def quad_set_full entry_blocks_def intro!: bexI [of _ e])
  have part: "process_result o' (e # es) qs
      (process_entries (int o') ?last es (bits_set qs (nat lo) (nat hi + 1)))"
    if "0 \<le> lo" "lo \<le> hi" "hi < 64 * int (length qs)"
      "\<And>b. b < 64 * length qs \<Longrightarrow> lo \<le> int b \<and> int b \<le> hi \<longleftrightarrow> rl_start e \<le> int (o' + b) \<and> int (o' + b) \<le> rl_end e"
      for lo hi
  proof -
    note p = process_entry_part [OF that]
    have "0 < length (bits_set qs (nat lo) (nat hi + 1))"
      using p(2) Cons.prems(2) by simp
    from Cons.IH [OF es this] have "process_result o' es (bits_set qs (nat lo) (nat hi + 1))
        (process_entries (int o') ?last es (bits_set qs (nat lo) (nat hi + 1)))"
      by (simp only: p(2))
    then show ?thesis
      by (rule process_result_step [OF _ p(2,1)])
  qed
  have no: "process_result o' (e # es) qs (process_entries (int o') ?last es qs)"
    if "rl_overlap e (int o') ?last = RL_NOOVERLAP"
  proof (rule process_result_step [OF _ refl])
    show "process_result o' es qs (process_entries (int o') ?last es qs)"
      using Cons.IH [OF es Cons.prems(2)] .
    show "quad_set qs = quad_set qs \<union> {b. b < 64 * length qs \<and> rl_start e \<le> int (o' + b) \<and> int (o' + b) \<le> rl_end e}"
      using that by (auto simp: rl_overlap_def split: if_splits)
  qed
  show ?case
  proof (cases "rl_overlap e (int o') ?last")
    case RL_NOOVERLAP
    with no show ?thesis by simp
  next
    case RL_MATCHINGOVERLAP
    with full show ?thesis by (simp add: rl_overlap_def split: if_splits)
  next
    case RL_OVERLAPCONTAINSRANGE
    with full show ?thesis by (simp add: rl_overlap_def split: if_splits)
  next
    case RL_OVERLAPISCONTAINED
    then have "int o' \<le> rl_start e" "rl_end e \<le> ?last"
      by (auto simp: rl_overlap_def split: if_splits)
    then have "process_result o' (e # es) qs (process_entries (int o') ?last es
        (bits_set qs (nat (rl_start e - int o')) (nat (rl_end e - int o') + 1)))"
      using e by (intro part) auto
    with RL_OVERLAPISCONTAINED show ?thesis by simp
  next
    case RL_OVERLAPSTARTSBEFORE
    then have "rl_start e < int o'" "int o' \<le> rl_end e" "rl_end e < ?last"
      by (auto simp: rl_overlap_def split: if_splits)
    then have "process_result o' (e # es) qs (process_entries (int o') ?last es
        (bits_set qs (nat 0) (nat (rl_end e - int o') + 1)))"
      using e by (intro part) auto
    with RL_OVERLAPSTARTSBEFORE show ?thesis by simp
  next
    case RL_OVERLAPENDSAFTER
    then have "int o' \<le> rl_start e" "rl_start e \<le> ?last" "?last \<le> rl_end e"
      by (auto simp: rl_overlap_def split: if_splits)
    then have "process_result o' (e # es) qs (process_entries (int o') ?last es
        (bits_set qs (nat (rl_start e - int o')) (nat (?last - int o') + 1)))"
      using e by (intro part) auto
    with RL_OVERLAPENDSAFTER show ?thesis by simp
  qed
qed

definition reserved_blocks :: "hfsmount \<Rightarrow> u32 \<Rightarrow> nat set" where
  "reserved_blocks m flags =
     (if ISSET flags HFS_ALLOC_IGNORE_RESERVED then {}
      else entry_blocks (hfs_reserved_ranges m HFS_LOCKED_BLOCKS) \<union>
        (if ISSET flags HFS_ALLOC_IGNORE_TENTATIVE then {}
         else entry_blocks (hfs_reserved_ranges m HFS_TENTATIVE_BLOCKS)))"

definition reservations_ok :: "hfsmount \<Rightarrow> bool" where
  "reservations_ok m \<longleftrightarrow> entries_ok (hfs_reserved_ranges m HFS_TENTATIVE_BLOCKS) \<and>
     entries_ok (hfs_reserved_ranges m HFS_LOCKED_BLOCKS)"

text \<open>The blocks that a reader with the given flags sees as in use.\<close>

definition taken_blocks :: "hfsmount \<Rightarrow> u32 \<Rightarrow> nat set" where
  "taken_blocks m flags = bm_set (vcbBitmap m) \<union> reserved_blocks m flags"

lemma process_reservations_spec:
  assumes "reservations_ok m" "even (length buffer)" "buffer \<noteq> []" "\<not> ISSET flags HFS_ALLOC_IGNORE_RESERVED"
  shows "length (process_reservations m buffer offset flags) = length buffer"
    "bm_set (process_reservations m buffer offset flags) =
     bm_set buffer \<union> {b. b < 32 * length buffer \<and> offset + b \<in> reserved_blocks m flags}"
proof -
  let ?q = "quads_of_words buffer"
  let ?tent = "hfs_reserved_ranges m HFS_TENTATIVE_BLOCKS" and ?lock = "hfs_reserved_ranges m HFS_LOCKED_BLOCKS"
  have len: "64 * length ?q = 32 * length buffer" "0 < length ?q"
    using assms(2,3) by (auto elim!: evenE simp flip: length_greater_0_conv)
  have last: "int offset + int (4 * length buffer) * 8 - 1 = int offset + 64 * int (length ?q) - 1"
    using len(1) by simp
  note step = process_entries_result [OF _ len(2)]
  define full q1 where fq: "full = fst (if ISSET flags HFS_ALLOC_IGNORE_TENTATIVE then (False, ?q)
      else process_entries (int offset) (int offset + 64 * int (length ?q) - 1) ?tent ?q)"
    "q1 = snd (if ISSET flags HFS_ALLOC_IGNORE_TENTATIVE then (False, ?q)
      else process_entries (int offset) (int offset + 64 * int (length ?q) - 1) ?tent ?q)"
  define es where "es = (if ISSET flags HFS_ALLOC_IGNORE_TENTATIVE then [] else ?tent)"
  have r1: "process_result offset es ?q (full, q1)"
    using step [of ?tent offset] assms(1) quad_set_bound [of ?q]
    by (auto simp: fq es_def reservations_ok_def process_result_def entry_blocks_def)
  then have q1: "length q1 = length ?q" "0 < length q1"
    using len(2) by (auto simp: process_result_def)
  define q2 where "q2 = snd (if full then (True, q1)
      else process_entries (int offset) (int offset + 64 * int (length q1) - 1) ?lock q1)"
  have "length q2 = length ?q \<and> quad_set q2 = quad_set q1 \<union> {b. b < 64 * length ?q \<and> offset + b \<in> entry_blocks ?lock}"
    using process_entries_result [OF _ q1(2), of ?lock offset] assms(1) r1 q1(1)
    by (auto simp: q2_def process_result_def reservations_ok_def)
  moreover have "quad_set q1 = bm_set buffer \<union> {b. b < 64 * length ?q \<and> offset + b \<in> entry_blocks es}"
    using r1 quad_set_of_words [OF assms(2)] by (auto simp: process_result_def)
  moreover have "process_reservations m buffer offset flags = words_of_quads q2"
    unfolding process_reservations_def Let_def last q2_def
    by (simp add: fq [symmetric] split_def q1(1) del: of_nat_mult)
  ultimately show "length (process_reservations m buffer offset flags) = length buffer"
    "bm_set (process_reservations m buffer offset flags) =
     bm_set buffer \<union> {b. b < 32 * length buffer \<and> offset + b \<in> reserved_blocks m flags}"
    using len(1) assms(4) by (auto simp: bm_set_of_quads reserved_blocks_def es_def entry_blocks_def)
qed

section \<open>Well-formed bitmaps\<close>

text \<open>
  The I/O size is a power of two (the sources compute remainders with a mask) of at least eight
  bytes, the bitmap file is a whole number of pieces and has a bit for every block.
\<close>

definition bitmap_ok :: "hfsmount \<Rightarrow> bool" where
  "bitmap_ok m \<longleftrightarrow> (\<exists>k\<ge>3. vcbVBMIOSize m = 2 ^ k) \<and> vcbVBMIOSize m * 8 < 4294967296 \<and>
     words_per_block m dvd length (vcbBitmap m) \<and> totalBlocks m \<le> 32 * length (vcbBitmap m) \<and>
     32 * length (vcbBitmap m) \<le> 4294967296"

lemma bitmap_okD:
  assumes "bitmap_ok m"
  shows "bits_per_block m = 32 * words_per_block m" "0 < words_per_block m" "even (words_per_block m)"
    "vcbVBMIOSize m * 8 = 32 * words_per_block m" "words_per_block m dvd length (vcbBitmap m)"
    "and b (bits_per_block m - 1) = b mod (32 * words_per_block m)"
    "and b (words_per_block m - 1) = b mod words_per_block m"
proof -
  obtain k where "k \<ge> 3" "vcbVBMIOSize m = 2 ^ k"
    using assms by (auto simp: bitmap_ok_def)
  moreover then obtain j where "k = j + 3"
    using le_Suc_ex by (metis add.commute)
  ultimately have w: "vcbVBMIOSize m = 8 * 2 ^ j"
    by (simp add: power_add)
  then have wpb: "words_per_block m = 2 ^ (j + 1)" and bpb: "32 * words_per_block m = 2 ^ (j + 6)"
    by (simp_all add: power_add)
  show bits: "bits_per_block m = 32 * words_per_block m"
    using assms w by (simp add: bitmap_ok_def mul32_eq)
  show "0 < words_per_block m" "even (words_per_block m)" "vcbVBMIOSize m * 8 = 32 * words_per_block m"
    "words_per_block m dvd length (vcbBitmap m)"
    using w assms by (simp_all add: bitmap_ok_def)
  show "and b (bits_per_block m - 1) = b mod (32 * words_per_block m)"
    by (simp only: bits bpb mask_eq_exp_minus_1 [symmetric] take_bit_eq_mask [symmetric] take_bit_eq_mod)
  show "and b (words_per_block m - 1) = b mod words_per_block m"
    by (simp only: wpb mask_eq_exp_minus_1 [symmetric] take_bit_eq_mask [symmetric] take_bit_eq_mod)
qed

text \<open>A piece of the bitmap.\<close>

definition bm_piece :: "hfsmount \<Rightarrow> nat \<Rightarrow> u32 list" where
  "bm_piece m block = take (words_per_block m) (drop (block * words_per_block m) (vcbBitmap m))"

lemma bm_piece_fits:
  assumes "bitmap_ok m" "b < 32 * length (vcbBitmap m)"
  shows "Suc (b div (32 * words_per_block m)) * words_per_block m \<le> length (vcbBitmap m)"
proof -
  let ?w = "words_per_block m"
  obtain n where n: "length (vcbBitmap m) = n * ?w"
    using bitmap_okD(5) [OF assms(1)] by (metis dvdE mult.commute)
  have "b div (32 * ?w) < n"
    using assms(2) n by (simp add: less_mult_imp_div_less mult.assoc mult.left_commute)
  then have "Suc (b div (32 * ?w)) * ?w \<le> n * ?w"
    by (intro mult_le_mono1) simp
  then show ?thesis
    using n by simp
qed

lemma bm_set_piece:
  assumes "Suc block * words_per_block m \<le> length (vcbBitmap m)" "b < 32 * words_per_block m"
  shows "b \<in> bm_set (bm_piece m block) \<longleftrightarrow> block * (32 * words_per_block m) + b \<in> bm_set (vcbBitmap m)"
proof -
  let ?w = "words_per_block m"
  have b: "b div 32 < ?w"
    using assms(2) by (simp add: div_less_iff_less_mult mult.commute)
  have eq: "block * (32 * ?w) + b = 32 * (block * ?w) + b"
    by simp
  have d: "(block * (32 * ?w) + b) div 32 = block * ?w + b div 32" and m: "(block * (32 * ?w) + b) mod 32 = b mod 32"
    unfolding eq by (rule div_mult_self4, simp) (rule mod_mult_self4)
  have "block * ?w + b div 32 < length (vcbBitmap m)"
    using assms(1) b by simp
  moreover from this have "b div 32 < length (vcbBitmap m) - block * ?w"
    by linarith
  ultimately show ?thesis
    using b by (simp add: in_bm_set d m bm_piece_def)
qed

lemma length_bm_piece:
  "Suc block * words_per_block m \<le> length (vcbBitmap m) \<Longrightarrow> length (bm_piece m block) = words_per_block m"
  by (simp add: bm_piece_def)

lemma ReadBitmapBlock_spec:
  assumes "bitmap_ok m" "reservations_ok m" "abit < 32 * length (vcbBitmap m)"
    "ReadBitmapBlock bread m abit flags = Inr (block, buffer)"
  shows "block = abit div (32 * words_per_block m)" "length buffer = words_per_block m"
    "Suc block * words_per_block m \<le> length (vcbBitmap m)"
    "\<And>b. b < 32 * words_per_block m \<Longrightarrow>
       b \<in> bm_set buffer \<longleftrightarrow> block * (32 * words_per_block m) + b \<in> taken_blocks m flags"
proof -
  let ?w = "words_per_block m"
  note ok = bitmap_okD [OF assms(1)]
  show blk: "block = abit div (32 * ?w)"
    using assms(4) ok(1) by (auto simp: ReadBitmapBlock_def Let_def split: hfs_err.splits)
  show fits: "Suc block * ?w \<le> length (vcbBitmap m)"
    using bm_piece_fits [OF assms(1,3)] by (simp add: blk)
  have buf: "buffer = (if ISSET flags HFS_ALLOC_IGNORE_RESERVED then bm_piece m block
      else process_reservations m (bm_piece m block) (block * (32 * ?w)) flags)"
    using assms(4) unfolding ReadBitmapBlock_def Let_def ok(1) mult.assoc ok(4) bm_piece_def
    by (auto split: hfs_err.splits)
  note len = length_bm_piece [OF fits]
  then have ne: "even (length (bm_piece m block))" "bm_piece m block \<noteq> []"
    using ok(2,3) by auto
  show "length buffer = ?w"
    using len process_reservations_spec(1) [OF assms(2) ne, of flags] by (simp add: buf)
  show "b \<in> bm_set buffer \<longleftrightarrow> block * (32 * ?w) + b \<in> taken_blocks m flags" if "b < 32 * ?w" for b
    using bm_set_piece [OF fits that] process_reservations_spec(2) [OF assms(2) ne, of flags] len that
    by (auto simp: buf taken_blocks_def reserved_blocks_def)
qed

end
