(* ===== verification/Bitmap_Mark.thy ===== *)
theory Bitmap_Mark
  imports Volume_Bitmap
begin

text \<open>
  Marking runs of blocks in the volume bitmap, \<open>BlockMarkAllocatedInternal\<close> and
  \<open>BlockMarkFreeInternal\<close> of \<^verbatim>\<open>core/VolumeAllocation.c\<close>.  Both walk the bitmap a word at a time
  with a cursor: the piece that is in the buffer, the buffer, the index of the current word and the
  number of words left.  The journal's transaction brackets and its flush request have no effect on
  this state; the extents handed to the journal's trim list are recorded in \<open>jnl_trims\<close>.
\<close>

section \<open>Cursors\<close>

record bitmap_cursor =
  blockRef :: nat
  buffer :: "u32 list"
  currentWord :: nat
  wordsLeft :: nat

definition cursor_at :: "hfsmount \<Rightarrow> nat \<Rightarrow> nat \<Rightarrow> u32 list \<Rightarrow> bitmap_cursor" where
  "cursor_at m start ref buf =
     (let wordIndexInBlock = and start (bits_per_block m - 1) div 32
      in \<lparr>blockRef = ref, buffer = buf, currentWord = wordIndexInBlock,
          wordsLeft = words_per_block m - wordIndexInBlock\<rparr>)"

text \<open>
  Before each word: when the piece is used up, release it and read the next one; a read error ends
  the routine with that error.
\<close>

definition next_bitmap_word ::
  "(nat \<Rightarrow> hfs_err) \<Rightarrow> u32 \<Rightarrow> bool \<Rightarrow> nat \<Rightarrow> bitmap_cursor \<Rightarrow> hfsmount \<Rightarrow>
   hfs_err \<times> hfsmount + nat \<times> bitmap_cursor \<times> hfsmount" where
  "next_bitmap_word bread flags dirty start cur m =
     (if wordsLeft cur = 0 then
        let start' = add32 start (bits_per_block m);
            m' = ReleaseBitmapBlock m (blockRef cur) (buffer cur) dirty
        in case ReadBitmapBlock bread m' start' flags of
             Inl err \<Rightarrow> Inl (err, m')
           | Inr (ref, buf) \<Rightarrow>
               Inr (start', \<lparr>blockRef = ref, buffer = buf, currentWord = 0,
                             wordsLeft = words_per_block m\<rparr>, m')
      else Inr (start, cur, m))"

text \<open>The mask of a first word that does not start on a word boundary, and the number of its bits.\<close>

definition first_word_mask :: "nat \<Rightarrow> nat \<Rightarrow> u32 \<times> nat" where
  "first_word_mask firstBit numBlocks =
     (let bitMask = drop_bit firstBit kAllBitsSetInWord;
          numBits = 32 - firstBit
      in if numBits > numBlocks
         then (and bitMask (not (drop_bit (firstBit + numBlocks) kAllBitsSetInWord)), numBlocks)
         else (bitMask, numBits))"

definition store_word :: "bitmap_cursor \<Rightarrow> u32 \<Rightarrow> bitmap_cursor" where
  "store_word cur w = cur\<lparr>buffer := (buffer cur)[currentWord cur := w]\<rparr>"

definition step_word :: "bitmap_cursor \<Rightarrow> bitmap_cursor" where
  "step_word cur = cur\<lparr>currentWord := currentWord cur + 1, wordsLeft := wordsLeft cur - 1\<rparr>"

abbreviation load_word :: "bitmap_cursor \<Rightarrow> u32" where
  "load_word cur \<equiv> buffer cur ! currentWord cur"

section \<open>Trim requests\<close>

definition hfs_unmap_free_extent :: "hfsmount \<Rightarrow> nat \<Rightarrow> nat \<Rightarrow> hfsmount" where
  "hfs_unmap_free_extent m start num =
     (if jnl m then
        let offset = start * blockSize m + hfsPlusIOPosOffset m;
            len = num * blockSize m
        in if offset \<ge> hfs_logical_bytes m \<or> offset + len > hfs_logical_bytes m then m
           else m\<lparr>jnl_trims := Trim_add offset len # jnl_trims m\<rparr>
      else m)"

definition hfs_unmap_alloc_extent :: "hfsmount \<Rightarrow> nat \<Rightarrow> nat \<Rightarrow> hfsmount" where
  "hfs_unmap_alloc_extent m start num =
     (if jnl m then
        m\<lparr>jnl_trims := Trim_remove (start * blockSize m + hfsPlusIOPosOffset m)
                          (num * blockSize m) # jnl_trims m\<rparr>
      else m)"

section \<open>Marking blocks allocated\<close>

definition mark_alloc_first :: "nat \<Rightarrow> nat \<Rightarrow> bitmap_cursor \<Rightarrow> nat \<times> bitmap_cursor" where
  "mark_alloc_first firstBit num cur =
     (if firstBit \<noteq> 0 then
        let (bitMask, numBits) = first_word_mask firstBit num
        in (num - numBits, step_word (store_word cur (or (load_word cur) bitMask)))
      else (num, cur))"

function mark_alloc_words ::
  "(nat \<Rightarrow> hfs_err) \<Rightarrow> nat \<Rightarrow> nat \<Rightarrow> bitmap_cursor \<Rightarrow> hfsmount \<Rightarrow>
   hfs_err \<times> hfsmount + nat \<times> nat \<times> bitmap_cursor \<times> hfsmount" where
  "mark_alloc_words bread start num cur m =
     (if num \<ge> 32 then
        case next_bitmap_word bread HFS_ALLOC_IGNORE_RESERVED True start cur m of
          Inl r \<Rightarrow> Inl r
        | Inr (start', cur', m') \<Rightarrow>
            mark_alloc_words bread start' (num - 32)
              (step_word (store_word cur' kAllBitsSetInWord)) m'
      else Inr (start, num, cur, m))"
  by pat_completeness auto
termination
  by (relation "measure (\<lambda>(bread, start, num, cur, m). num)") auto

declare mark_alloc_words.simps [simp del]

definition mark_alloc_rest ::
  "(nat \<Rightarrow> hfs_err) \<Rightarrow> nat \<Rightarrow> nat \<Rightarrow> bitmap_cursor \<Rightarrow> hfsmount \<Rightarrow> hfs_err \<times> hfsmount" where
  "mark_alloc_rest bread start num cur m =
     (if num \<noteq> 0 then
        let bitMask = not (drop_bit num kAllBitsSetInWord)
        in case next_bitmap_word bread HFS_ALLOC_IGNORE_RESERVED True start cur m of
             Inl r \<Rightarrow> r
           | Inr (start', cur', m') \<Rightarrow>
               let cur'' = store_word cur' (or (load_word cur') bitMask)
               in (noErr, ReleaseBitmapBlock m' (blockRef cur'') (buffer cur'') True)
      else (noErr, ReleaseBitmapBlock m (blockRef cur) (buffer cur) True))"

definition BlockMarkAllocatedInternal ::
  "(nat \<Rightarrow> hfs_err) \<Rightarrow> hfsmount \<Rightarrow> nat \<Rightarrow> nat \<Rightarrow> u32 \<Rightarrow> hfs_err \<times> hfsmount" where
  "BlockMarkAllocatedInternal bread m start num flags =
     (let m1 = hfs_unmap_alloc_extent m start num
      in if ISSET flags (or HFS_ALLOC_LOCKED HFS_ALLOC_TENTATIVE) then (noErr, m1)
         else
           case ReadBitmapBlock bread m1 start HFS_ALLOC_IGNORE_RESERVED of
             Inl err \<Rightarrow> (err, m1)
           | Inr (ref, buf) \<Rightarrow>
               let (num1, cur1) = mark_alloc_first (start mod 32) num (cursor_at m1 start ref buf)
               in case mark_alloc_words bread start num1 cur1 m1 of
                    Inl r \<Rightarrow> r
                  | Inr (start2, num2, cur2, m2) \<Rightarrow> mark_alloc_rest bread start2 num2 cur2 m2)"

definition BlockMarkAllocated ::
  "(nat \<Rightarrow> hfs_err) \<Rightarrow> hfsmount \<Rightarrow> nat \<Rightarrow> nat \<Rightarrow> hfs_err \<times> hfsmount" where
  "BlockMarkAllocated bread m start num = BlockMarkAllocatedInternal bread m start num 0"

section \<open>Marking blocks free\<close>

text \<open>
  The bounds of the range that may be trimmed along with the freed run: no block of a reservation
  before or after the run.
\<close>

fun unmap_bounds :: "nat \<Rightarrow> nat \<Rightarrow> rl_entry list \<Rightarrow> nat \<times> nat \<Rightarrow> nat \<times> nat" where
  "unmap_bounds start num [] (min_unmap, max_unmap) = (min_unmap, max_unmap)"
| "unmap_bounds start num (rng # rngs) (min_unmap, max_unmap) =
     unmap_bounds start num rngs
       (if rl_start rng < int start \<and> rl_end rng \<ge> int min_unmap then nat (rl_end rng + 1)
        else min_unmap,
        if rl_end rng \<ge> int (add32 start num) \<and> rl_start rng < int max_unmap then nat (rl_start rng)
        else max_unmap)"

text \<open>The search for free blocks before the run, within the buffer.\<close>

function unmap_backward :: "u32 list \<Rightarrow> nat \<Rightarrow> nat \<Rightarrow> u32 \<Rightarrow> nat \<Rightarrow> nat \<Rightarrow> nat \<times> nat" where
  "unmap_backward buf min_unmap word bitMask unmapStart unmapCount =
     (if unmapStart > min_unmap then
        let bitMask1 = push_bit 1 bitMask
        in if bitMask1 = 0 \<and> word = 0 then (unmapStart, unmapCount)
           else
             let word' = (if bitMask1 = 0 then word - 1 else word);
                 bitMask' = (if bitMask1 = 0 then kLowBitInWordMask else bitMask1)
             in if and (buf ! word') bitMask' \<noteq> 0 then (unmapStart, unmapCount)
                else unmap_backward buf min_unmap word' bitMask' (unmapStart - 1) (unmapCount + 1)
      else (unmapStart, unmapCount))"
  by pat_completeness auto
termination
  by (relation "measure (\<lambda>(buf, min_unmap, word, bitMask, unmapStart, unmapCount). unmapStart)") auto

text \<open>
  The search for free blocks after the run, up to the end of the buffer; \<open>left\<close> is the number of
  words from the current one to the end, at least one.
\<close>

function unmap_forward ::
  "u32 list \<Rightarrow> nat \<Rightarrow> nat \<Rightarrow> nat \<Rightarrow> u32 \<Rightarrow> nat \<Rightarrow> nat \<Rightarrow> nat" where
  "unmap_forward buf max_unmap word left bitMask unmapStart unmapCount =
     (if add32 unmapStart unmapCount < max_unmap then
        let bitMask1 = drop_bit 1 bitMask
        in if bitMask1 = 0 then
             if left \<le> 1 then unmapCount
             else if and (buf ! (word + 1)) kHighBitInWordMask \<noteq> 0 then unmapCount
             else unmap_forward buf max_unmap (word + 1) (left - 1) kHighBitInWordMask unmapStart
                    (unmapCount + 1)
           else if and (buf ! word) bitMask1 \<noteq> 0 then unmapCount
           else unmap_forward buf max_unmap word left bitMask1 unmapStart (unmapCount + 1)
      else unmapCount)"
  by pat_completeness auto
termination
proof (relation "measures [\<lambda>(buf, max_unmap, word, left, bitMask, s, c). left,
    \<lambda>(buf, max_unmap, word, left, bitMask, s, c). unat bitMask]", goal_cases)
  case (3 buf max_unmap word left bitMask s c x)
  then have "bitMask \<noteq> 0"
    by (auto simp: drop_bit_eq_div)
  then have "unat (drop_bit 1 bitMask) < unat bitMask"
    by (simp add: drop_bit_eq_div unat_div unat_gt_0)
  with 3 show ?case
    by simp
qed auto

declare unmap_backward.simps [simp del] unmap_forward.simps [simp del]

definition mark_free_first ::
  "bool \<Rightarrow> nat \<Rightarrow> nat \<Rightarrow> bitmap_cursor \<Rightarrow> hfsmount \<Rightarrow> hfs_err \<times> hfsmount + nat \<times> bitmap_cursor" where
  "mark_free_first do_validate currentBit num cur m =
     (if currentBit \<noteq> 0 then
        let (bitMask, numBits) = first_word_mask currentBit num
        in if do_validate \<and> and (load_word cur) bitMask \<noteq> bitMask
           then Inl (EIO, ReleaseBitmapBlock (hfs_mark_inconsistent m) (blockRef cur) (buffer cur) True)
           else Inr (num - numBits, step_word (store_word cur (and (load_word cur) (not bitMask))))
      else Inr (num, cur))"

function mark_free_words ::
  "(nat \<Rightarrow> hfs_err) \<Rightarrow> bool \<Rightarrow> nat \<Rightarrow> nat \<Rightarrow> bitmap_cursor \<Rightarrow> hfsmount \<Rightarrow>
   hfs_err \<times> hfsmount + nat \<times> nat \<times> bitmap_cursor \<times> hfsmount" where
  "mark_free_words bread do_validate start num cur m =
     (if num \<ge> 32 then
        case next_bitmap_word bread HFS_ALLOC_IGNORE_RESERVED True start cur m of
          Inl r \<Rightarrow> Inl r
        | Inr (start', cur', m') \<Rightarrow>
            if do_validate \<and> load_word cur' \<noteq> kAllBitsSetInWord
            then Inl (EIO, ReleaseBitmapBlock (hfs_mark_inconsistent m') (blockRef cur') (buffer cur') True)
            else mark_free_words bread do_validate start' (num - 32) (step_word (store_word cur' 0)) m'
      else Inr (start, num, cur, m))"
  by pat_completeness auto
termination
  by (relation "measure (\<lambda>(bread, v, start, num, cur, m). num)") auto

declare mark_free_words.simps [simp del]

definition mark_free_rest ::
  "(nat \<Rightarrow> hfs_err) \<Rightarrow> bool \<Rightarrow> nat \<Rightarrow> nat \<Rightarrow> bitmap_cursor \<Rightarrow> hfsmount \<Rightarrow>
   hfs_err \<times> hfsmount + bitmap_cursor \<times> hfsmount" where
  "mark_free_rest bread do_validate start num cur m =
     (if num \<noteq> 0 then
        let bitMask = not (drop_bit num kAllBitsSetInWord)
        in case next_bitmap_word bread HFS_ALLOC_IGNORE_RESERVED True start cur m of
             Inl r \<Rightarrow> Inl r
           | Inr (start', cur', m') \<Rightarrow>
               if do_validate \<and> and (load_word cur') bitMask \<noteq> bitMask
               then Inl (EIO, ReleaseBitmapBlock (hfs_mark_inconsistent m') (blockRef cur') (buffer cur') True)
               else Inr (store_word cur' (and (load_word cur') (not bitMask)), m')
      else Inr (cur, m))"

definition unmap_extent ::
  "hfsmount \<Rightarrow> nat \<Rightarrow> nat \<Rightarrow> u32 list \<Rightarrow> u32 list \<Rightarrow> nat \<times> nat" where
  "unmap_extent m start num before after =
     (let (min_unmap, max_unmap) =
            unmap_bounds start num (hfs_reserved_ranges m HFS_LOCKED_BLOCKS)
              (unmap_bounds start num (hfs_reserved_ranges m HFS_TENTATIVE_BLOCKS) (0, UINT32_MAX));
          word = and start (bits_per_block m - 1) div 32;
          (unmapStart, unmapCount) =
            unmap_backward before min_unmap word (drop_bit (start mod 32) kHighBitInWordMask) start num;
          lastBlock = sub32 (add32 start num) 1;
          lastWord = and lastBlock (bits_per_block m - 1) div 32
      in (unmapStart,
          unmap_forward after max_unmap lastWord (words_per_block m - lastWord)
            (drop_bit (lastBlock mod 32) kHighBitInWordMask) unmapStart unmapCount))"

definition BlockMarkFreeInternal ::
  "(nat \<Rightarrow> hfs_err) \<Rightarrow> hfsmount \<Rightarrow> nat \<Rightarrow> nat \<Rightarrow> bool \<Rightarrow> hfs_err \<times> hfsmount" where
  "BlockMarkFreeInternal bread m start num do_validate =
     (if do_validate \<and> add32 start num > totalBlocks m then (EIO, hfs_mark_inconsistent m)
      else
        case ReadBitmapBlock bread m start HFS_ALLOC_IGNORE_RESERVED of
          Inl err \<Rightarrow> (err, m)
        | Inr (ref, buf) \<Rightarrow>
            (case mark_free_first do_validate (start mod 32) num (cursor_at m start ref buf) m of
               Inl r \<Rightarrow> r
             | Inr (num1, cur1) \<Rightarrow>
                 (case mark_free_words bread do_validate start num1 cur1 m of
                    Inl r \<Rightarrow> r
                  | Inr (start2, num2, cur2, m2) \<Rightarrow>
                      (case mark_free_rest bread do_validate start2 num2 cur2 m2 of
                         Inl r \<Rightarrow> r
                       | Inr (cur3, m3) \<Rightarrow>
                           let m4 = ReleaseBitmapBlock m3 (blockRef cur3) (buffer cur3) True;
                               (unmapStart, unmapCount) = unmap_extent m start num buf (buffer cur3)
                           in (noErr, hfs_unmap_free_extent m4 unmapStart unmapCount)))))"

definition BlockMarkFree ::
  "(nat \<Rightarrow> hfs_err) \<Rightarrow> hfsmount \<Rightarrow> nat \<Rightarrow> nat \<Rightarrow> hfs_err \<times> hfsmount" where
  "BlockMarkFree bread m start num = BlockMarkFreeInternal bread m start num True"

section \<open>The bitmap behind a cursor\<close>

text \<open>
  The bitmap as it will be once the cursor's buffer is written back, the absolute index of the
  current word, and the invariant of a cursor whose piece contains block \<open>start\<close>.
\<close>

definition cur_bitmap :: "hfsmount \<Rightarrow> bitmap_cursor \<Rightarrow> u32 list" where
  "cur_bitmap m cur = vcbBitmap (ReleaseBitmapBlock m (blockRef cur) (buffer cur) True)"

definition cur_pos :: "hfsmount \<Rightarrow> bitmap_cursor \<Rightarrow> nat" where
  "cur_pos m cur = blockRef cur * words_per_block m + currentWord cur"

definition cur_ok :: "hfsmount \<Rightarrow> nat \<Rightarrow> bitmap_cursor \<Rightarrow> bool" where
  "cur_ok m start cur \<longleftrightarrow>
     length (buffer cur) = words_per_block m \<and> currentWord cur + wordsLeft cur = words_per_block m \<and>
     blockRef cur = start div (32 * words_per_block m) \<and>
     Suc (blockRef cur) * words_per_block m \<le> length (vcbBitmap m)"

text \<open>Nothing but the contents of the bitmap changes.\<close>

definition bm_only :: "hfsmount \<Rightarrow> hfsmount \<Rightarrow> bool" where
  "bm_only m m' \<longleftrightarrow> (\<exists>b. m' = m\<lparr>vcbBitmap := b\<rparr> \<and> length b = length (vcbBitmap m))"

lemma bm_only_refl [simp]: "bm_only m m"
  unfolding bm_only_def by (rule exI [of _ "vcbBitmap m"]) simp

lemma bm_only_trans: "bm_only m m1 \<Longrightarrow> bm_only m1 m2 \<Longrightarrow> bm_only m m2"
  by (auto simp: bm_only_def)

lemma bm_only_same:
  assumes "bm_only m m'"
  shows "words_per_block m' = words_per_block m" "length (vcbBitmap m') = length (vcbBitmap m)"
    "bits_per_block m' = bits_per_block m" "bitmap_ok m' \<longleftrightarrow> bitmap_ok m"
  using assms by (auto simp: bm_only_def bitmap_ok_def)

lemma cur_okD:
  assumes "cur_ok m start cur"
  shows "length (buffer cur) = words_per_block m" "currentWord cur + wordsLeft cur = words_per_block m"
    "blockRef cur * words_per_block m + words_per_block m \<le> length (vcbBitmap m)"
    "min (length (vcbBitmap m)) (blockRef cur * words_per_block m) = blockRef cur * words_per_block m"
  using assms by (auto simp: cur_ok_def)

lemma length_cur_bitmap: "cur_ok m start cur \<Longrightarrow> length (cur_bitmap m cur) = length (vcbBitmap m)"
  using cur_okD [of m start cur] by (simp add: cur_bitmap_def ReleaseBitmapBlock_def)

lemma Release_cur:
  "ReleaseBitmapBlock m (blockRef cur) (buffer cur) True = m\<lparr>vcbBitmap := cur_bitmap m cur\<rparr>"
  by (simp add: cur_bitmap_def ReleaseBitmapBlock_def)

lemma Release_only: "cur_ok m start cur \<Longrightarrow> bm_only m (ReleaseBitmapBlock m (blockRef cur) (buffer cur) True)"
  using length_cur_bitmap by (auto simp: Release_cur bm_only_def)

lemma cur_bitmap_load:
  assumes "cur_ok m start cur" "0 < wordsLeft cur"
  shows "cur_bitmap m cur ! cur_pos m cur = load_word cur" "cur_pos m cur < length (vcbBitmap m)"
  using cur_okD [OF assms(1)] assms(2)
  by (simp_all add: cur_bitmap_def ReleaseBitmapBlock_def cur_pos_def nth_append)

lemma cur_bitmap_store:
  assumes "cur_ok m start cur" "0 < wordsLeft cur"
  shows "cur_bitmap m (store_word cur w) = (cur_bitmap m cur)[cur_pos m cur := w]"
  using cur_okD [OF assms(1)] assms(2)
  by (simp add: cur_bitmap_def ReleaseBitmapBlock_def store_word_def cur_pos_def list_update_append)

lemma cur_ok_store [simp]: "cur_ok m start (store_word cur w) = cur_ok m start cur"
  by (simp add: cur_ok_def store_word_def)

lemma cur_pos_store [simp]: "cur_pos m (store_word cur w) = cur_pos m cur"
  by (simp add: cur_pos_def store_word_def)

lemma wordsLeft_store [simp]: "wordsLeft (store_word cur w) = wordsLeft cur"
  by (simp add: store_word_def)

lemma cur_step:
  assumes "0 < wordsLeft cur"
  shows "cur_ok m start (step_word cur) = cur_ok m start cur" "cur_pos m (step_word cur) = Suc (cur_pos m cur)"
    "cur_bitmap m (step_word cur) = cur_bitmap m cur"
  using assms by (auto simp: cur_ok_def step_word_def cur_pos_def cur_bitmap_def)

lemma cur_bitmap_piece:
  assumes "Suc ref * words_per_block m \<le> length (vcbBitmap m)"
  shows "take (ref * words_per_block m) (vcbBitmap m) @ bm_piece m ref @
    drop (ref * words_per_block m + words_per_block m) (vcbBitmap m) = vcbBitmap m"
  by (metis add.commute append_take_drop_id bm_piece_def drop_drop)

lemma Read_IGNORE:
  assumes "bitmap_ok m" "abit < 32 * length (vcbBitmap m)"
    "ReadBitmapBlock bread m abit HFS_ALLOC_IGNORE_RESERVED = Inr (ref, buf)"
  shows "ref = abit div (32 * words_per_block m)" "buf = bm_piece m ref" "length buf = words_per_block m"
    "Suc ref * words_per_block m \<le> length (vcbBitmap m)"
proof -
  have i: "ISSET HFS_ALLOC_IGNORE_RESERVED HFS_ALLOC_IGNORE_RESERVED"
    by (simp add: hfs_flag_defs)
  show r: "ref = abit div (32 * words_per_block m)" and b: "buf = bm_piece m ref"
    using assms(3) bitmap_okD(1) [OF assms(1)] i
    by (auto simp: ReadBitmapBlock_def Let_def bm_piece_def split: hfs_err.splits)
  show f: "Suc ref * words_per_block m \<le> length (vcbBitmap m)"
    using bm_piece_fits [OF assms(1,2)] r by simp
  show "length buf = words_per_block m"
    using length_bm_piece [OF f] b by simp
qed

text \<open>A cursor on a freshly read piece stands for the bitmap itself.\<close>

lemma cur_fresh:
  assumes "bitmap_ok m" "start < 32 * length (vcbBitmap m)"
    "ReadBitmapBlock bread m start HFS_ALLOC_IGNORE_RESERVED = Inr (ref, buf)"
  shows "cur_ok m start (cursor_at m start ref buf)" "cur_pos m (cursor_at m start ref buf) = start div 32"
    "cur_bitmap m (cursor_at m start ref buf) = vcbBitmap m" "0 < wordsLeft (cursor_at m start ref buf)"
proof -
  let ?w = "words_per_block m" and ?c = "cursor_at m start ref buf"
  note r = Read_IGNORE [OF assms] and ok = bitmap_okD [OF assms(1)]
  have i: "start mod (32 * ?w) div 32 < ?w"
    using ok(2) by (simp add: div_less_iff_less_mult mult.commute)
  then show "cur_ok m start ?c" "0 < wordsLeft ?c"
    using r ok(6) by (simp_all add: cur_ok_def cursor_at_def Let_def)
  have "start div 32 = start div (32 * ?w) * ?w + start mod (32 * ?w) div 32"
  proof -
    have "start = 32 * (start div (32 * ?w) * ?w) + start mod (32 * ?w)"
      by (metis div_mult_mod_eq mult.assoc mult.commute)
    then show ?thesis
      by (metis div_mult_self4 zero_neq_numeral)
  qed
  then show "cur_pos m ?c = start div 32"
    using r(1) ok(6) by (simp add: cur_pos_def cursor_at_def Let_def)
  show "cur_bitmap m ?c = vcbBitmap m"
    using cur_bitmap_piece [OF r(4)] r(2,3) by (simp add: cur_bitmap_def ReleaseBitmapBlock_def cursor_at_def Let_def)
qed

lemma Read_err:
  "ReadBitmapBlock bread m abit flags = Inl err \<Longrightarrow> err \<noteq> noErr \<and> err \<in> range bread"
  by (auto simp: ReadBitmapBlock_def Let_def split: hfs_err.splits) (metis rangeI)+

lemma next_bitmap_word_spec:
  assumes ok: "bitmap_ok m" and cur: "cur_ok m start cur" and more: "cur_pos m cur < length (vcbBitmap m)"
  shows "case next_bitmap_word bread HFS_ALLOC_IGNORE_RESERVED True start cur m of
      Inl (err, m') \<Rightarrow> err \<noteq> noErr \<and> err \<in> range bread \<and> bm_only m m' \<and> vcbBitmap m' = cur_bitmap m cur
    | Inr (start', cur', m') \<Rightarrow> bm_only m m' \<and> cur_ok m' start' cur' \<and> 0 < wordsLeft cur' \<and>
        cur_pos m' cur' = cur_pos m cur \<and> cur_bitmap m' cur' = cur_bitmap m cur"
proof (cases "wordsLeft cur = 0")
  case False
  then show ?thesis
    using cur by (simp add: next_bitmap_word_def)
next
  case True
  let ?w = "words_per_block m" and ?m = "ReleaseBitmapBlock m (blockRef cur) (buffer cur) True"
  let ?s = "add32 start (bits_per_block m)"
  note b = bitmap_okD [OF ok] and only = Release_only [OF cur]
  note same = bm_only_same [OF only]
  have pos: "cur_pos m cur = Suc (blockRef cur) * ?w"
    using cur True by (simp add: cur_pos_def cur_ok_def)
  obtain n where n: "length (vcbBitmap m) = n * ?w"
    using b(5) by (metis dvdE mult.commute)
  then have "Suc (blockRef cur) < n"
    using more pos by (metis mult_less_cancel2)
  then have fits: "Suc (Suc (blockRef cur)) * ?w \<le> length (vcbBitmap m)"
    using n by (metis Suc_leI mult_le_mono1)
  have ref: "blockRef cur = start div (32 * ?w)"
    using cur by (simp add: cur_ok_def)
  then have "start < Suc (blockRef cur) * (32 * ?w)"
    using b(2) dividend_less_div_times [of "32 * ?w" start] by simp
  then have s: "start + 32 * ?w < 32 * length (vcbBitmap m)"
    using fits by (simp add: algebra_simps)
  moreover have "32 * length (vcbBitmap m) \<le> 4294967296"
    using ok by (simp add: bitmap_ok_def)
  ultimately have s': "?s = start + 32 * ?w"
    using b(1) by (simp add: add32_eq)
  have ref': "?s div (32 * ?w) = Suc (blockRef cur)"
    unfolding s' ref using b(2) by (subst div_add_self2) simp_all
  show ?thesis
  proof (cases "ReadBitmapBlock bread ?m ?s HFS_ALLOC_IGNORE_RESERVED")
    case (Inl err)
    note Read_err [OF this]
    with Inl show ?thesis
      using True only by (simp add: next_bitmap_word_def Let_def cur_bitmap_def)
  next
    case (Inr r)
    obtain ref1 buf1 where r: "r = (ref1, buf1)"
      by fastforce
    have "bitmap_ok ?m" "?s < 32 * length (vcbBitmap ?m)"
      using same ok s s' by simp_all
    note rd = Read_IGNORE [OF this Inr [unfolded r]]
    define c1 where "c1 = \<lparr>blockRef = ref1, buffer = buf1, currentWord = 0, wordsLeft = ?w\<rparr>"
    have "cur_ok ?m ?s c1" "0 < wordsLeft c1" "cur_pos ?m c1 = cur_pos m cur"
      using rd ref' b(2) fits pos same by (simp_all add: cur_ok_def c1_def cur_pos_def)
    moreover have "cur_bitmap ?m c1 = cur_bitmap m cur"
      using cur_bitmap_piece [OF rd(4)] rd(2,3) by (simp add: cur_bitmap_def ReleaseBitmapBlock_def c1_def)
    ultimately show ?thesis
      using True Inr r only by (simp add: next_bitmap_word_def Let_def c1_def)
  qed
qed

section \<open>Setting bits\<close>

lemma bm_set_store_or:
  assumes "cur_ok m start cur" "0 < wordsLeft cur"
  shows "bm_set (cur_bitmap m (store_word cur (or (load_word cur) w))) =
    bm_set (cur_bitmap m cur) \<union> word_blocks (cur_pos m cur) w"
  using cur_bitmap_load [OF assms] cur_bitmap_store [OF assms] length_cur_bitmap [OF assms(1)]
    bm_set_or [of "cur_pos m cur" "cur_bitmap m cur" w] by simp

lemma bm_set_store_all:
  assumes "cur_ok m start cur" "0 < wordsLeft cur"
  shows "bm_set (cur_bitmap m (store_word cur kAllBitsSetInWord)) =
    bm_set (cur_bitmap m cur) \<union> run (32 * cur_pos m cur) 32"
proof -
  have "or (load_word cur) kAllBitsSetInWord = kAllBitsSetInWord"
    by (rule bit_word_eqI) (simp add: kAllBits_mask bit_simps)
  then show ?thesis
    using bm_set_store_or [OF assms, of kAllBitsSetInWord] by (simp add: word_blocks_all)
qed

lemma mark_alloc_words_spec:
  assumes "bitmap_ok m" "cur_ok m start cur" "32 * cur_pos m cur + num \<le> 32 * length (vcbBitmap m)"
  shows "case mark_alloc_words bread start num cur m of
      Inl (err, m') \<Rightarrow> err \<noteq> noErr \<and> err \<in> range bread \<and> bm_only m m' \<and>
        (\<exists>k\<le>num. bm_set (vcbBitmap m') = bm_set (cur_bitmap m cur) \<union> run (32 * cur_pos m cur) k)
    | Inr (start', num', cur', m') \<Rightarrow> bm_only m m' \<and> cur_ok m' start' cur' \<and> num' < 32 \<and>
        32 * cur_pos m' cur' + num' = 32 * cur_pos m cur + num \<and> num' \<le> num \<and>
        bm_set (cur_bitmap m' cur') = bm_set (cur_bitmap m cur) \<union> run (32 * cur_pos m cur) (num - num')"
  using assms
proof (induction bread start num cur m rule: mark_alloc_words.induct)
  case (1 bread start num cur m)
  note step = mark_alloc_words.simps [of bread start num cur m]
  show ?case
  proof (cases "num \<ge> 32")
    case False
    then show ?thesis
      using 1(3) by (simp add: step)
  next
    case True
    then have more: "cur_pos m cur < length (vcbBitmap m)"
      using 1(4) by linarith
    note nx = next_bitmap_word_spec [OF 1(2,3) more, of bread]
    show ?thesis
    proof (cases "next_bitmap_word bread HFS_ALLOC_IGNORE_RESERVED True start cur m")
      case (Inl r)
      then show ?thesis
        using nx True by (auto simp: step intro!: exI [of _ 0])
    next
      case (Inr r)
      obtain s1 c1 m1 where r: "r = (s1, c1, m1)"
        by (cases r)
      have n1: "bm_only m m1" "cur_ok m1 s1 c1" "0 < wordsLeft c1" "cur_pos m1 c1 = cur_pos m cur"
        "cur_bitmap m1 c1 = cur_bitmap m cur"
        using nx Inr r by simp_all
      define c2 where "c2 = step_word (store_word c1 kAllBitsSetInWord)"
      have c2: "cur_ok m1 s1 c2" "cur_pos m1 c2 = Suc (cur_pos m cur)"
        "bm_set (cur_bitmap m1 c2) = bm_set (cur_bitmap m cur) \<union> run (32 * cur_pos m cur) 32"
        using n1 bm_set_store_all [OF n1(2,3)] by (simp_all add: c2_def cur_step)
      note same = bm_only_same [OF n1(1)]
      have IH: "case mark_alloc_words bread s1 (num - 32) c2 m1 of
          Inl (err, m') \<Rightarrow> err \<noteq> noErr \<and> err \<in> range bread \<and> bm_only m1 m' \<and>
            (\<exists>k\<le>num - 32. bm_set (vcbBitmap m') = bm_set (cur_bitmap m1 c2) \<union> run (32 * cur_pos m1 c2) k)
        | Inr (start', num', cur', m') \<Rightarrow> bm_only m1 m' \<and> cur_ok m' start' cur' \<and> num' < 32 \<and>
            32 * cur_pos m' cur' + num' = 32 * cur_pos m1 c2 + (num - 32) \<and> num' \<le> num - 32 \<and>
            bm_set (cur_bitmap m' cur') = bm_set (cur_bitmap m1 c2) \<union> run (32 * cur_pos m1 c2) (num - 32 - num')"
        using "1.IH" [OF True Inr r [symmetric] refl, folded c2_def] c2(1,2) same 1(2,4) True by simp
      have runs: "run (32 * cur_pos m cur) 32 \<union> run (32 * cur_pos m cur + 32) k = run (32 * cur_pos m cur) (32 + k)" for k
        by (simp add: run_add)
      have eq: "mark_alloc_words bread start num cur m = mark_alloc_words bread s1 (num - 32) c2 m1"
        using True Inr r by (simp add: step c2_def)
      show ?thesis
      proof (cases "mark_alloc_words bread s1 (num - 32) c2 m1")
        case (Inl e)
        obtain err m2 where e: "e = (err, m2)"
          by fastforce
        with Inl IH have bad: "err \<noteq> noErr" "err \<in> range bread"
          by simp_all
        from e Inl IH obtain k where k: "k \<le> num - 32"
          "bm_set (vcbBitmap m2) = bm_set (cur_bitmap m1 c2) \<union> run (32 * cur_pos m1 c2) k"
          "err \<noteq> noErr" "bm_only m1 m2"
          by auto
        have "bm_set (vcbBitmap m2) = bm_set (cur_bitmap m cur) \<union> run (32 * cur_pos m cur) (32 + k)"
          using k(2) c2(2,3) runs [of k] by (simp add: Un_assoc add.commute)
        then show ?thesis
          using Inl e k bad True bm_only_trans [OF n1(1)] by (auto simp: eq intro!: exI [of _ "32 + k"])
      next
        case (Inr q)
        obtain s3 num3 c3 m3 where q: "q = (s3, num3, c3, m3)"
          by (cases q)
        have i: "bm_only m1 m3" "cur_ok m3 s3 c3" "num3 < 32"
          "32 * cur_pos m3 c3 + num3 = 32 * cur_pos m1 c2 + (num - 32)" "num3 \<le> num - 32"
          "bm_set (cur_bitmap m3 c3) = bm_set (cur_bitmap m1 c2) \<union> run (32 * cur_pos m1 c2) (num - 32 - num3)"
          using IH Inr q by simp_all
        have "bm_set (cur_bitmap m3 c3) = bm_set (cur_bitmap m cur) \<union> run (32 * cur_pos m cur) (num - num3)"
          using i(5,6) c2(2,3) runs [of "num - 32 - num3"] True by (simp add: Un_assoc add.commute)
        then show ?thesis
          using Inr q i True c2(2) bm_only_trans [OF n1(1)] by (simp add: eq)
      qed
    qed
  qed
qed

lemma first_word_mask_spec:
  assumes "0 < f" "f < 32"
  shows "case first_word_mask f num of (bitMask, numBits) \<Rightarrow>
    numBits = min num (32 - f) \<and> word_blocks i bitMask = run (32 * i + f) numBits"
  using assms word_blocks_from [of f i] word_blocks_middle [of f num i]
  by (auto simp: first_word_mask_def Let_def)

lemma cur_pos_le: "cur_ok m start cur \<Longrightarrow> cur_pos m cur \<le> length (vcbBitmap m)"
  using cur_okD [of m start cur] by (simp add: cur_pos_def)

lemma next_word_start:
  fixes start :: nat
  assumes "n = 32 - start mod 32"
  shows "32 * Suc (start div 32) = start + n"
proof -
  define d r where "d = start div 32" and "r = start mod 32"
  have "start = 32 * d + r" "r < 32"
    by (simp_all add: d_def r_def)
  then show ?thesis
    using assms by (simp add: d_def [symmetric] r_def [symmetric])
qed

lemma mark_alloc_first_spec:
  assumes "cur_ok m start cur" "0 < wordsLeft cur" "cur_pos m cur = start div 32"
  shows "case mark_alloc_first (start mod 32) num cur of (num1, cur1) \<Rightarrow>
    cur_ok m start cur1 \<and> num1 \<le> num \<and> (num1 \<noteq> 0 \<longrightarrow> 32 * cur_pos m cur1 = start + (num - num1)) \<and>
    bm_set (cur_bitmap m cur1) = bm_set (cur_bitmap m cur) \<union> run start (num - num1)"
proof (cases "start mod 32 = 0")
  case True
  then have "32 * (start div 32) = start"
    by (metis add.right_neutral mult_div_mod_eq)
  then show ?thesis
    using True assms by (simp add: mark_alloc_first_def)
next
  case False
  obtain bitMask numBits where f: "first_word_mask (start mod 32) num = (bitMask, numBits)"
    by fastforce
  have start: "32 * (start div 32) + start mod 32 = start"
    by simp
  have spec: "numBits = min num (32 - start mod 32)" "word_blocks (start div 32) bitMask = run start numBits"
    using first_word_mask_spec [of "start mod 32" num "start div 32"] False f start by simp_all
  define c1 where "c1 = step_word (store_word cur (or (load_word cur) bitMask))"
  have c1: "cur_ok m start c1" "cur_pos m c1 = Suc (start div 32)"
    "bm_set (cur_bitmap m c1) = bm_set (cur_bitmap m cur) \<union> run start numBits"
    using assms bm_set_store_or [OF assms(1,2), of bitMask] spec(2) by (simp_all add: c1_def cur_step)
  have eq: "mark_alloc_first (start mod 32) num cur = (num - numBits, c1)"
    using False f by (simp add: mark_alloc_first_def c1_def)
  have "32 * Suc (start div 32) = start + numBits" if "num - numBits \<noteq> 0"
    using that spec(1) by (intro next_word_start) (simp add: min_def split: if_splits)
  then show ?thesis
    using c1 spec(1) by (simp add: eq)
qed

lemma mark_alloc_rest_spec:
  assumes "bitmap_ok m" "cur_ok m start cur" "num < 32" "32 * cur_pos m cur + num \<le> 32 * length (vcbBitmap m)"
  shows "case mark_alloc_rest bread start num cur m of (err, m') \<Rightarrow> bm_only m m' \<and>
    (err = noErr \<and> bm_set (vcbBitmap m') = bm_set (cur_bitmap m cur) \<union> run (32 * cur_pos m cur) num \<or>
     err \<noteq> noErr \<and> err \<in> range bread \<and> bm_set (vcbBitmap m') = bm_set (cur_bitmap m cur))"
proof (cases "num = 0")
  case True
  then show ?thesis
    using Release_only [OF assms(2)] by (simp add: mark_alloc_rest_def Release_cur)
next
  case False
  then have more: "cur_pos m cur < length (vcbBitmap m)"
    using assms(4) by linarith
  note nx = next_bitmap_word_spec [OF assms(1,2) more, of bread]
  show ?thesis
  proof (cases "next_bitmap_word bread HFS_ALLOC_IGNORE_RESERVED True start cur m")
    case (Inl r)
    then show ?thesis
      using nx False by (auto simp: mark_alloc_rest_def Let_def)
  next
    case (Inr r)
    obtain s1 c1 m1 where r: "r = (s1, c1, m1)"
      by (cases r)
    have n1: "bm_only m m1" "cur_ok m1 s1 c1" "0 < wordsLeft c1" "cur_pos m1 c1 = cur_pos m cur"
      "cur_bitmap m1 c1 = cur_bitmap m cur"
      using nx Inr r by simp_all
    define c2 where "c2 = store_word c1 (or (load_word c1) (not (drop_bit num kAllBitsSetInWord)))"
    have "cur_ok m1 s1 c2" "bm_set (cur_bitmap m1 c2) = bm_set (cur_bitmap m cur) \<union> run (32 * cur_pos m cur) num"
      using n1 bm_set_store_or [OF n1(2,3)] word_blocks_first [OF assms(3)] by (simp_all add: c2_def)
    then show ?thesis
      using False Inr r bm_only_trans [OF n1(1) Release_only]
      by (simp add: mark_alloc_rest_def Let_def c2_def [symmetric] Release_cur)
  qed
qed

lemma unmap_alloc_frame:
  "words_per_block (hfs_unmap_alloc_extent m s n) = words_per_block m"
  "bitmap_ok (hfs_unmap_alloc_extent m s n) = bitmap_ok m"
  "vcbBitmap (hfs_unmap_alloc_extent m s n) = vcbBitmap m"
  by (simp_all add: hfs_unmap_alloc_extent_def bitmap_ok_def)

lemma BlockMarkAllocatedInternal_spec:
  assumes ok: "bitmap_ok m" and num: "0 < num" "start + num \<le> 32 * length (vcbBitmap m)"
    and flags: "\<not> ISSET flags (or HFS_ALLOC_LOCKED HFS_ALLOC_TENTATIVE)"
  shows "case BlockMarkAllocatedInternal bread m start num flags of (err, m') \<Rightarrow>
    bm_only (hfs_unmap_alloc_extent m start num) m' \<and>
    (\<exists>k\<le>num. bm_set (vcbBitmap m') = bm_set (vcbBitmap m) \<union> run start k) \<and>
    (if err = noErr then bm_set (vcbBitmap m') = bm_set (vcbBitmap m) \<union> run start num else err \<in> range bread)"
proof -
  define m1 where "m1 = hfs_unmap_alloc_extent m start num"
  note fr = unmap_alloc_frame [of m start num, folded m1_def]
  have ok1: "bitmap_ok m1" "start < 32 * length (vcbBitmap m1)"
    using ok num fr by simp_all
  show ?thesis
  proof (cases "ReadBitmapBlock bread m1 start HFS_ALLOC_IGNORE_RESERVED")
    case (Inl err)
    moreover note Read_err [OF Inl]
    ultimately show ?thesis
      using flags fr(3) by (auto simp: BlockMarkAllocatedInternal_def m1_def [symmetric] Let_def intro!: exI [of _ 0])
  next
    case (Inr r)
    obtain ref buf where r: "r = (ref, buf)"
      by fastforce
    note f = cur_fresh [OF ok1 Inr [unfolded r]]
    obtain num1 c1 where fst: "mark_alloc_first (start mod 32) num (cursor_at m1 start ref buf) = (num1, c1)"
      by fastforce
    have c1: "cur_ok m1 start c1" "num1 \<le> num" "num1 \<noteq> 0 \<Longrightarrow> 32 * cur_pos m1 c1 = start + (num - num1)"
      "bm_set (cur_bitmap m1 c1) = bm_set (vcbBitmap m) \<union> run start (num - num1)"
      using mark_alloc_first_spec [OF f(1,4,2), of num] fst f(3) fr(3) by simp_all
    have fits: "32 * cur_pos m1 c1 + num1 \<le> 32 * length (vcbBitmap m1)"
      using c1(2,3) num(2) cur_pos_le [OF c1(1)] fr(3) by (cases "num1 = 0") simp_all
    have runs: "run start (num - num1) \<union> run (32 * cur_pos m1 c1) k = run start (num - num1 + k)" if "k \<le> num1" for k
      using c1(3) that by (cases "num1 = 0") (simp_all add: run_add)
    note w = mark_alloc_words_spec [OF ok1(1) c1(1) fits, of bread]
    have eq: "BlockMarkAllocatedInternal bread m start num flags =
        (case mark_alloc_words bread start num1 c1 m1 of Inl r \<Rightarrow> r
         | Inr (start2, num2, cur2, m2) \<Rightarrow> mark_alloc_rest bread start2 num2 cur2 m2)"
      using flags Inr r fst by (simp add: BlockMarkAllocatedInternal_def m1_def [symmetric] Let_def)
    show ?thesis
    proof (cases "mark_alloc_words bread start num1 c1 m1")
      case (Inl e)
      obtain err m2 where e: "e = (err, m2)"
        by fastforce
      with Inl w obtain k where k: "k \<le> num1" "bm_set (vcbBitmap m2) = bm_set (cur_bitmap m1 c1) \<union> run (32 * cur_pos m1 c1) k"
        "err \<noteq> noErr" "err \<in> range bread" "bm_only m1 m2"
        by auto
      then have "bm_set (vcbBitmap m2) = bm_set (vcbBitmap m) \<union> run start (num - num1 + k)"
        using runs [OF k(1)] c1(4) by (simp add: Un_assoc)
      moreover have "num - num1 + k \<le> num"
        using k(1) c1(2) by linarith
      ultimately show ?thesis
        using Inl e k by (auto simp: eq m1_def [symmetric])
    next
      case (Inr q)
      obtain s2 num2 c2 m2 where q: "q = (s2, num2, c2, m2)"
        by (cases q)
      have i: "bm_only m1 m2" "cur_ok m2 s2 c2" "num2 < 32" "num2 \<le> num1"
        "32 * cur_pos m2 c2 + num2 = 32 * cur_pos m1 c1 + num1"
        "bm_set (cur_bitmap m2 c2) = bm_set (cur_bitmap m1 c1) \<union> run (32 * cur_pos m1 c1) (num1 - num2)"
        using w Inr q by simp_all
      note same = bm_only_same [OF i(1)]
      obtain err m3 where rest: "mark_alloc_rest bread s2 num2 c2 m2 = (err, m3)"
        by fastforce
      have r3: "bm_only m2 m3"
        "err = noErr \<and> bm_set (vcbBitmap m3) = bm_set (cur_bitmap m2 c2) \<union> run (32 * cur_pos m2 c2) num2 \<or>
         err \<noteq> noErr \<and> err \<in> range bread \<and> bm_set (vcbBitmap m3) = bm_set (cur_bitmap m2 c2)"
        using mark_alloc_rest_spec [OF _ i(2,3), of bread] same ok1(1) i(5) fits rest by simp_all
      have a: "bm_set (cur_bitmap m2 c2) = bm_set (vcbBitmap m) \<union> run start (num - num2)"
        using i(4,6) c1(2,4) runs [of "num1 - num2"] by (simp add: Un_assoc)
      have p: "num2 \<noteq> 0 \<Longrightarrow> 32 * cur_pos m2 c2 = start + (num - num2)"
        using i(4,5) c1(2,3) by (cases "num1 = 0") simp_all
      have "run start (num - num2) \<union> run (32 * cur_pos m2 c2) num2 = run start num"
        using p i(4) c1(2) run_add [of start "num - num2" num2] by (cases "num2 = 0") simp_all
      then have "err = noErr \<Longrightarrow> bm_set (vcbBitmap m3) = bm_set (vcbBitmap m) \<union> run start num"
        "err \<noteq> noErr \<Longrightarrow> err \<in> range bread \<and> bm_set (vcbBitmap m3) = bm_set (vcbBitmap m) \<union> run start (num - num2)"
        using r3(2) a by (auto simp: Un_assoc)
      then show ?thesis
        using Inr q rest bm_only_trans [OF i(1) r3(1)]
        by (cases "err = noErr") (auto simp: eq m1_def [symmetric] intro: exI [of _ num] exI [of _ "num - num2"])
    qed
  qed
qed

section \<open>Clearing bits\<close>

lemma bm_set_store_and_not:
  assumes "cur_ok m start cur" "0 < wordsLeft cur"
  shows "bm_set (cur_bitmap m (store_word cur (and (load_word cur) (not w)))) =
    bm_set (cur_bitmap m cur) - word_blocks (cur_pos m cur) w"
  using cur_bitmap_load [OF assms] cur_bitmap_store [OF assms] length_cur_bitmap [OF assms(1)]
    bm_set_and_not [of "cur_pos m cur" "cur_bitmap m cur" w] by simp

lemma bm_set_store_zero:
  assumes "cur_ok m start cur" "0 < wordsLeft cur"
  shows "bm_set (cur_bitmap m (store_word cur 0)) = bm_set (cur_bitmap m cur) - run (32 * cur_pos m cur) 32"
proof -
  have "and (load_word cur) (not kAllBitsSetInWord) = 0"
    by (rule bit_word_eqI) (simp add: kAllBits_mask bit_simps)
  then show ?thesis
    using bm_set_store_and_not [OF assms, of kAllBitsSetInWord] by (simp add: word_blocks_all)
qed

text \<open>A word has all the bits of a mask exactly when the mask's blocks are allocated.\<close>

lemma word_all_allocated:
  assumes "cur_ok m start cur" "0 < wordsLeft cur"
  shows "and (load_word cur) w = w \<longleftrightarrow> word_blocks (cur_pos m cur) w \<subseteq> bm_set (cur_bitmap m cur)"
proof -
  note ld = cur_bitmap_load [OF assms] and len = length_cur_bitmap [OF assms(1)]
  have sub: "word_blocks (cur_pos m cur) w \<subseteq> bm_set (cur_bitmap m cur) \<longleftrightarrow>
      (\<forall>b. b div 32 = cur_pos m cur \<longrightarrow> bit w (31 - b mod 32) \<longrightarrow> bit (load_word cur) (31 - b mod 32))"
    using ld len by (auto simp: in_bm_set word_blocks_def)
  have bits: "(\<forall>b. b div 32 = i \<longrightarrow> P (31 - b mod 32)) \<longleftrightarrow> (\<forall>j<32. P j)" for i :: nat and P
  proof
    assume a: "\<forall>b. b div 32 = i \<longrightarrow> P (31 - b mod 32)"
    show "\<forall>j<32. P j"
    proof (intro allI impI)
      fix j :: nat
      assume j: "j < 32"
      define k where "k = 31 - j"
      then have "k < 32" "31 - k = j"
        using j by simp_all
      then have "(32 * i + k) div 32 = i" "31 - (32 * i + k) mod 32 = j"
        by simp_all
      with a show "P j"
        by metis
    qed
  qed auto
  have "and (load_word cur) w = w \<longleftrightarrow> (\<forall>j<32. bit w j \<longrightarrow> bit (load_word cur) j)"
    by (auto simp: bit_eq_iff bit_simps)
  also have "\<dots> \<longleftrightarrow> word_blocks (cur_pos m cur) w \<subseteq> bm_set (cur_bitmap m cur)"
    unfolding sub using bits [of "cur_pos m cur" "\<lambda>j. bit w j \<longrightarrow> bit (load_word cur) j"] by blast
  finally show ?thesis .
qed

lemma word_full_allocated:
  assumes "cur_ok m start cur" "0 < wordsLeft cur"
  shows "load_word cur = kAllBitsSetInWord \<longleftrightarrow> run (32 * cur_pos m cur) 32 \<subseteq> bm_set (cur_bitmap m cur)"
proof -
  have "and (load_word cur) kAllBitsSetInWord = load_word cur"
    by (rule bit_word_eqI) (simp add: kAllBits_mask bit_simps)
  then show ?thesis
    using word_all_allocated [OF assms, of kAllBitsSetInWord] by (simp add: word_blocks_all)
qed

text \<open>
  How freeing fails: a read error, or blocks that are not allocated, when the volume is marked
  inconsistent.  Nothing else changes but the bitmap.
\<close>

definition free_fault :: "(nat \<Rightarrow> hfs_err) \<Rightarrow> bool \<Rightarrow> hfsmount \<Rightarrow> hfs_err \<Rightarrow> hfsmount \<Rightarrow> bool" where
  "free_fault bread unallocated m err m' \<longleftrightarrow> err \<noteq> noErr \<and>
     (err \<in> range bread \<and> bm_only m m' \<or> err = EIO \<and> unallocated \<and> bm_only (hfs_mark_inconsistent m) m')"

lemma mark_inconsistent_bm:
  "hfs_mark_inconsistent (m\<lparr>vcbBitmap := b\<rparr>) = (hfs_mark_inconsistent m)\<lparr>vcbBitmap := b\<rparr>"
  "vcbBitmap (hfs_mark_inconsistent m) = vcbBitmap m"
  "words_per_block (hfs_mark_inconsistent m) = words_per_block m"
  by (simp_all add: hfs_mark_inconsistent_def MarkVCBDirty_def)

lemma bm_only_mark: "bm_only m m1 \<Longrightarrow> bm_only (hfs_mark_inconsistent m) (hfs_mark_inconsistent m1)"
  by (auto simp: bm_only_def mark_inconsistent_bm)

lemma free_fault_trans:
  "bm_only m m1 \<Longrightarrow> free_fault bread u m1 err m2 \<Longrightarrow> (u \<Longrightarrow> v) \<Longrightarrow> free_fault bread v m err m2"
  using bm_only_trans [of m m1 m2] bm_only_trans [OF bm_only_mark, of m m1 m2] by (auto simp: free_fault_def)

lemma free_fault_corruption:
  assumes "cur_ok m start cur" "u"
  shows "free_fault bread u m EIO (ReleaseBitmapBlock (hfs_mark_inconsistent m) (blockRef cur) (buffer cur) True)"
    "vcbBitmap (ReleaseBitmapBlock (hfs_mark_inconsistent m) (blockRef cur) (buffer cur) True) = cur_bitmap m cur"
proof -
  have "ReleaseBitmapBlock (hfs_mark_inconsistent m) (blockRef cur) (buffer cur) True =
      hfs_mark_inconsistent (ReleaseBitmapBlock m (blockRef cur) (buffer cur) True)"
    by (simp add: ReleaseBitmapBlock_def mark_inconsistent_bm)
  then show "free_fault bread u m EIO (ReleaseBitmapBlock (hfs_mark_inconsistent m) (blockRef cur) (buffer cur) True)"
    "vcbBitmap (ReleaseBitmapBlock (hfs_mark_inconsistent m) (blockRef cur) (buffer cur) True) = cur_bitmap m cur"
    using assms bm_only_mark [OF Release_only [OF assms(1)]]
    by (simp_all add: free_fault_def mark_inconsistent_bm cur_bitmap_def)
qed

lemma free_fault_here:
  assumes "bm_only m m1" "cur_ok m1 start cur" "u"
  shows "free_fault bread u m EIO (ReleaseBitmapBlock (hfs_mark_inconsistent m1) (blockRef cur) (buffer cur) True)"
  by (rule free_fault_trans [OF assms(1) free_fault_corruption(1) [OF assms(2,3)]]) (rule assms(3))

lemma next_word_last:
  fixes start :: nat
  assumes "0 < n" "n \<le> 32 - start mod 32"
  shows "(start + n - 1) div 32 = start div 32"
proof -
  define d r where "d = start div 32" and "r = start mod 32"
  have "start = 32 * d + r" "r < 32"
    by (simp_all add: d_def r_def)
  then have "start + n - 1 = 32 * d + (r + n - 1)" "r + n - 1 < 32"
    using assms by (simp_all add: r_def [symmetric])
  then show ?thesis
    by (simp add: d_def)
qed

lemma mark_free_first_spec:
  assumes "cur_ok m start cur" "0 < wordsLeft cur" "cur_pos m cur = start div 32"
  shows "case mark_free_first v (start mod 32) num cur m of
      Inl (err, m') \<Rightarrow> free_fault bread (v \<and> \<not> run start num \<subseteq> bm_set (cur_bitmap m cur)) m err m' \<and>
        vcbBitmap m' = cur_bitmap m cur
    | Inr (num1, cur1) \<Rightarrow> cur_ok m start cur1 \<and> num1 \<le> num \<and>
        (num1 \<noteq> 0 \<longrightarrow> 32 * cur_pos m cur1 = start + (num - num1)) \<and>
        (num1 < num \<longrightarrow> 0 < currentWord cur1 \<and> (start + (num - num1) - 1) div 32 = cur_pos m cur1 - 1) \<and>
        bm_set (cur_bitmap m cur1) = bm_set (cur_bitmap m cur) - run start (num - num1) \<and>
        (v \<longrightarrow> run start (num - num1) \<subseteq> bm_set (cur_bitmap m cur))"
proof (cases "start mod 32 = 0")
  case True
  then have "32 * (start div 32) = start"
    by (metis add.right_neutral mult_div_mod_eq)
  then show ?thesis
    using True assms by (simp add: mark_free_first_def)
next
  case False
  obtain bitMask numBits where f: "first_word_mask (start mod 32) num = (bitMask, numBits)"
    by fastforce
  have start: "32 * (start div 32) + start mod 32 = start"
    by simp
  have spec: "numBits = min num (32 - start mod 32)" "word_blocks (start div 32) bitMask = run start numBits"
    using first_word_mask_spec [of "start mod 32" num "start div 32"] False f start by simp_all
  have all: "and (load_word cur) bitMask = bitMask \<longleftrightarrow> run start numBits \<subseteq> bm_set (cur_bitmap m cur)"
    using word_all_allocated [OF assms(1,2), of bitMask] spec(2) assms(3) by simp
  show ?thesis
  proof (cases "v \<and> and (load_word cur) bitMask \<noteq> bitMask")
    case True
    moreover have "run start numBits \<subseteq> run start num"
      using spec(1) by auto
    ultimately have "v \<and> \<not> run start num \<subseteq> bm_set (cur_bitmap m cur)"
      using all by blast
    then show ?thesis
      using True False f free_fault_corruption [OF assms(1)] by (simp add: mark_free_first_def)
  next
    case okay: False
    define c1 where "c1 = step_word (store_word cur (and (load_word cur) (not bitMask)))"
    have c1: "cur_ok m start c1" "cur_pos m c1 = Suc (start div 32)"
      "bm_set (cur_bitmap m c1) = bm_set (cur_bitmap m cur) - run start numBits"
      using assms bm_set_store_and_not [OF assms(1,2), of bitMask] spec(2)
      by (simp_all add: c1_def cur_step)
    have "32 * Suc (start div 32) = start + numBits" if "num - numBits \<noteq> 0"
      using that spec(1) by (intro next_word_start) (simp add: min_def split: if_splits)
    moreover have eq: "mark_free_first v (start mod 32) num cur m = Inr (num - numBits, c1)"
      unfolding mark_free_first_def c1_def using False okay f by auto
    moreover have "num - (num - numBits) = numBits"
      using spec(1) by simp
    moreover have "0 < currentWord c1"
      by (simp add: c1_def step_word_def)
    moreover have "(start + numBits - 1) div 32 = start div 32" if "0 < numBits"
      using next_word_last [of numBits start] that spec(1) by simp
    moreover have "v \<longrightarrow> run start numBits \<subseteq> bm_set (cur_bitmap m cur)"
      using all okay by blast
    ultimately show ?thesis
      using c1 by (simp only: eq sum.case prod.case) auto
  qed
qed

definition free_words_result ::
  "(nat \<Rightarrow> hfs_err) \<Rightarrow> bool \<Rightarrow> hfsmount \<Rightarrow> nat \<Rightarrow> nat set \<Rightarrow> nat \<Rightarrow> bool \<Rightarrow>
   hfs_err \<times> hfsmount + nat \<times> nat \<times> bitmap_cursor \<times> hfsmount \<Rightarrow> bool" where
  "free_words_result bread v m p B num inside r \<longleftrightarrow>
     (case r of
        Inl (err, m') \<Rightarrow> free_fault bread (v \<and> \<not> run p num \<subseteq> B) m err m' \<and>
          (\<exists>k\<le>num. bm_set (vcbBitmap m') = B - run p k)
      | Inr (start', num', cur', m') \<Rightarrow> bm_only m m' \<and> cur_ok m' start' cur' \<and> num' < 32 \<and>
          32 * cur_pos m' cur' + num' = p + num \<and> num' \<le> num \<and> (inside \<or> 32 \<le> num \<longrightarrow> 0 < currentWord cur') \<and>
          bm_set (cur_bitmap m' cur') = B - run p (num - num') \<and> (v \<longrightarrow> run p (num - num') \<subseteq> B))"

lemma run_split: "j \<le> n \<Longrightarrow> run p n = run p j \<union> run (p + j) (n - j)"
  by auto

lemma free_words_step:
  assumes "32 \<le> num" "bm_only m m1" "v \<Longrightarrow> run p 32 \<subseteq> B"
    and r: "free_words_result bread v m1 (p + 32) (B - run p 32) (num - 32) True r"
  shows "free_words_result bread v m p B num inside r"
proof (cases r)
  case (Inl e)
  obtain err m2 where e: "e = (err, m2)"
    by fastforce
  obtain k where k: "k \<le> num - 32" "bm_set (vcbBitmap m2) = B - run p 32 - run (p + 32) k"
    using r Inl e by (auto simp: free_words_result_def)
  then have "bm_set (vcbBitmap m2) = B - run p (32 + k)"
    using run_split [of 32 "32 + k" p] by auto
  moreover have "32 + k \<le> num"
    using k assms(1) by linarith
  moreover have "v \<and> \<not> run (p + 32) (num - 32) \<subseteq> B - run p 32 \<Longrightarrow> v \<and> \<not> run p num \<subseteq> B"
    using run_split [OF assms(1), of p] assms(3) by (auto simp: subset_iff)
  then have "free_fault bread (v \<and> \<not> run p num \<subseteq> B) m err m2"
    using r Inl e free_fault_trans [OF assms(2)] by (auto simp: free_words_result_def)
  ultimately show ?thesis
    using Inl e by (auto simp: free_words_result_def)
next
  case (Inr q)
  obtain s3 num3 c3 m3 where q: "q = (s3, num3, c3, m3)"
    by (cases q)
  have i: "bm_only m1 m3" "cur_ok m3 s3 c3" "num3 < 32"
    "32 * cur_pos m3 c3 + num3 = p + 32 + (num - 32)" "num3 \<le> num - 32"
    "bm_set (cur_bitmap m3 c3) = B - run p 32 - run (p + 32) (num - 32 - num3)"
    "v \<Longrightarrow> run (p + 32) (num - 32 - num3) \<subseteq> B - run p 32" "0 < currentWord c3"
    using r Inr q by (simp_all add: free_words_result_def)
  have sp: "run p (num - num3) = run p 32 \<union> run (p + 32) (num - 32 - num3)"
    using run_split [of 32 "num - num3" p] i(5) assms(1) by (simp add: add.commute)
  have "bm_set (cur_bitmap m3 c3) = B - run p (num - num3)"
    unfolding i(6) sp by blast
  moreover have "v \<Longrightarrow> run p (num - num3) \<subseteq> B"
    unfolding sp using i(7) assms(3) by blast
  ultimately show ?thesis
    using Inr q i(2-5,8) assms(1) bm_only_trans [OF assms(2) i(1)] by (simp add: free_words_result_def)
qed

lemma mark_free_words_spec:
  assumes "bitmap_ok m" "cur_ok m start cur" "32 * cur_pos m cur + num \<le> 32 * length (vcbBitmap m)"
  shows "free_words_result bread v m (32 * cur_pos m cur) (bm_set (cur_bitmap m cur)) num (0 < currentWord cur)
    (mark_free_words bread v start num cur m)"
  using assms
proof (induction bread v start num cur m rule: mark_free_words.induct)
  case (1 bread v start num cur m)
  let ?p = "32 * cur_pos m cur" and ?B = "bm_set (cur_bitmap m cur)"
  note step = mark_free_words.simps [of bread v start num cur m]
  show ?case
  proof (cases "num \<ge> 32")
    case False
    then show ?thesis
      using 1(3) by (simp add: step free_words_result_def)
  next
    case True
    then have more: "cur_pos m cur < length (vcbBitmap m)"
      using 1(4) by linarith
    note nx = next_bitmap_word_spec [OF 1(2,3) more, of bread]
    show ?thesis
    proof (cases "next_bitmap_word bread HFS_ALLOC_IGNORE_RESERVED True start cur m")
      case (Inl r)
      then show ?thesis
        using nx True by (auto simp: step free_words_result_def free_fault_def intro!: exI [of _ 0])
    next
      case (Inr r)
      obtain s1 c1 m1 where r: "r = (s1, c1, m1)"
        by (cases r)
      have n1: "bm_only m m1" "cur_ok m1 s1 c1" "0 < wordsLeft c1" "cur_pos m1 c1 = cur_pos m cur"
        "cur_bitmap m1 c1 = cur_bitmap m cur"
        using nx Inr r by simp_all
      have full: "load_word c1 = kAllBitsSetInWord \<longleftrightarrow> run ?p 32 \<subseteq> ?B"
        using word_full_allocated [OF n1(2,3)] n1(4,5) by simp
      show ?thesis
      proof (cases "v \<and> load_word c1 \<noteq> kAllBitsSetInWord")
        case bad: True
        moreover have "run ?p 32 \<subseteq> run ?p num"
          using True by auto
        ultimately have "v \<and> \<not> run ?p num \<subseteq> ?B"
          using full by blast
        then have flt: "free_fault bread (v \<and> \<not> run ?p num \<subseteq> ?B) m EIO
            (ReleaseBitmapBlock (hfs_mark_inconsistent m1) (blockRef c1) (buffer c1) True)"
          by (rule free_fault_here [OF n1(1,2)])
        have "mark_free_words bread v start num cur m =
            Inl (EIO, ReleaseBitmapBlock (hfs_mark_inconsistent m1) (blockRef c1) (buffer c1) True)"
          unfolding step using bad Inr r True by simp
        then show ?thesis
          using flt free_fault_corruption(2) [OF n1(2) TrueI] n1(5)
          by (auto simp: free_words_result_def intro!: exI [of _ 0])
      next
        case okay: False
        define c2 where "c2 = step_word (store_word c1 0)"
        have c2: "cur_ok m1 s1 c2" "cur_pos m1 c2 = Suc (cur_pos m cur)"
          "bm_set (cur_bitmap m1 c2) = ?B - run ?p 32"
          using n1 bm_set_store_zero [OF n1(2,3)] by (simp_all add: c2_def cur_step)
        have c2_inside: "0 < currentWord c2"
          by (simp add: c2_def step_word_def)
        have eq: "mark_free_words bread v start num cur m = mark_free_words bread v s1 (num - 32) c2 m1"
          using True Inr r okay by (auto simp: step c2_def)
        note same = bm_only_same [OF n1(1)]
        have "free_words_result bread v m1 (?p + 32) (?B - run ?p 32) (num - 32) True
            (mark_free_words bread v s1 (num - 32) c2 m1)"
          using c2_inside "1.IH" [OF True Inr r [symmetric] refl okay, folded c2_def] c2 same 1(2,4) True
          by (simp add: add.commute)
        then show ?thesis
          unfolding eq using free_words_step [OF True n1(1)] okay full by blast
      qed
    qed
  qed
qed

lemma mark_free_rest_spec:
  assumes "bitmap_ok m" "cur_ok m start cur" "num < 32" "32 * cur_pos m cur + num \<le> 32 * length (vcbBitmap m)"
  shows "case mark_free_rest bread v start num cur m of
      Inl (err, m') \<Rightarrow>
        free_fault bread (v \<and> \<not> run (32 * cur_pos m cur) num \<subseteq> bm_set (cur_bitmap m cur)) m err m' \<and>
        vcbBitmap m' = cur_bitmap m cur
    | Inr (cur', m') \<Rightarrow> bm_only m m' \<and> (\<exists>start'. cur_ok m' start' cur') \<and>
        (if num = 0 then cur' = cur else 0 < wordsLeft cur' \<and> cur_pos m' cur' = cur_pos m cur) \<and>
        bm_set (cur_bitmap m' cur') = bm_set (cur_bitmap m cur) - run (32 * cur_pos m cur) num \<and>
        (v \<longrightarrow> run (32 * cur_pos m cur) num \<subseteq> bm_set (cur_bitmap m cur))"
proof (cases "num = 0")
  case True
  then show ?thesis
    using assms(2) by (auto simp: mark_free_rest_def)
next
  case False
  then have more: "cur_pos m cur < length (vcbBitmap m)"
    using assms(4) by linarith
  let ?mask = "not (drop_bit num kAllBitsSetInWord)" and ?R = "run (32 * cur_pos m cur) num"
  note nx = next_bitmap_word_spec [OF assms(1,2) more, of bread]
  show ?thesis
  proof (cases "next_bitmap_word bread HFS_ALLOC_IGNORE_RESERVED True start cur m")
    case (Inl r)
    then show ?thesis
      using nx False by (auto simp: mark_free_rest_def free_fault_def Let_def)
  next
    case (Inr r)
    obtain s1 c1 m1 where r: "r = (s1, c1, m1)"
      by (cases r)
    have n1: "bm_only m m1" "cur_ok m1 s1 c1" "0 < wordsLeft c1" "cur_pos m1 c1 = cur_pos m cur"
      "cur_bitmap m1 c1 = cur_bitmap m cur"
      using nx Inr r by simp_all
    have wb: "word_blocks (cur_pos m1 c1) ?mask = ?R"
      using word_blocks_first [OF assms(3)] n1(4) by simp
    have all: "and (load_word c1) ?mask = ?mask \<longleftrightarrow> ?R \<subseteq> bm_set (cur_bitmap m cur)"
      using word_all_allocated [OF n1(2,3), of ?mask] wb n1(5) by simp
    have clr: "bm_set (cur_bitmap m1 (store_word c1 (and (load_word c1) (not ?mask)))) = bm_set (cur_bitmap m cur) - ?R"
      using bm_set_store_and_not [OF n1(2,3), of ?mask] wb n1(5) by simp
    show ?thesis
    proof (cases "v \<and> and (load_word c1) ?mask \<noteq> ?mask")
      case bad: True
      then have "v \<and> \<not> ?R \<subseteq> bm_set (cur_bitmap m cur)"
        using all by blast
      then have "free_fault bread (v \<and> \<not> ?R \<subseteq> bm_set (cur_bitmap m cur)) m EIO
          (ReleaseBitmapBlock (hfs_mark_inconsistent m1) (blockRef c1) (buffer c1) True)"
        by (rule free_fault_here [OF n1(1,2)])
      moreover have "mark_free_rest bread v start num cur m =
          Inl (EIO, ReleaseBitmapBlock (hfs_mark_inconsistent m1) (blockRef c1) (buffer c1) True)"
        unfolding mark_free_rest_def Let_def using False Inr r bad by simp
      ultimately show ?thesis
        using free_fault_corruption(2) [OF n1(2) TrueI] n1(5) by simp
    next
      case okay: False
      then have "mark_free_rest bread v start num cur m =
          Inr (store_word c1 (and (load_word c1) (not ?mask)), m1)"
        unfolding mark_free_rest_def Let_def using False Inr r by auto
      moreover have "\<exists>start'. cur_ok m1 start' c1" "v \<longrightarrow> ?R \<subseteq> bm_set (cur_bitmap m cur)"
        using n1(2) okay all by blast+
      ultimately show ?thesis
        using clr n1 False by simp
    qed
  qed
qed

text \<open>The word before the current one, and the current word, are in the cursor's piece.\<close>

lemma last_word_end: "0 < (p :: nat) \<Longrightarrow> (32 * p - 1) div 32 = p - 1"
  by (cases p) simp_all

lemma piece_of_word:
  fixes b w ref i :: nat
  assumes "b div 32 = ref * w + i" "i < w"
  shows "b div (32 * w) = ref"
proof -
  have "b div (32 * w) = (b div 32) div w"
    by (rule div_mult2_eq)
  also have "\<dots> = ref"
    using assms by simp
  finally show ?thesis .
qed

lemma cur_piece_before:
  assumes "cur_ok m start cur" "0 < currentWord cur" "b div 32 = cur_pos m cur - 1"
  shows "b div (32 * words_per_block m) = blockRef cur"
  by (rule piece_of_word [of _ _ _ "currentWord cur - 1"]) (use assms cur_okD(2) [OF assms(1)] in \<open>simp_all add: cur_pos_def\<close>)

lemma cur_piece_at:
  assumes "cur_ok m start cur" "0 < wordsLeft cur" "b div 32 = cur_pos m cur"
  shows "b div (32 * words_per_block m) = blockRef cur"
  by (rule piece_of_word [of _ _ _ "currentWord cur"]) (use assms cur_okD(2) [OF assms(1)] in \<open>simp_all add: cur_pos_def\<close>)

text \<open>The outcome of clearing the bits of the run from \<open>start\<close>, first, whole and last words together.\<close>

definition free_result ::
  "(nat \<Rightarrow> hfs_err) \<Rightarrow> bool \<Rightarrow> hfsmount \<Rightarrow> nat \<Rightarrow> nat \<Rightarrow>
   hfs_err \<times> hfsmount + bitmap_cursor \<times> hfsmount \<Rightarrow> bool" where
  "free_result bread v m start num r \<longleftrightarrow>
     (case r of
        Inl (err, m') \<Rightarrow> free_fault bread (v \<and> \<not> run start num \<subseteq> bm_set (vcbBitmap m)) m err m' \<and>
          (\<exists>k\<le>num. bm_set (vcbBitmap m') = bm_set (vcbBitmap m) - run start k)
      | Inr (cur3, m3) \<Rightarrow> bm_only m m3 \<and> (\<exists>start'. cur_ok m3 start' cur3) \<and>
          (start + num - 1) div (32 * words_per_block m) = blockRef cur3 \<and>
          bm_set (cur_bitmap m3 cur3) = bm_set (vcbBitmap m) - run start num \<and>
          (v \<longrightarrow> run start num \<subseteq> bm_set (vcbBitmap m)))"

lemma free_result_rest:
  assumes ok: "bitmap_ok m" and num: "0 < num" "start + num \<le> 32 * length (vcbBitmap m)"
    and i: "bm_only m m2" "cur_ok m2 s2 c2" "num2 < 32" "num2 \<le> num"
    and p: "num2 \<noteq> 0 \<Longrightarrow> 32 * cur_pos m2 c2 = start + (num - num2)"
    and a: "bm_set (cur_bitmap m2 c2) = bm_set (vcbBitmap m) - run start (num - num2)"
    and al: "v \<Longrightarrow> run start (num - num2) \<subseteq> bm_set (vcbBitmap m)"
    and last2: "num2 < num \<Longrightarrow> 0 < currentWord c2 \<and> (start + (num - num2) - 1) div 32 = cur_pos m2 c2 - 1"
  shows "free_result bread v m start num (mark_free_rest bread v s2 num2 c2 m2)"
proof -
  let ?B = "bm_set (vcbBitmap m)" and ?R = "run (32 * cur_pos m2 c2) num2"
  note same = bm_only_same [OF i(1)]
  have whole: "run start num = run start (num - num2) \<union> ?R"
    using p i(4) run_add [of start "num - num2" num2] by (cases "num2 = 0") simp_all
  have later: "?R \<subseteq> ?B - run start (num - num2) \<longleftrightarrow> ?R \<subseteq> ?B"
    using p by (cases "num2 = 0") auto
  have fits: "32 * cur_pos m2 c2 + num2 \<le> 32 * length (vcbBitmap m2)"
    using p i(4) num(2) cur_pos_le [OF i(2)] same by (cases "num2 = 0") simp_all
  note r = mark_free_rest_spec [OF _ i(2,3) fits, where bread = bread and v = v, unfolded a later same, OF ok]
  show ?thesis
  proof (cases "mark_free_rest bread v s2 num2 c2 m2")
    case (Inl e)
    obtain err m3 where e: "e = (err, m3)"
      by fastforce
    have r3: "free_fault bread (v \<and> \<not> ?R \<subseteq> ?B) m2 err m3" "vcbBitmap m3 = cur_bitmap m2 c2"
      using r Inl e by simp_all
    have "free_fault bread (v \<and> \<not> run start num \<subseteq> ?B) m err m3"
      by (rule free_fault_trans [OF i(1) r3(1)]) (use whole in blast)
    then show ?thesis
      using Inl e a r3(2) by (auto simp: free_result_def intro!: exI [of _ "num - num2"])
  next
    case (Inr q)
    obtain c3 m3 where q: "q = (c3, m3)"
      by fastforce
    have r3: "bm_only m2 m3" "\<exists>start'. cur_ok m3 start' c3"
      "if num2 = 0 then c3 = c2 else 0 < wordsLeft c3 \<and> cur_pos m3 c3 = cur_pos m2 c2"
      "bm_set (cur_bitmap m3 c3) = ?B - run start (num - num2) - ?R" "v \<longrightarrow> ?R \<subseteq> ?B"
      using r Inr q by simp_all
    have "(start + num - 1) div (32 * words_per_block m) = blockRef c3"
    proof (cases "num2 = 0")
      case True
      then show ?thesis
        using cur_piece_before [OF i(2)] last2 num r3(3) same(1) by simp
    next
      case False
      then have "(start + num - 1) div 32 = cur_pos m3 c3"
        using p r3(3) next_word_last [of num2 "32 * cur_pos m2 c2"] i(3,4) by simp
      then show ?thesis
        using cur_piece_at False r3(2,3) same(1) bm_only_same(1) [OF r3(1)] by metis
    qed
    moreover have "bm_set (cur_bitmap m3 c3) = ?B - run start num" "v \<longrightarrow> run start num \<subseteq> ?B"
      unfolding whole r3(4) using r3(5) al by blast+
    ultimately show ?thesis
      unfolding free_result_def using Inr q r3(2) bm_only_trans [OF i(1) r3(1)] by simp
  qed
qed

lemma free_result_words:
  assumes ok: "bitmap_ok m" and num: "0 < num" "start + num \<le> 32 * length (vcbBitmap m)"
    and c1: "cur_ok m start c1" "num1 \<le> num" "num1 \<noteq> 0 \<Longrightarrow> 32 * cur_pos m c1 = start + (num - num1)"
    "bm_set (cur_bitmap m c1) = bm_set (vcbBitmap m) - run start (num - num1)"
    "v \<Longrightarrow> run start (num - num1) \<subseteq> bm_set (vcbBitmap m)"
    "num1 < num \<Longrightarrow> 0 < currentWord c1 \<and> (start + (num - num1) - 1) div 32 = cur_pos m c1 - 1"
  shows "free_result bread v m start num
    (case mark_free_words bread v start num1 c1 m of
       Inl r \<Rightarrow> Inl r
     | Inr (start2, num2, cur2, m2) \<Rightarrow> mark_free_rest bread v start2 num2 cur2 m2)"
proof -
  let ?B = "bm_set (vcbBitmap m)" and ?p = "32 * cur_pos m c1"
  have fits: "?p + num1 \<le> 32 * length (vcbBitmap m)"
    using c1(2,3) num(2) cur_pos_le [OF c1(1)] by (cases "num1 = 0") simp_all
  have runs: "run start (num - num1 + k) = run start (num - num1) \<union> run ?p k" if "k \<le> num1" for k
    using c1(3) that by (cases "num1 = 0") (simp_all add: run_add)
  have later: "run ?p k \<subseteq> ?B - run start (num - num1) \<longleftrightarrow> run ?p k \<subseteq> ?B" if "k \<le> num1" for k
    using c1(3) that by (cases "num1 = 0") auto
  have whole: "run start num = run start (num - num1) \<union> run ?p num1"
    using runs [of num1] c1(2) by simp
  note w = mark_free_words_spec [OF ok c1(1) fits, of bread v, unfolded c1(4)]
  show ?thesis
  proof (cases "mark_free_words bread v start num1 c1 m")
    case (Inl e)
    obtain err m2 where e: "e = (err, m2)"
      by fastforce
    have f: "free_fault bread (v \<and> \<not> run ?p num1 \<subseteq> ?B) m err m2"
      using w Inl e later [of num1] by (simp add: free_words_result_def)
    obtain k where k: "k \<le> num1" "bm_set (vcbBitmap m2) = ?B - run start (num - num1) - run ?p k"
      using w Inl e by (auto simp: free_words_result_def)
    then have "bm_set (vcbBitmap m2) = ?B - run start (num - num1 + k)" "num - num1 + k \<le> num"
      unfolding runs [OF k(1)] using c1(2) k by auto
    moreover have "free_fault bread (v \<and> \<not> run start num \<subseteq> ?B) m err m2"
      by (rule free_fault_trans [OF bm_only_refl f]) (use whole in blast)
    ultimately show ?thesis
      using Inl e by (auto simp: free_result_def)
  next
    case (Inr q)
    obtain s2 num2 c2 m2 where q: "q = (s2, num2, c2, m2)"
      by (cases q)
    have i: "bm_only m m2" "cur_ok m2 s2 c2" "num2 < 32" "num2 \<le> num1" "32 * cur_pos m2 c2 + num2 = ?p + num1"
      "bm_set (cur_bitmap m2 c2) = ?B - run start (num - num1) - run ?p (num1 - num2)"
      "v \<Longrightarrow> run ?p (num1 - num2) \<subseteq> ?B" "0 < currentWord c1 \<or> 32 \<le> num1 \<Longrightarrow> 0 < currentWord c2"
      using w Inr q later [of "num1 - num2"] by (simp_all add: free_words_result_def)
    have sp: "run start (num - num2) = run start (num - num1) \<union> run ?p (num1 - num2)"
      using runs [of "num1 - num2"] i(4) c1(2) by simp
    have last2: "0 < currentWord c2 \<and> (start + (num - num2) - 1) div 32 = cur_pos m2 c2 - 1" if "num2 < num"
    proof (cases "num1 < 32")
      case True
      then have "num2 = num1" "c2 = c1" "m2 = m"
        using Inr q by (simp_all add: mark_free_words.simps [of bread v start num1])
      then show ?thesis
        using c1(6) that by simp
    next
      case False
      then have "0 < currentWord c2" "32 * cur_pos m2 c2 = start + (num - num2)"
        using i(3-5,8) c1(2,3) by auto
      then show ?thesis
        using last_word_end [of "cur_pos m2 c2"] that by simp
    qed
    have "free_result bread v m start num (mark_free_rest bread v s2 num2 c2 m2)"
    proof (rule free_result_rest [OF ok num i(1-3) _ _ _ _ last2])
      show "num2 \<le> num" "num2 \<noteq> 0 \<Longrightarrow> 32 * cur_pos m2 c2 = start + (num - num2)"
        using i(4,5) c1(2,3) by (cases "num1 = 0"; simp)+
      show "bm_set (cur_bitmap m2 c2) = ?B - run start (num - num2)"
        "v \<Longrightarrow> run start (num - num2) \<subseteq> ?B"
        unfolding sp i(6) using i(7) c1(5) by blast+
    qed simp_all
    then show ?thesis
      using Inr q by simp
  qed
qed

lemma free_result_all:
  assumes ok: "bitmap_ok m" and num: "0 < num" "start + num \<le> 32 * length (vcbBitmap m)"
    and c0: "cur_ok m start c0" "0 < wordsLeft c0" "cur_pos m c0 = start div 32" "cur_bitmap m c0 = vcbBitmap m"
  shows "free_result bread v m start num
    (case mark_free_first v (start mod 32) num c0 m of
       Inl r \<Rightarrow> Inl r
     | Inr (num1, cur1) \<Rightarrow>
         (case mark_free_words bread v start num1 cur1 m of
            Inl r \<Rightarrow> Inl r
          | Inr (start2, num2, cur2, m2) \<Rightarrow> mark_free_rest bread v start2 num2 cur2 m2))"
proof -
  note f = mark_free_first_spec [OF c0(1-3), where v = v and num = num and bread = bread, unfolded c0(4)]
  show ?thesis
  proof (cases "mark_free_first v (start mod 32) num c0 m")
    case (Inl r)
    then show ?thesis
      using f by (auto simp: free_result_def intro: exI [of _ 0])
  next
    case (Inr q)
    then show ?thesis
      using f free_result_words [OF ok num, where bread = bread and v = v] by (auto split: prod.splits)
  qed
qed

lemma vcbBitmap_unmap [simp]: "vcbBitmap (hfs_unmap_free_extent m s n) = vcbBitmap m"
  by (simp add: hfs_unmap_free_extent_def Let_def)

definition free_done ::
  "hfsmount \<Rightarrow> bool \<Rightarrow> nat \<Rightarrow> nat \<Rightarrow> hfsmount \<Rightarrow> u32 list \<Rightarrow> bitmap_cursor \<Rightarrow> hfsmount \<Rightarrow> bool" where
  "free_done m v start num m2 buf cur m' \<longleftrightarrow> bm_only m m2 \<and>
     m' = case_prod (hfs_unmap_free_extent m2) (unmap_extent m start num buf (buffer cur)) \<and>
     bm_set (vcbBitmap m2) = bm_set (vcbBitmap m) - run start num \<and>
     (v \<longrightarrow> run start num \<subseteq> bm_set (vcbBitmap m))"

lemma BlockMarkFreeInternal_spec:
  assumes ok: "bitmap_ok m" and num: "0 < num" "start + num \<le> 32 * length (vcbBitmap m)"
  shows "case BlockMarkFreeInternal bread m start num v of (err, m') \<Rightarrow>
    if err = noErr then \<exists>m2 ref buf cur. free_done m v start num m2 buf cur m' \<and>
        ReadBitmapBlock bread m start HFS_ALLOC_IGNORE_RESERVED = Inr (ref, buf) \<and>
        (start + num - 1) div (32 * words_per_block m) = blockRef cur \<and>
        (\<exists>start' m3. bm_only m m3 \<and> cur_ok m3 start' cur \<and> cur_bitmap m3 cur = vcbBitmap m2)
    else free_fault bread (v \<and> (\<not> run start num \<subseteq> bm_set (vcbBitmap m) \<or> totalBlocks m < add32 start num)) m err m' \<and>
      (\<exists>k\<le>num. bm_set (vcbBitmap m') = bm_set (vcbBitmap m) - run start k)"
proof (cases "v \<and> add32 start num > totalBlocks m")
  case True
  then show ?thesis
    by (auto simp: BlockMarkFreeInternal_def free_fault_def mark_inconsistent_bm intro: exI [of _ 0])
next
  case inside: False
  have start: "start < 32 * length (vcbBitmap m)"
    using num by simp
  show ?thesis
  proof (cases "ReadBitmapBlock bread m start HFS_ALLOC_IGNORE_RESERVED")
    case (Inl err)
    note Read_err [OF this]
    moreover have "BlockMarkFreeInternal bread m start num v = (err, m)"
      unfolding BlockMarkFreeInternal_def using Inl inside by auto
    ultimately show ?thesis
      by (auto simp: free_fault_def intro: exI [of _ 0])
  next
    case (Inr r)
    obtain ref buf where r: "r = (ref, buf)"
      by fastforce
    define c0 where "c0 = cursor_at m start ref buf"
    note f = cur_fresh [OF ok start Inr [unfolded r], folded c0_def]
    define R where "R = (case mark_free_first v (start mod 32) num c0 m of
        Inl r \<Rightarrow> Inl r
      | Inr (num1, cur1) \<Rightarrow>
          (case mark_free_words bread v start num1 cur1 m of
             Inl r \<Rightarrow> Inl r
           | Inr (start2, num2, cur2, m2) \<Rightarrow> mark_free_rest bread v start2 num2 cur2 m2))"
    note sp = free_result_all [OF ok num f(1,4,2,3), where v = v and bread = bread, folded R_def, unfolded free_result_def]
    have eq: "BlockMarkFreeInternal bread m start num v =
        (case R of Inl r \<Rightarrow> r | Inr (cur3, m3) \<Rightarrow>
           (noErr, case_prod (hfs_unmap_free_extent (ReleaseBitmapBlock m3 (blockRef cur3) (buffer cur3) True))
              (unmap_extent m start num buf (buffer cur3))))"
      unfolding BlockMarkFreeInternal_def R_def c0_def using inside Inr r
      by (auto simp: Let_def split: sum.split prod.split)
    show ?thesis
    proof (cases R)
      case Inl2: (Inl e)
      obtain err m' where e: "e = (err, m')"
        by fastforce
      have "free_fault bread (v \<and> \<not> run start num \<subseteq> bm_set (vcbBitmap m)) m err m'"
        using sp Inl2 e by simp
      then show ?thesis
        using sp Inl2 e by (auto simp: eq free_fault_def)
    next
      case Inr2: (Inr q)
      obtain c3 m3 where q: "q = (c3, m3)"
        by fastforce
      obtain start' where c3: "cur_ok m3 start' c3"
        using sp Inr2 q by auto
      define m4 where "m4 = ReleaseBitmapBlock m3 (blockRef c3) (buffer c3) True"
      have "free_done m v start num m4 buf c3
          (case_prod (hfs_unmap_free_extent m4) (unmap_extent m start num buf (buffer c3)))"
        using sp Inr2 q bm_only_trans [OF _ Release_only [OF c3]]
        by (simp add: free_done_def m4_def cur_bitmap_def)
      moreover have "cur_bitmap m3 c3 = vcbBitmap m4"
        by (simp add: m4_def cur_bitmap_def)
      ultimately show ?thesis
        using Inr r c3 sp Inr2 q unfolding eq Inr2 q sum.case prod.case m4_def [symmetric]
        by (intro iffD2 [OF if_P] refl) blast
    qed
  qed
qed

end
