(* ===== verification/Bitmap_Trim.thy ===== *)
theory Bitmap_Trim
  imports Bitmap_Mark
begin

text \<open>
  What marking blocks in the volume bitmap promises: the effect of \<open>BlockMarkAllocatedInternal\<close> and
  \<open>BlockMarkFreeInternal\<close> on the set of allocated blocks, their failures, and the extent that
  freeing hands to the journal's trim list, which covers the freed run and otherwise only blocks that are
  neither allocated nor reserved.
\<close>

section \<open>The extent handed to the trim list\<close>

definition keep_out :: "nat \<Rightarrow> nat \<Rightarrow> rl_entry list \<Rightarrow> nat \<times> nat \<Rightarrow> bool" where
  "keep_out start num es mm \<longleftrightarrow>
     (\<forall>e\<in>set es. (rl_start e < int start \<longrightarrow> rl_end e < int (fst mm)) \<and>
        (int (add32 start num) \<le> rl_end e \<longrightarrow> int (snd mm) \<le> rl_start e))"

lemma unmap_bounds_mono:
  assumes "entries_ok es"
  shows "fst mm \<le> fst (unmap_bounds start num es mm) \<and> snd (unmap_bounds start num es mm) \<le> snd mm"
  using assms
proof (induction start num es mm rule: unmap_bounds.induct)
  case (2 start num rng rngs mn mx)
  then have "entries_ok rngs"
    by (simp add: entries_ok_def)
  from "2.IH" [OF this] show ?case
    by (auto split: if_splits)
qed simp

lemma unmap_bounds_keep_out:
  assumes "entries_ok es"
  shows "keep_out start num es (unmap_bounds start num es mm)"
  using assms
proof (induction start num es mm rule: unmap_bounds.induct)
  case (2 start num rng rngs mn mx)
  then have ok: "entries_ok rngs" "0 \<le> rl_start rng" "rl_start rng \<le> rl_end rng"
    by (simp_all add: entries_ok_def)
  define mm' where "mm' = (if rl_start rng < int start \<and> rl_end rng \<ge> int mn then nat (rl_end rng + 1) else mn,
     if rl_end rng \<ge> int (add32 start num) \<and> rl_start rng < int mx then nat (rl_start rng) else mx)"
  have "fst mm' \<le> fst (unmap_bounds start num rngs mm')" "snd (unmap_bounds start num rngs mm') \<le> snd mm'"
    using unmap_bounds_mono [OF ok(1)] by blast+
  moreover have "rl_start rng < int start \<Longrightarrow> rl_end rng < int (fst mm')"
    "int (add32 start num) \<le> rl_end rng \<Longrightarrow> int (snd mm') \<le> rl_start rng"
    using ok(2,3) by (auto simp: mm'_def)
  moreover have "keep_out start num rngs (unmap_bounds start num rngs mm')"
    unfolding mm'_def by (rule "2.IH" [OF ok(1)])
  moreover have "unmap_bounds start num (rng # rngs) (mn, mx) = unmap_bounds start num rngs mm'"
    by (simp add: mm'_def)
  ultimately show ?case
    by (force simp: keep_out_def)
qed (simp add: keep_out_def)

lemma keep_out_mono:
  "keep_out start num es mm \<Longrightarrow> fst mm \<le> fst mm' \<Longrightarrow> snd mm' \<le> snd mm \<Longrightarrow> keep_out start num es mm'"
  by (force simp: keep_out_def)

lemma keep_out_block:
  "keep_out start num es mm \<Longrightarrow> add32 start num = start + num \<Longrightarrow>
   b < start \<and> fst mm \<le> b \<or> start + num \<le> b \<and> b < snd mm \<Longrightarrow> b \<notin> entry_blocks es"
  by (force simp: keep_out_def entry_blocks_def)

text \<open>The masks of neighbouring bits.\<close>

lemma high_bit_shift: "k < 32 \<Longrightarrow> bit (drop_bit k kHighBitInWordMask) n \<longleftrightarrow> n = 31 - k"
  by (auto simp: bit_drop_bit_eq bit_kHighBit)

lemma high_bit_up: "k < 32 \<Longrightarrow> push_bit 1 (drop_bit k kHighBitInWordMask) =
    (if k = 0 then 0 else drop_bit (k - 1) kHighBitInWordMask)"
  by (rule bit_word_eqI) (cases "k = 0"; simp only: bit_push_bit_iff possible_bit_word high_bit_shift; auto simp: high_bit_shift)

lemma high_bit_down: "k < 32 \<Longrightarrow> drop_bit 1 (drop_bit k kHighBitInWordMask) =
    (if k = 31 then 0 else drop_bit (k + 1) kHighBitInWordMask)"
  by (rule bit_word_eqI) (auto simp: bit_drop_bit_eq bit_kHighBit)

lemma high_bit_nonzero: "k < 32 \<Longrightarrow> drop_bit k kHighBitInWordMask \<noteq> 0"
  using high_bit_shift [of k "31 - k"] by auto

lemma low_bit_shift: "kLowBitInWordMask = drop_bit 31 kHighBitInWordMask"
  by (rule bit_word_eqI) (auto simp: high_bit_shift kLowBitInWordMask_def bit_1_iff)

lemma and_high_bit: "k < 32 \<Longrightarrow> and w (drop_bit k kHighBitInWordMask) \<noteq> 0 \<longleftrightarrow> bit w (31 - k)"
  using bit_eq_iff [of "and w (drop_bit k kHighBitInWordMask)" 0] by (auto simp: bit_and_iff high_bit_shift)

lemma and_high_bit_block:
  "k < 32 \<Longrightarrow> i < length ws \<Longrightarrow> and (ws ! i) (drop_bit k kHighBitInWordMask) \<noteq> 0 \<longleftrightarrow> 32 * i + k \<in> bm_set ws"
  by (simp add: and_high_bit in_bm_set)

text \<open>One step of either search, in terms of the position of the bit.\<close>

lemma unmap_backward_bit:
  assumes "k < 32"
  shows "unmap_backward buf mn word (drop_bit k kHighBitInWordMask) s c =
    (let word' = (if k = 0 then word - 1 else word); k' = (if k = 0 then 31 else k - 1)
     in if mn < s \<and> \<not> (k = 0 \<and> word = 0) \<and> and (buf ! word') (drop_bit k' kHighBitInWordMask) = 0
        then unmap_backward buf mn word' (drop_bit k' kHighBitInWordMask) (s - 1) (c + 1)
        else (s, c))"
  by (subst unmap_backward.simps, unfold high_bit_up [OF assms] Let_def low_bit_shift)
    (use assms in \<open>simp add: high_bit_nonzero\<close>)

lemma unmap_forward_bit:
  assumes "k < 32"
  shows "unmap_forward buf mx word left (drop_bit k kHighBitInWordMask) s c =
    (let word' = (if k = 31 then word + 1 else word); left' = (if k = 31 then left - 1 else left);
         k' = (if k = 31 then 0 else k + 1)
     in if add32 s c < mx \<and> \<not> (k = 31 \<and> left \<le> 1) \<and> and (buf ! word') (drop_bit k' kHighBitInWordMask) = 0
        then unmap_forward buf mx word' left' (drop_bit k' kHighBitInWordMask) s (c + 1)
        else c)"
  by (subst unmap_forward.simps, unfold high_bit_down [OF assms] Let_def)
    (use assms in \<open>simp add: high_bit_nonzero\<close>)

lemma unmap_backward_spec:
  assumes "k < 32" "s = base + 32 * word + k" "word < length buf"
  shows "case unmap_backward buf mn word (drop_bit k kHighBitInWordMask) s c of (s', c') \<Rightarrow>
    s' \<le> s \<and> s' + c' = s + c \<and> base \<le> s' \<and> (s' = s \<or> mn \<le> s') \<and> (\<forall>b. s' \<le> b \<and> b < s \<longrightarrow> b - base \<notin> bm_set buf)"
  using assms
proof (induction s arbitrary: word k c)
  case 0
  then show ?case
    unfolding unmap_backward_bit [OF 0(1)] Let_def by simp
next
  case (Suc s)
  define word' where "word' = (if k = 0 then word - 1 else word)"
  define k' where "k' = (if k = 0 then 31 else k - 1)"
  note eq = unmap_backward_bit [OF Suc.prems(1), of buf mn word "Suc s" c, unfolded Let_def,
      folded word'_def k'_def]
  show ?case
  proof (cases "mn < Suc s \<and> \<not> (k = 0 \<and> word = 0) \<and> and (buf ! word') (drop_bit k' kHighBitInWordMask) = 0")
    case False
    then show ?thesis
      using Suc.prems(2) unfolding eq if_not_P [OF False] by auto
  next
    case True
    have k': "k' < 32" "s = base + 32 * word' + k'" "word' < length buf"
      using Suc.prems True by (auto simp: k'_def word'_def)
    have "s - base \<notin> bm_set buf"
      using and_high_bit_block [OF k'(1,3)] True k'(2) by (simp add: add.assoc)
    moreover have "b < Suc s \<longleftrightarrow> b < s \<or> b = s" for b
      by linarith
    ultimately show ?thesis
      using Suc.IH [OF k', of "c + 1"] True unfolding eq if_P [OF True] by (auto split: prod.splits)
  qed
qed

lemma unmap_forward_spec:
  assumes "k < 32" "s + c = base + 32 * word + k + 1"
    "word + left = length buf" "0 < left" "base + 32 * length buf \<le> 4294967296"
  shows "let c' = unmap_forward buf mx word left (drop_bit k kHighBitInWordMask) s c in
    c \<le> c' \<and> (c' = c \<or> s + c' \<le> mx) \<and> s + c' \<le> base + 32 * length buf \<and>
    (\<forall>b. s + c \<le> b \<and> b < s + c' \<longrightarrow> b - base \<notin> bm_set buf)"
  using assms
proof (induction "base + 32 * length buf - (s + c)" arbitrary: word left k c)
  case 0
  then have "k = 31" "left \<le> 1"
    by linarith+
  then show ?case
    using 0 by (auto simp: unmap_forward_bit [of 31, simplified])
next
  case (Suc d)
  define word' where "word' = (if k = 31 then word + 1 else word)"
  define left' where "left' = (if k = 31 then left - 1 else left)"
  define k' where "k' = (if k = 31 then 0 else k + 1)"
  note eq = unmap_forward_bit [OF Suc.prems(1), of buf mx word left s c, unfolded Let_def,
      folded word'_def left'_def k'_def]
  show ?case
  proof (cases "add32 s c < mx \<and> \<not> (k = 31 \<and> left \<le> 1) \<and> and (buf ! word') (drop_bit k' kHighBitInWordMask) = 0")
    case False
    then show ?thesis
      using Suc.prems Suc.hyps(2) unfolding eq if_not_P [OF False] by auto
  next
    case True
    have k': "k' < 32" "s + (c + 1) = base + 32 * word' + k' + 1" "word' + left' = length buf" "0 < left'"
      using Suc.prems True by (auto simp: k'_def word'_def left'_def)
    then have "s + c = base + (32 * word' + k')" "word' < length buf" "s + c < 4294967296"
      using Suc.prems(5) by linarith+
    then have "s + c - base \<notin> bm_set buf" "s + c < mx"
      using and_high_bit_block [OF k'(1), of word' buf] True by (simp_all add: add32_eq)
    moreover have "s + c \<le> b \<longleftrightarrow> s + (c + 1) \<le> b \<or> b = s + c" for b
      by linarith
    moreover have "d = base + 32 * length buf - (s + (c + 1))"
      using Suc.hyps(2) by linarith
    ultimately show ?thesis
      using Suc.hyps(1) [OF _ k' Suc.prems(5)] unfolding eq if_P [OF True] by (auto simp: Let_def)
  qed
qed

lemma buffer_piece:
  assumes "cur_ok m start cur" "i < 32 * words_per_block m"
  shows "i \<in> bm_set (buffer cur) \<longleftrightarrow> blockRef cur * (32 * words_per_block m) + i \<in> bm_set (cur_bitmap m cur)"
proof -
  define m' where "m' = ReleaseBitmapBlock m (blockRef cur) (buffer cur) True"
  note only = bm_only_same [OF Release_only [OF assms(1)], folded m'_def]
  have b: "vcbBitmap m' = cur_bitmap m cur" "length (vcbBitmap m') = length (vcbBitmap m)"
    "words_per_block m' = words_per_block m"
    using only by (simp_all add: m'_def cur_bitmap_def)
  have "bm_piece m' (blockRef cur) = buffer cur"
    using cur_okD [OF assms(1)] by (simp add: bm_piece_def m'_def ReleaseBitmapBlock_def)
  then show ?thesis
    using bm_set_piece [of "blockRef cur" m' i] assms(2) b cur_okD(3) [OF assms(1)] by simp
qed

lemma block_position:
  assumes "bitmap_ok m"
  shows "b = b div (32 * words_per_block m) * (32 * words_per_block m) +
    32 * (and b (bits_per_block m - 1) div 32) + b mod 32"
    "and b (bits_per_block m - 1) div 32 < words_per_block m"
proof -
  let ?w = "words_per_block m"
  note ok = bitmap_okD [OF assms]
  have a: "and b (bits_per_block m - 1) = b mod (32 * ?w)"
    using ok by simp
  have "b mod (32 * ?w) mod 32 = b mod 32"
    by (simp add: mod_mod_cancel)
  then have "b mod (32 * ?w) = 32 * (b mod (32 * ?w) div 32) + b mod 32"
    by (metis mult_div_mod_eq)
  then show "b = b div (32 * ?w) * (32 * ?w) + 32 * (and b (bits_per_block m - 1) div 32) + b mod 32"
    unfolding a using div_mult_mod_eq [of b "32 * ?w"] by linarith
  show "and b (bits_per_block m - 1) div 32 < ?w"
    unfolding a using ok(2) by (simp add: div_less_iff_less_mult mult.commute)
qed

lemma unmap_extent_spec:
  assumes ok: "bitmap_ok m" "reservations_ok m" and num: "0 < num" "start + num \<le> 32 * length (vcbBitmap m)"
    and small: "start + num < 4294967296"
    and before: "ref = start div (32 * words_per_block m)" "buf = bm_piece m ref"
    and cur: "bm_only m m3" "cur_ok m3 start' cur" "(start + num - 1) div (32 * words_per_block m) = blockRef cur"
    and ext: "unmap_extent m start num buf (buffer cur) = (us, uc)"
  shows "us \<le> start \<and> start + num \<le> us + uc \<and> us + uc \<le> 32 * length (vcbBitmap m) \<and>
    (\<forall>b. us \<le> b \<and> b < start \<longrightarrow> b \<notin> bm_set (vcbBitmap m)) \<and>
    (\<forall>b. start + num \<le> b \<and> b < us + uc \<longrightarrow> b \<notin> bm_set (cur_bitmap m3 cur)) \<and>
    (\<forall>b. us \<le> b \<and> b < us + uc \<and> b \<notin> run start num \<longrightarrow> b \<notin> reserved_blocks m 0)"
proof -
  let ?w = "words_per_block m" and ?lb = "start + num - 1"
  let ?T = "hfs_reserved_ranges m HFS_TENTATIVE_BLOCKS" and ?L = "hfs_reserved_ranges m HFS_LOCKED_BLOCKS"
  define mm1 where "mm1 = unmap_bounds start num ?T (0, UINT32_MAX)"
  define mm where "mm = unmap_bounds start num ?L mm1"
  have es: "entries_ok ?T" "entries_ok ?L"
    using ok(2) by (simp_all add: reservations_ok_def)
  have keep: "keep_out start num ?L mm" "keep_out start num ?T mm"
    unfolding mm_def using unmap_bounds_keep_out [OF es(2)]
      keep_out_mono [OF unmap_bounds_keep_out [OF es(1), of start num "(0, UINT32_MAX)", folded mm1_def]]
      unmap_bounds_mono [OF es(2), of mm1 start num] by blast+
  define word where "word = and start (bits_per_block m - 1) div 32"
  define lword where "lword = and ?lb (bits_per_block m - 1) div 32"
  have pos: "start = ref * (32 * ?w) + 32 * word + start mod 32" "word < ?w"
    "?lb = blockRef cur * (32 * ?w) + 32 * lword + ?lb mod 32" "lword < ?w"
    unfolding word_def lword_def before(1) cur(3) [symmetric] by (rule block_position [OF ok(1)])+
  have sub: "add32 start num = start + num" "sub32 (start + num) 1 = ?lb"
    using small num by (simp_all add: add32_eq sub32_eq)
  obtain s1 c1 where bkw: "unmap_backward buf (fst mm) word (drop_bit (start mod 32) kHighBitInWordMask) start num = (s1, c1)"
    by fastforce
  have "Suc ref * ?w \<le> length (vcbBitmap m)"
    using bm_piece_fits [OF ok(1), of start] num before by simp
  note piece = bm_set_piece [OF this] length_bm_piece [OF this]
  have b: "s1 \<le> start" "s1 + c1 = start + num" "ref * (32 * ?w) \<le> s1" "s1 = start \<or> fst mm \<le> s1"
    "\<forall>b. s1 \<le> b \<and> b < start \<longrightarrow> b - ref * (32 * ?w) \<notin> bm_set buf"
    using unmap_backward_spec [OF _ pos(1), where buf = buf and mn = "fst mm" and c = num] pos(2) before(2) piece(2) bkw by simp_all
  define c2 where "c2 = unmap_forward (buffer cur) (snd mm) lword (?w - lword) (drop_bit (?lb mod 32) kHighBitInWordMask) s1 c1"
  note same = bm_only_same [OF cur(1)]
  have len: "length (buffer cur) = ?w" "blockRef cur * (32 * ?w) + 32 * ?w \<le> 32 * length (vcbBitmap m)"
    using cur_okD(1,3) [OF cur(2)] same by simp_all
  have lb: "?lb mod 32 < 32" "s1 + c1 = blockRef cur * (32 * ?w) + 32 * lword + ?lb mod 32 + 1"
    using pos(3) b(2) num(1) by simp_all
  have lim: "lword + (?w - lword) = length (buffer cur)" "0 < ?w - lword"
    "blockRef cur * (32 * ?w) + 32 * length (buffer cur) \<le> 4294967296"
    using len pos(4) ok(1) by (simp_all add: bitmap_ok_def)
  note f = unmap_forward_spec [OF lb lim, of "snd mm", folded c2_def, unfolded Let_def len(1)]
  have res: "us = s1" "uc = c2"
    using ext unfolding unmap_extent_def Let_def mm1_def [symmetric] mm_def [symmetric] case_prod_unfold
      word_def [symmetric] sub lword_def [symmetric] bkw c2_def by auto
  have "b \<notin> bm_set (vcbBitmap m)" if "s1 \<le> b" "b < start" for b
  proof -
    define i where "i = b - ref * (32 * ?w)"
    have "start mod 32 < 32"
      by simp
    then have "b = ref * (32 * ?w) + i" "i < 32 * ?w"
      using that b(3) pos(1,2) unfolding i_def by linarith+
    moreover have "i \<notin> bm_set buf"
      using b(5) that by (simp add: i_def)
    ultimately show ?thesis
      using piece(1) [of i] before(2) by simp
  qed
  moreover have "b \<notin> bm_set (cur_bitmap m3 cur)" if "start + num \<le> b" "b < s1 + c2" for b
  proof -
    define i where "i = b - blockRef cur * (32 * ?w)"
    have "b = blockRef cur * (32 * ?w) + i" "i < 32 * ?w"
      using that f pos(3) num unfolding i_def by linarith+
    moreover have "i \<notin> bm_set (buffer cur)"
      using f that b(2) by (simp add: i_def)
    ultimately show ?thesis
      using buffer_piece [OF cur(2), of i] same by simp
  qed
  moreover have "b \<notin> reserved_blocks m 0" if "s1 \<le> b" "b < s1 + c2" "b \<notin> run start num" for b
  proof -
    have "b < start \<and> fst mm \<le> b \<or> start + num \<le> b \<and> b < snd mm"
      using that b(1,2,4) f by auto
    then have "b \<notin> entry_blocks ?L" "b \<notin> entry_blocks ?T"
      using keep_out_block [OF keep(1) sub(1)] keep_out_block [OF keep(2) sub(1)] by simp_all
    then show ?thesis
      by (simp add: reserved_blocks_def)
  qed
  ultimately show ?thesis
    using b(1,2) f len(2) unfolding res by auto
qed

section \<open>What marking blocks promises\<close>

lemma run_prefix: "k \<le> n \<Longrightarrow> run s k \<subseteq> run s n"
  by auto

lemma bitmap_ok_unmap: "bitmap_ok (hfs_unmap_free_extent m a b) = bitmap_ok m"
  by (simp add: bitmap_ok_def hfs_unmap_free_extent_def Let_def)

lemma no_flags: "\<not> ISSET 0 f"
  by (simp add: ISSET_def)

text \<open>A volume of 64 blocks whose bitmap is read in pieces of two words.\<close>

definition small_mount :: "u32 list \<Rightarrow> hfsmount" where
  "small_mount bitmap = plain_mount (32 * length bitmap) 8 bitmap"

lemma small_mount_ok: "even (length bitmap) \<Longrightarrow> length bitmap < 1000 \<Longrightarrow> bitmap_ok (small_mount bitmap)"
  by (auto simp: small_mount_def plain_mount_def bitmap_ok_def intro: exI [of _ 3])

lemma small_mount_sel [simp]:
  "vcbBitmap (small_mount bm) = bm" "totalBlocks (small_mount bm) = 32 * length bm"
  "hfs_reserved_ranges (small_mount bm) r = []" "words_per_block (small_mount bm) = 2"
  by (simp_all add: small_mount_def plain_mount_def)

lemma bm_set_zero: "bm_set (replicate n 0) = {}"
  by (auto simp: in_bm_set)

lemma bm_set_full: "bm_set (replicate n kAllBitsSetInWord) = {..<32 * n}"
  by (auto simp: in_bm_set kAllBits_mask bit_simps div_less_iff_less_mult mult.commute)

text \<open>
  C20. Marking a run allocated.  On success the allocated blocks are those there were and the run.
  On failure, which only a failed read of the bitmap causes, no allocated block is lost and no block
  outside the run is touched.  The well-formedness of the bitmap is kept, and nothing but the bitmap and
  the journal's trim list changes.
\<close>

theorem BlockMarkAllocated_correct:
  assumes "bitmap_ok m" "0 < num" "start + num \<le> 32 * length (vcbBitmap m)"
    and "BlockMarkAllocated bread m start num = (err, m')"
  shows "(if err = noErr then bm_set (vcbBitmap m') = bm_set (vcbBitmap m) \<union> run start num
     else err \<in> range bread \<and> bm_set (vcbBitmap m) \<subseteq> bm_set (vcbBitmap m') \<and>
       bm_set (vcbBitmap m') \<subseteq> bm_set (vcbBitmap m) \<union> run start num) \<and>
    bitmap_ok m' \<and> m' = m\<lparr>vcbBitmap := vcbBitmap m', jnl_trims := jnl_trims m'\<rparr>"
proof -
  have s: "bm_only (hfs_unmap_alloc_extent m start num) m'"
    "\<exists>k\<le>num. bm_set (vcbBitmap m') = bm_set (vcbBitmap m) \<union> run start k"
    "if err = noErr then bm_set (vcbBitmap m') = bm_set (vcbBitmap m) \<union> run start num else err \<in> range bread"
    using BlockMarkAllocatedInternal_spec [OF assms(1-3) no_flags, of bread] assms(4)
    by (simp_all add: BlockMarkAllocated_def)
  have frame: "m' = m\<lparr>vcbBitmap := vcbBitmap m', jnl_trims := jnl_trims m'\<rparr>"
    using s(1) by (auto simp: bm_only_def hfs_unmap_alloc_extent_def)
  have "bitmap_ok m'"
    using bm_only_same(4) [OF s(1)] assms(1) unmap_alloc_frame(2) by simp
  with s(2,3) frame show ?thesis
    using run_prefix [of _ num start] by auto
qed

theorem BlockMarkAllocated_correct_witness:
  "bm_set (vcbBitmap (snd (BlockMarkAllocated (\<lambda>_. noErr) (small_mount (replicate 2 0)) 30 4))) = run 30 4"
proof -
  obtain err m' where r: "BlockMarkAllocated (\<lambda>_. noErr) (small_mount (replicate 2 0)) 30 4 = (err, m')"
    by fastforce
  show ?thesis
    using BlockMarkAllocated_correct [OF small_mount_ok _ _ r] bm_set_zero r
    by (auto split: if_splits)
qed

text \<open>
  C21. Marking a run free.  On success every block of the run was allocated and exactly the run is taken
  away.  On failure no block outside the run changes, none becomes allocated, and the cause is a failed read
  or a run that was not wholly allocated or not inside the volume; in the latter case the error is EIO.
\<close>

theorem BlockMarkFree_correct:
  assumes "bitmap_ok m" "0 < num" "start + num \<le> 32 * length (vcbBitmap m)"
    and "BlockMarkFree bread m start num = (err, m')"
  shows "(if err = noErr then run start num \<subseteq> bm_set (vcbBitmap m) \<and>
       bm_set (vcbBitmap m') = bm_set (vcbBitmap m) - run start num
     else bm_set (vcbBitmap m) - run start num \<subseteq> bm_set (vcbBitmap m') \<and>
       bm_set (vcbBitmap m') \<subseteq> bm_set (vcbBitmap m) \<and>
       (err \<in> range bread \<or>
        err = EIO \<and> (totalBlocks m < add32 start num \<or> \<not> run start num \<subseteq> bm_set (vcbBitmap m)))) \<and>
    bitmap_ok m'"
proof (cases "err = noErr")
  case True
  then obtain m2 buf cur where d: "free_done m True start num m2 buf cur m'"
    using BlockMarkFreeInternal_spec [OF assms(1-3), where bread = bread and v = True] assms(4)
    by (auto simp: BlockMarkFree_def)
  then have "bitmap_ok m2"
    using bm_only_same(4) assms(1) by (auto simp: free_done_def)
  then show ?thesis
    using d True by (auto simp: free_done_def case_prod_unfold bitmap_ok_unmap)
next
  case False
  then have f: "free_fault bread (True \<and> (\<not> run start num \<subseteq> bm_set (vcbBitmap m) \<or> totalBlocks m < add32 start num)) m err m'"
    "\<exists>k\<le>num. bm_set (vcbBitmap m') = bm_set (vcbBitmap m) - run start k"
    using BlockMarkFreeInternal_spec [OF assms(1-3), where bread = bread and v = True] assms(4)
    by (auto simp: BlockMarkFree_def)
  have "bitmap_ok (hfs_mark_inconsistent m) = bitmap_ok m"
    by (simp add: bitmap_ok_def hfs_mark_inconsistent_def MarkVCBDirty_def)
  then have "bitmap_ok m'"
    using f(1) bm_only_same(4) assms(1) by (auto simp: free_fault_def)
  then show ?thesis
    using f False run_prefix [of _ num start] by (auto simp: free_fault_def)
qed

theorem BlockMarkFree_correct_witness:
  "fst (BlockMarkFree (\<lambda>_. noErr) (small_mount (replicate 2 kAllBitsSetInWord)) 30 4) = noErr \<and>
   bm_set (vcbBitmap (snd (BlockMarkFree (\<lambda>_. noErr) (small_mount (replicate 2 kAllBitsSetInWord)) 30 4))) = {..<30} \<union> {34..<64}"
proof -
  let ?m = "small_mount (replicate 2 kAllBitsSetInWord)"
  obtain err m' where r: "BlockMarkFree (\<lambda>_. noErr) ?m 30 4 = (err, m')"
    by fastforce
  have "run 30 4 \<subseteq> bm_set (vcbBitmap ?m)" "add32 30 4 = 34"
    by (auto simp: bm_set_full add32_def)
  then have "err = noErr" "bm_set (vcbBitmap m') = bm_set (vcbBitmap ?m) - run 30 4"
    using BlockMarkFree_correct [OF small_mount_ok _ _ r] by (auto split: if_splits)
  moreover have "bm_set (vcbBitmap ?m) - run 30 4 = {..<30} \<union> {34..<64}"
    by (auto simp: bm_set_full)
  ultimately show ?thesis
    using r by simp
qed



text \<open>The extent that is handed to the journal when a run has been freed.\<close>

lemma mark_free_trims:
  assumes "bitmap_ok m" "reservations_ok m" "0 < num" "start + num \<le> 32 * length (vcbBitmap m)"
    "start + num < 4294967296" and "BlockMarkFreeInternal bread m start num True = (noErr, m')"
  shows "\<exists>m2 us uc. m' = hfs_unmap_free_extent m2 us uc \<and> vcbBitmap m' = vcbBitmap m2 \<and> bm_only m m2 \<and>
    run start num \<subseteq> run us uc \<and> us + uc \<le> 32 * length (vcbBitmap m) \<and> run us uc \<inter> bm_set (vcbBitmap m') = {} \<and>
    (run us uc - run start num) \<inter> (bm_set (vcbBitmap m) \<union> reserved_blocks m 0) = {}"
proof -
  obtain m2 ref buf cur start' m3 where d: "free_done m True start num m2 buf cur m'"
    "ReadBitmapBlock bread m start HFS_ALLOC_IGNORE_RESERVED = Inr (ref, buf)"
    "(start + num - 1) div (32 * words_per_block m) = blockRef cur"
    "bm_only m m3" "cur_ok m3 start' cur" "cur_bitmap m3 cur = vcbBitmap m2"
    using BlockMarkFreeInternal_spec [OF assms(1,3,4), where bread = bread and v = True] assms(6)
    by auto
  have start: "start < 32 * length (vcbBitmap m)"
    using assms(3,4) by simp
  note rd = Read_IGNORE [OF assms(1) start d(2)]
  obtain us uc where ext: "unmap_extent m start num buf (buffer cur) = (us, uc)"
    by fastforce
  note u = unmap_extent_spec [OF assms(1-5) rd(1,2) d(4,5,3) ext, unfolded d(6)]
  have m': "m' = hfs_unmap_free_extent m2 us uc" "bm_only m m2"
    "bm_set (vcbBitmap m2) = bm_set (vcbBitmap m) - run start num"
    using d(1) ext by (simp_all add: free_done_def)
  have old: "b \<notin> bm_set (vcbBitmap m)" if "b \<in> run us uc" "b \<notin> run start num" for b
    using u that m'(3) by (cases "b < start") auto
  have "run start num \<subseteq> run us uc"
    using u by auto
  moreover have "run us uc \<inter> bm_set (vcbBitmap m') = {}"
    using old m' by (auto simp: m'(1))
  moreover have "(run us uc - run start num) \<inter> (bm_set (vcbBitmap m) \<union> reserved_blocks m 0) = {}"
    using old u by auto
  ultimately show ?thesis
    using m'(1,2) u by (intro exI [of _ m2] exI [of _ us] exI [of _ uc]) simp
qed



section \<open>The bitmap as a store of blocks\<close>

text \<open>A request: the outcome of the buffer reads, and a run of blocks.\<close>

type_synonym mark_request = "(nat \<Rightarrow> hfs_err) \<times> nat \<times> nat"

definition request_ok :: "mark_request \<Rightarrow> hfsmount \<Rightarrow> bool" where
  "request_ok r m \<longleftrightarrow> 0 < snd (snd r) \<and> fst (snd r) + snd (snd r) \<le> 32 * length (vcbBitmap m)"

definition request_blocks :: "mark_request \<Rightarrow> nat set" where
  "request_blocks r = run (fst (snd r)) (snd (snd r))"

definition mark_request :: "mark_request \<Rightarrow> hfsmount \<Rightarrow> hfs_err \<times> hfsmount" where
  "mark_request r m = BlockMarkAllocated (fst r) m (fst (snd r)) (snd (snd r))"

definition free_request :: "mark_request \<Rightarrow> hfsmount \<Rightarrow> hfs_err \<times> hfsmount" where
  "free_request r m = BlockMarkFree (fst r) m (fst (snd r)) (snd (snd r))"

lemma mark_request_spec:
  assumes "bitmap_ok m" "request_ok r m" "fst (mark_request r m) = noErr"
  shows "bitmap_ok (snd (mark_request r m))"
    "bm_set (vcbBitmap (snd (mark_request r m))) = bm_set (vcbBitmap m) \<union> request_blocks r"
proof -
  obtain bread start num where r: "r = (bread, start, num)"
    by (cases r)
  obtain err m' where e: "BlockMarkAllocatedInternal bread m start num 0 = (err, m')"
    by fastforce
  have s: "bm_only (hfs_unmap_alloc_extent m start num) m'" "err = noErr"
    "bm_set (vcbBitmap m') = bm_set (vcbBitmap m) \<union> run start num"
    using BlockMarkAllocatedInternal_spec [OF assms(1) _ _ no_flags, of num start bread] assms(2,3) e
    by (auto simp: r request_ok_def mark_request_def BlockMarkAllocated_def)
  then show "bitmap_ok (snd (mark_request r m))"
    "bm_set (vcbBitmap (snd (mark_request r m))) = bm_set (vcbBitmap m) \<union> request_blocks r"
    using e bm_only_same(4) [OF s(1)] assms(1)
    by (simp_all add: r mark_request_def BlockMarkAllocated_def request_blocks_def unmap_alloc_frame)
qed

lemma free_request_spec:
  assumes "bitmap_ok m" "request_ok r m" "fst (free_request r m) = noErr"
  shows "bitmap_ok (snd (free_request r m))"
    "bm_set (vcbBitmap (snd (free_request r m))) = bm_set (vcbBitmap m) - request_blocks r"
proof -
  obtain bread start num where r: "r = (bread, start, num)"
    by (cases r)
  obtain err m' where e: "BlockMarkFreeInternal bread m start num True = (err, m')"
    by fastforce
  then obtain m2 buf cur where d: "free_done m True start num m2 buf cur m'"
    using BlockMarkFreeInternal_spec [OF assms(1), where num = num and start = start and bread = bread and v = True] assms(2,3)
    by (auto simp: r request_ok_def free_request_def BlockMarkFree_def)
  have "bitmap_ok m2"
    using d bm_only_same(4) assms(1) by (auto simp: free_done_def)
  then show "bitmap_ok (snd (free_request r m))"
    "bm_set (vcbBitmap (snd (free_request r m))) = bm_set (vcbBitmap m) - request_blocks r"
    using e d by (simp_all add: r free_request_def BlockMarkFree_def request_blocks_def free_done_def
        case_prod_unfold bitmap_ok_unmap)
qed

interpretation bm: block_store bitmap_ok "\<lambda>m. bm_set (vcbBitmap m)" request_blocks
  "\<lambda>r m. request_ok r m \<and> fst (mark_request r m) = noErr" "\<lambda>r m. snd (mark_request r m)"
  "\<lambda>r m. request_ok r m \<and> fst (free_request r m) = noErr" "\<lambda>r m. snd (free_request r m)"
  by unfold_locales (auto simp: mark_request_spec free_request_spec)

lemma mark_request_accepted:
  assumes "bitmap_ok m" "request_ok r m" "\<And>k. fst r k = noErr"
  shows "fst (mark_request r m) = noErr"
  using BlockMarkAllocatedInternal_spec [OF assms(1) _ _ no_flags, of "snd (snd r)" "fst (snd r)" "fst r"] assms(2,3)
  by (auto simp: request_ok_def mark_request_def BlockMarkAllocated_def split: if_splits prod.splits)

lemma free_request_accepted:
  assumes "bitmap_ok m" "request_ok r m" "\<And>k. fst r k = noErr" "request_blocks r \<subseteq> bm_set (vcbBitmap m)"
    "fst (snd r) + snd (snd r) \<le> totalBlocks m" "fst (snd r) + snd (snd r) < 4294967296"
  shows "fst (free_request r m) = noErr"
  using BlockMarkFreeInternal_spec [OF assms(1), where num = "snd (snd r)" and start = "fst (snd r)" and bread = "fst r" and v = True]
    assms(2-)
  by (auto simp: request_ok_def request_blocks_def free_request_def BlockMarkFree_def free_fault_def add32_eq
      split: if_splits prod.splits)

text \<open>
  C24. Allocating a free run of the volume and freeing it again restores the set of allocated blocks, and
  neither step fails when the bitmap can be read.
\<close>

theorem mark_free_roundtrip:
  assumes "bitmap_ok m" "0 < num" "start + num \<le> totalBlocks m" "start + num < 4294967296"
    and "\<And>k. bread k = noErr" and "run start num \<inter> bm_set (vcbBitmap m) = {}"
    and "BlockMarkAllocated bread m start num = (err1, m1)" "BlockMarkFree bread m1 start num = (err2, m2)"
  shows "err1 = noErr \<and> err2 = noErr \<and> bitmap_ok m2 \<and> bm_set (vcbBitmap m2) = bm_set (vcbBitmap m)"
proof -
  let ?r = "(bread, start, num)"
  have ok: "request_ok ?r m"
    using assms(1-3) by (simp add: request_ok_def bitmap_ok_def)
  have e1: "fst (mark_request ?r m) = noErr" "snd (mark_request ?r m) = m1" "err1 = noErr"
    using mark_request_accepted [OF assms(1) ok] assms(5,7) by (simp_all add: mark_request_def)
  note m1 = mark_request_spec [OF assms(1) ok e1(1), unfolded e1(2)]
  have tb: "totalBlocks m1 = totalBlocks m"
    using BlockMarkAllocatedInternal_spec [OF assms(1) _ _ no_flags, of num start bread] assms(1-3,7)
    by (auto simp: BlockMarkAllocated_def bm_only_def bitmap_ok_def hfs_unmap_alloc_extent_def)
  have ok1: "request_ok ?r m1"
    using m1(1) assms(2,3) tb by (simp add: request_ok_def bitmap_ok_def)
  have e2: "fst (free_request ?r m1) = noErr" "snd (free_request ?r m1) = m2" "err2 = noErr"
    using free_request_accepted [OF m1(1) ok1] assms(3-5,8) tb m1(2)
    by (simp_all add: free_request_def request_blocks_def)
  then show ?thesis
    using bm.del_add_cancel [of m ?r] assms(1,6) ok ok1 e1 by (simp add: request_blocks_def)
qed

theorem mark_free_roundtrip_witness:
  "fst (BlockMarkFree (\<lambda>_. noErr) (snd (BlockMarkAllocated (\<lambda>_. noErr) (small_mount (replicate 2 0)) 30 4)) 30 4) = noErr"
  using mark_free_roundtrip [OF small_mount_ok [of "replicate 2 0"], where start = 30 and num = 4 and bread = "\<lambda>_. noErr"]
  by (simp add: bm_set_zero split: prod.splits) (metis prod.collapse)

end
