(* ===== verification/Summary_Table.thy ===== *)
theory Summary_Table
  imports Volume_Mount
begin

text \<open>
  The summary table of the volume bitmap (\<^verbatim>\<open>core/VolumeAllocation.c\<close>): one bit per
  \<open>vcbVBMIOSize\<close> bytes of the bitmap file, set when that piece of the bitmap is known to have no
  free block.  The table is a list of bytes with the least significant bit first.
\<close>

section \<open>Operations\<close>

abbreviation hfs_has_summary :: "hfsmount \<Rightarrow> bool" where
  "hfs_has_summary m \<equiv> ISSET (hfs_flags m) HFS_SUMMARY_TABLE"

definition hfs_get_summary_index :: "hfsmount \<Rightarrow> nat \<Rightarrow> hfs_err + nat" where
  "hfs_get_summary_index m block =
     (if hfs_has_summary m then
        if block \<ge> totalBlocks m then Inl EINVAL
        else if vcbVBMIOSize m = 0 then Inl EINVAL
        else Inr (block div mul32 (vcbVBMIOSize m) 8)
      else Inl EINVAL)"

definition hfs_get_summary_allocblock :: "hfsmount \<Rightarrow> nat \<Rightarrow> hfs_err + nat" where
  "hfs_get_summary_allocblock m summarybit =
     (let allocblk = mul32 summarybit (mul32 (vcbVBMIOSize m) 8)
      in if allocblk \<ge> totalBlocks m then Inl EINVAL else Inr allocblk)"

definition hfs_set_summary :: "hfsmount \<Rightarrow> nat \<Rightarrow> nat \<Rightarrow> hfs_err \<times> hfsmount" where
  "hfs_set_summary m summarybit inuse =
     (if vcbVBMIOSize m \<noteq> 0 then
        (noErr,
         if hfs_has_summary m then
           let byte_index = summarybit div 8;
               current_byte = hfs_summary_table m ! byte_index;
               bit_in_byte = summarybit mod 8;
               current_byte' = (if inuse \<noteq> 0 then or current_byte (push_bit bit_in_byte 1)
                                else and current_byte (not (push_bit bit_in_byte 1)))
           in m\<lparr>hfs_summary_table := (hfs_summary_table m)[byte_index := current_byte']\<rparr>
         else m)
      else (EINVAL, m))"

text \<open>\<open>hfs_check_summary\<close> returns the error code and the new value of \<open>*freeblocks\<close>.\<close>

definition hfs_check_summary :: "hfsmount \<Rightarrow> nat \<Rightarrow> nat \<Rightarrow> hfs_err \<times> nat" where
  "hfs_check_summary m allocblock freeblocks =
     (if vcbVBMIOSize m \<noteq> 0 then
        if hfs_has_summary m then
          case hfs_get_summary_index m allocblock of
            Inl _ \<Rightarrow> (EINVAL, 0)
          | Inr index \<Rightarrow>
              (noErr, if and (hfs_summary_table m ! (index div 8)) (push_bit (index mod 8) 1) \<noteq> 0
                      then 0 else 1)
        else (noErr, freeblocks)
      else (EINVAL, freeblocks))"

function hfs_release_bits :: "nat \<Rightarrow> nat \<Rightarrow> hfs_err \<Rightarrow> hfsmount \<Rightarrow> hfs_err \<times> hfsmount" where
  "hfs_release_bits current_bit end_bit err m =
     (if current_bit \<le> end_bit then
        let (err', m') = hfs_set_summary m current_bit 0
        in hfs_release_bits (current_bit + 1) end_bit err' m'
      else (err, m))"
  by pat_completeness auto
termination
  by (relation "measure (\<lambda>(current_bit, end_bit, err, m). Suc end_bit - current_bit)") auto

declare hfs_release_bits.simps [simp del]

definition hfs_release_summary :: "hfsmount \<Rightarrow> nat \<Rightarrow> nat \<Rightarrow> hfs_err \<times> hfsmount" where
  "hfs_release_summary m start_blk len =
     (let end_blk = sub32 (add32 start_blk len) 1
      in if hfs_has_summary m then
           case hfs_get_summary_index m start_blk of
             Inl err \<Rightarrow> (err, m)
           | Inr start_bit \<Rightarrow>
               (case hfs_get_summary_index m end_blk of
                  Inl err \<Rightarrow> (err, m)
                | Inr end_bit \<Rightarrow> hfs_release_bits start_bit end_bit noErr m)
         else (EINVAL, m))"

function hfs_find_summary_loop :: "hfsmount \<Rightarrow> nat \<Rightarrow> nat \<Rightarrow> nat \<Rightarrow> hfs_err \<times> nat" where
  "hfs_find_summary_loop m summary_cap bit_index newblock =
     (if bit_index \<le> summary_cap then
        if and (hfs_summary_table m ! (bit_index div 8)) (push_bit (bit_index mod 8) 1) \<noteq> 0
        then hfs_find_summary_loop m summary_cap (bit_index + 1) newblock
        else
          case hfs_get_summary_allocblock m bit_index of
            Inl err \<Rightarrow> (err, newblock)
          | Inr block \<Rightarrow> (noErr, block)
      else (ENOSPC, newblock))"
  by pat_completeness auto
termination
  by (relation "measure (\<lambda>(m, cap, bit_index, nb). Suc cap - bit_index)") auto

declare hfs_find_summary_loop.simps [simp del]

definition hfs_find_summary_free :: "hfsmount \<Rightarrow> nat \<Rightarrow> nat \<Rightarrow> hfs_err \<times> nat" where
  "hfs_find_summary_free m block newblock =
     (if hfs_has_summary m then
        case hfs_get_summary_index m (sub32 (allocLimit m) 1) of
          Inl err \<Rightarrow> (err, newblock)
        | Inr summary_cap \<Rightarrow>
            (case hfs_check_summary m block 0 of
               (err, maybe_has_blocks) \<Rightarrow>
                 if err \<noteq> noErr then (err, newblock)
                 else if maybe_has_blocks \<noteq> 0 then (noErr, block)
                 else
                   (case hfs_get_summary_index m block of
                      Inl err \<Rightarrow> (err, newblock)
                    | Inr bit_index \<Rightarrow> hfs_find_summary_loop m summary_cap bit_index newblock))
      else (ENOSPC, newblock))"

definition hfs_summary_bits :: "hfsmount \<Rightarrow> nat" where
  "hfs_summary_bits m =
     (if blockSize m \<noteq> vcbVBMIOSize m
      then (hfs_allocation_blocks m * blockSize m) mod 2 ^ 64 div vcbVBMIOSize m mod 2 ^ 32
      else hfs_allocation_blocks m)"

text \<open>
  \<open>hfs_init_summary\<close> with a bitmap cnode; \<open>hfs_malloc_zero_data\<close> returns zeroed memory.
\<close>

definition HFS_MIN_SUMMARY_BLOCKSIZE :: nat where
  "HFS_MIN_SUMMARY_BLOCKSIZE = 4096"

definition hfs_init_summary :: "hfsmount \<Rightarrow> hfs_err \<times> hfsmount" where
  "hfs_init_summary m =
     (if blockSize m < HFS_MIN_SUMMARY_BLOCKSIZE then (EINVAL, m)
      else
        let summary_size = hfs_summary_bits m;
            summary_size_bytes = summary_size div 8 + 1
        in (noErr, m\<lparr>hfs_summary_size := summary_size, hfs_summary_bytes := summary_size_bytes,
                     hfs_flags := or (hfs_flags m) HFS_SUMMARY_TABLE,
                     hfs_summary_table := replicate summary_size_bytes 0\<rparr>))"

definition hfs_rebuild_summary :: "hfsmount \<Rightarrow> hfs_err \<times> hfsmount" where
  "hfs_rebuild_summary m =
     (let new_summary_size = hfs_summary_bits m
      in if new_summary_size \<noteq> hfs_summary_size m then
           let summarybytes = new_summary_size div 8 + 1;
               copysize = (if summarybytes < hfs_summary_bytes m then summarybytes
                           else hfs_summary_bytes m);
               newtable = take copysize (hfs_summary_table m) @ replicate (summarybytes - copysize) 0
           in (noErr, m\<lparr>hfs_summary_table := newtable, hfs_summary_size := new_summary_size,
                        hfs_summary_bytes := summarybytes\<rparr>)
         else (noErr, m))"

section \<open>The table as a set of bits\<close>

definition summary_bit :: "hfsmount \<Rightarrow> nat \<Rightarrow> bool" where
  "summary_bit m i \<longleftrightarrow> i div 8 < length (hfs_summary_table m) \<and> bit (hfs_summary_table m ! (i div 8)) (i mod 8)"

text \<open>The table has a bit for every block of the volume.\<close>

abbreviation bits_per_iosize :: "hfsmount \<Rightarrow> nat" where
  "bits_per_iosize m \<equiv> vcbVBMIOSize m * 8"

definition summary_ok :: "hfsmount \<Rightarrow> bool" where
  "summary_ok m \<longleftrightarrow> hfs_has_summary m \<and> 0 < vcbVBMIOSize m \<and> bits_per_iosize m < 4294967296 \<and>
     totalBlocks m < 4294967296 \<and> 0 < allocLimit m \<and> allocLimit m \<le> totalBlocks m \<and>
     totalBlocks m \<le> 8 * length (hfs_summary_table m) * bits_per_iosize m"

lemma and_push_bit_1: "k < 8 \<Longrightarrow> and b (push_bit k 1) \<noteq> 0 \<longleftrightarrow> bit (b :: u8) k"
  by (simp add: push_bit_eq_mult and_exp_eq_0_iff_not_bit)

lemma summary_index: "summary_ok m \<Longrightarrow> block < totalBlocks m \<Longrightarrow>
   hfs_get_summary_index m block = Inr (block div bits_per_iosize m)"
  by (simp add: hfs_get_summary_index_def summary_ok_def mul32_eq)

lemma summary_index_bound:
  assumes "summary_ok m" "block < totalBlocks m"
  shows "block div bits_per_iosize m div 8 < length (hfs_summary_table m)"
proof -
  have "block < length (hfs_summary_table m) * 8 * bits_per_iosize m"
    using assms by (simp add: summary_ok_def mult.commute mult.left_commute)
  then show ?thesis
    by (simp add: less_mult_imp_div_less)
qed

lemma hfs_set_summary_spec:
  assumes "summary_ok m" "i div 8 < length (hfs_summary_table m)"
  shows "fst (hfs_set_summary m i v) = noErr" "summary_ok (snd (hfs_set_summary m i v))"
    "summary_bit (snd (hfs_set_summary m i v)) j \<longleftrightarrow> (if j = i then v \<noteq> 0 else summary_bit m j)"
proof -
  have h: "vcbVBMIOSize m \<noteq> 0" "hfs_has_summary m"
    using assms(1) by (auto simp: summary_ok_def)
  show "fst (hfs_set_summary m i v) = noErr" "summary_ok (snd (hfs_set_summary m i v))"
    using assms(1) h by (simp_all add: hfs_set_summary_def Let_def summary_ok_def)
  have ji: "j = i \<longleftrightarrow> j div 8 = i div 8 \<and> j mod 8 = i mod 8"
    by (metis div_mult_mod_eq)
  have "j mod 8 < 8" "i mod 8 < 8"
    by simp_all
  then show "summary_bit (snd (hfs_set_summary m i v)) j \<longleftrightarrow> (if j = i then v \<noteq> 0 else summary_bit m j)"
    using h assms(2) ji
    by (auto simp: hfs_set_summary_def Let_def summary_bit_def bit_simps nth_list_update split: if_splits)
qed

lemma hfs_set_summary_frame:
  "\<exists>t. snd (hfs_set_summary m i v) = m\<lparr>hfs_summary_table := t\<rparr> \<and> length t = length (hfs_summary_table m)"
proof (cases "vcbVBMIOSize m \<noteq> 0 \<and> hfs_has_summary m")
  case True
  then show ?thesis
    by (auto simp: hfs_set_summary_def Let_def)
next
  case False
  then have "snd (hfs_set_summary m i v) = m\<lparr>hfs_summary_table := hfs_summary_table m\<rparr>"
    by (auto simp: hfs_set_summary_def)
  then show ?thesis by blast
qed

lemma hfs_release_bits_frame:
  "\<exists>t. snd (hfs_release_bits i e err m) = m\<lparr>hfs_summary_table := t\<rparr> \<and> length t = length (hfs_summary_table m)"
proof (induction i e err m rule: hfs_release_bits.induct)
  case (1 i e err m)
  obtain t where t: "snd (hfs_set_summary m i 0) = m\<lparr>hfs_summary_table := t\<rparr>" "length t = length (hfs_summary_table m)"
    using hfs_set_summary_frame [of m i 0] by blast
  show ?case
  proof (cases "i \<le> e")
    case True
    obtain t' where "snd (hfs_release_bits (i + 1) e (fst (hfs_set_summary m i 0)) (snd (hfs_set_summary m i 0))) =
        (snd (hfs_set_summary m i 0))\<lparr>hfs_summary_table := t'\<rparr>" "length t' = length t"
      using "1.IH" [OF True refl prod.collapse] t by auto
    then show ?thesis
      using True t by (subst hfs_release_bits.simps) (auto simp: split_def Let_def)
  next
    case False
    then have "snd (hfs_release_bits i e err m) = m\<lparr>hfs_summary_table := hfs_summary_table m\<rparr>"
      by (simp add: hfs_release_bits.simps)
    then show ?thesis by blast
  qed
qed

lemma hfs_release_summary_frame:
  "\<exists>t. snd (hfs_release_summary m s n) = m\<lparr>hfs_summary_table := t\<rparr> \<and> length t = length (hfs_summary_table m)"
proof -
  have "\<exists>t. m = m\<lparr>hfs_summary_table := t\<rparr> \<and> length t = length (hfs_summary_table m)"
    by (rule exI [of _ "hfs_summary_table m"]) simp
  then show ?thesis
    using hfs_release_bits_frame by (auto simp: hfs_release_summary_def Let_def split: sum.splits)
qed

lemma hfs_release_bits_spec:
  assumes "summary_ok m" "e div 8 < length (hfs_summary_table m)"
  shows "(i \<le> e \<or> err = noErr \<longrightarrow> fst (hfs_release_bits i e err m) = noErr) \<and>
    summary_ok (snd (hfs_release_bits i e err m)) \<and>
    (summary_bit (snd (hfs_release_bits i e err m)) j \<longleftrightarrow> summary_bit m j \<and> \<not> (i \<le> j \<and> j \<le> e))"
  using assms
proof (induction i e err m rule: hfs_release_bits.induct)
  case (1 i e err m)
  show ?case
  proof (cases "i \<le> e")
    case True
    let ?m = "snd (hfs_set_summary m i 0)"
    have i: "i div 8 < length (hfs_summary_table m)"
      using True "1.prems"(2) div_le_mono [OF True, of 8] by linarith
    note s = hfs_set_summary_spec [OF "1.prems"(1) i]
    have "e div 8 < length (hfs_summary_table ?m)"
      using hfs_set_summary_frame [of m i 0] "1.prems"(2) by auto
    note IH = "1.IH" [OF True refl prod.collapse s(2) this]
    have "hfs_release_bits i e err m = hfs_release_bits (i + 1) e (fst (hfs_set_summary m i 0)) ?m"
      using True by (subst hfs_release_bits.simps) (simp add: split_def Let_def)
    then show ?thesis
      using IH s(1) s(3) [of 0 j] True by auto
  next
    case False
    then show ?thesis
      using "1.prems" by (simp add: hfs_release_bits.simps)
  qed
qed

lemma hfs_find_summary_loop_spec:
  assumes "summary_ok m" "cap div 8 < length (hfs_summary_table m)" "cap * bits_per_iosize m < totalBlocks m"
  shows "case hfs_find_summary_loop m cap i nb of (err, b) \<Rightarrow>
    (\<exists>k. err = noErr \<and> i \<le> k \<and> k \<le> cap \<and> b = k * bits_per_iosize m \<and> \<not> summary_bit m k \<and>
         (\<forall>j. i \<le> j \<and> j < k \<longrightarrow> summary_bit m j)) \<or>
    err = ENOSPC \<and> b = nb \<and> (\<forall>j. i \<le> j \<and> j \<le> cap \<longrightarrow> summary_bit m j)"
  using assms
proof (induction m cap i nb rule: hfs_find_summary_loop.induct)
  case (1 m cap i nb)
  show ?case
  proof (cases "i \<le> cap")
    case True
    have i: "i div 8 < length (hfs_summary_table m)"
      using "1.prems"(2) div_le_mono [OF True, of 8] by linarith
    have iff: "and (hfs_summary_table m ! (i div 8)) (push_bit (i mod 8) 1) \<noteq> 0 \<longleftrightarrow> summary_bit m i"
      using i by (simp only: summary_bit_def and_push_bit_1 mod_less_divisor zero_less_numeral simp_thms)
    have "i * bits_per_iosize m \<le> cap * bits_per_iosize m"
      using True by (rule mult_le_mono1)
    then have "i * bits_per_iosize m < totalBlocks m"
      using "1.prems"(3) by linarith
    then have alloc: "hfs_get_summary_allocblock m i = Inr (i * bits_per_iosize m)"
      using "1.prems"(1) by (simp add: hfs_get_summary_allocblock_def summary_ok_def mul32_eq)
    note step = hfs_find_summary_loop.simps [of m cap i nb, unfolded iff]
    show ?thesis
    proof (cases "summary_bit m i")
      case set: True
      note IH = "1.IH" [OF True set [folded iff] "1.prems"]
      have split: "(\<forall>j. i \<le> j \<and> P j \<longrightarrow> summary_bit m j) \<longleftrightarrow> (\<forall>j. i + 1 \<le> j \<and> P j \<longrightarrow> summary_bit m j)" for P
        using set by (metis add.commute le_add2 le_antisym not_less_eq_eq plus_1_eq_Suc le_trans)
      show ?thesis
        unfolding step using True set IH
        by (auto simp: split split: prod.splits dest: Suc_leD)
    next
      case False
      then show ?thesis
        unfolding step using True alloc by auto
    qed
  next
    case False
    then show ?thesis
      by (subst hfs_find_summary_loop.simps) auto
  qed
qed

section \<open>Properties\<close>

lemma run_chunks:
  assumes "0 < k" "0 < n"
  shows "(\<exists>b\<in>run s n. b div k = j) \<longleftrightarrow> s div k \<le> j \<and> j \<le> (s + n - 1) div k"
proof
  assume "\<exists>b\<in>run s n. b div k = j"
  then show "s div k \<le> j \<and> j \<le> (s + n - 1) div k"
    by (auto intro!: div_le_mono)
next
  assume j: "s div k \<le> j \<and> j \<le> (s + n - 1) div k"
  define b where "b = max s (j * k)"
  have "j * k \<le> (s + n - 1)"
    using j by (metis div_le_mono less_eq_div_iff_mult_less_eq assms(1))
  moreover have "s < Suc j * k"
    using j assms(1) div_less_iff_less_mult [of k s "Suc j"] by simp
  ultimately have "b \<in> run s n" "b div k = j"
    using assms by (auto simp: b_def max_def div_nat_eqI mult.commute)
  then show "\<exists>b\<in>run s n. b div k = j"
    by blast
qed

text \<open>
  C18.  Releasing an extent of the volume succeeds and clears exactly the summary bits of the
  pieces of the bitmap that the extent's blocks lie in; every other bit keeps its value.
\<close>

theorem hfs_release_summary_exact:
  assumes "summary_ok m" "0 < n" "s + n \<le> totalBlocks m"
  shows "fst (hfs_release_summary m s n) = noErr \<and> summary_ok (snd (hfs_release_summary m s n)) \<and>
    (\<forall>j. summary_bit (snd (hfs_release_summary m s n)) j \<longleftrightarrow>
         summary_bit m j \<and> \<not> (\<exists>b\<in>run s n. b div bits_per_iosize m = j))"
proof -
  have t: "totalBlocks m < 4294967296" "hfs_has_summary m" "0 < bits_per_iosize m"
    using assms(1) by (auto simp: summary_ok_def)
  have e: "sub32 (add32 s n) 1 = s + n - 1"
    using assms t by (simp add: add32_eq sub32_eq del: One_nat_def)
  have "s + n - 1 < totalBlocks m" "s < totalBlocks m"
    using assms by auto
  then have "hfs_release_summary m s n =
      hfs_release_bits (s div bits_per_iosize m) ((s + n - 1) div bits_per_iosize m) noErr m"
    using t assms(1) by (simp add: hfs_release_summary_def e summary_index del: One_nat_def)
  then show ?thesis
    using hfs_release_bits_spec [OF assms(1) summary_index_bound [OF assms(1) \<open>s + n - 1 < totalBlocks m\<close>]]
    by (simp add: run_chunks [OF t(3) assms(2)])
qed

definition summary_mount :: hfsmount where
  "summary_mount = (plain_mount 200 8 [])\<lparr>hfs_flags := HFS_SUMMARY_TABLE, hfs_summary_table := [0x0B]\<rparr>"

lemma summary_mount_ok: "summary_ok summary_mount"
  by (simp add: summary_mount_def plain_mount_def summary_ok_def hfs_flag_defs)

theorem hfs_release_summary_exact_witness:
  "summary_bit summary_mount 1 \<and> summary_bit summary_mount 3 \<and>
   \<not> summary_bit (snd (hfs_release_summary summary_mount 60 10)) 1 \<and>
   summary_bit (snd (hfs_release_summary summary_mount 60 10)) 3"
proof -
  have b: "summary_bit summary_mount 1" "summary_bit summary_mount 3" "totalBlocks summary_mount = 200"
    "bits_per_iosize summary_mount = 64"
    by (simp_all add: summary_mount_def plain_mount_def summary_bit_def)
  have "(\<exists>b\<in>run 60 10. b div 64 = 1)" "\<not> (\<exists>b\<in>run 60 10. b div 64 = (3::nat))"
    using run_chunks [of 64 10 60] by simp_all
  then show ?thesis
    using hfs_release_summary_exact [OF summary_mount_ok, of 10 60] b by simp
qed

lemma hfs_find_summary_free_spec:
  assumes "summary_ok m" "block < totalBlocks m"
  shows "case hfs_find_summary_free m block nb of (err, b) \<Rightarrow>
    (err = noErr \<and> block \<le> b \<and> b < totalBlocks m \<and> \<not> summary_bit m (b div bits_per_iosize m) \<and>
       (\<forall>c. block \<le> c \<and> c < b \<longrightarrow> summary_bit m (c div bits_per_iosize m))) \<or>
    (err = ENOSPC \<and> b = nb \<and>
       (\<forall>c. block \<le> c \<and> c < allocLimit m \<longrightarrow> summary_bit m (c div bits_per_iosize m)))"
proof -
  let ?k = "bits_per_iosize m"
  have h: "hfs_has_summary m" "vcbVBMIOSize m \<noteq> 0" "0 < ?k" "0 < allocLimit m"
    "allocLimit m \<le> totalBlocks m" "totalBlocks m < 4294967296"
    using assms(1) by (auto simp: summary_ok_def)
  define cap where "cap = (allocLimit m - 1) div ?k"
  have lim: "allocLimit m - 1 < totalBlocks m"
    using h by linarith
  then have capi: "hfs_get_summary_index m (sub32 (allocLimit m) 1) = Inr cap"
    using h by (simp add: sub32_eq summary_index [OF assms(1)] cap_def)
  have capb: "cap div 8 < length (hfs_summary_table m)" "cap * ?k < totalBlocks m"
    using summary_index_bound [OF assms(1) lim] lim div_times_less_eq_dividend [of "allocLimit m - 1" ?k]
    unfolding cap_def by linarith+
  define i where "i = block div ?k"
  note idx = summary_index [OF assms, folded i_def]
  have bnd: "i div 8 < length (hfs_summary_table m)"
    using summary_index_bound [OF assms] by (simp add: i_def)
  have chk: "hfs_check_summary m block 0 = (noErr, if summary_bit m i then 0 else 1)"
    using h bnd and_push_bit_1 [of "i mod 8" "hfs_summary_table m ! (i div 8)"]
    by (simp add: hfs_check_summary_def idx summary_bit_def)
  have mono: "c div ?k \<le> d div ?k" if "c \<le> d" for c d
    using that by (rule div_le_mono)
  show ?thesis
  proof (cases "summary_bit m i")
    case False
    then show ?thesis
      using h assms(2) by (auto simp add: hfs_find_summary_free_def capi chk i_def [symmetric] simp del: One_nat_def)
  next
    case True
    then have eq: "hfs_find_summary_free m block nb = hfs_find_summary_loop m cap i nb"
      using h by (simp add: hfs_find_summary_free_def capi chk idx del: One_nat_def)
    obtain err b where r: "hfs_find_summary_loop m cap i nb = (err, b)"
      by fastforce
    from hfs_find_summary_loop_spec [OF assms(1) capb, of i nb] r
    consider k where "err = noErr" "i \<le> k" "k \<le> cap" "b = k * ?k" "\<not> summary_bit m k" "\<forall>j. i \<le> j \<and> j < k \<longrightarrow> summary_bit m j"
      | "err = ENOSPC" "b = nb" "\<forall>j. i \<le> j \<and> j \<le> cap \<longrightarrow> summary_bit m j"
      by auto
    then show ?thesis
    proof cases
      case 1
      then have "i < k"
        using True by (cases "i = k") auto
      then have "block < b"
        using h(3) by (simp add: i_def 1 div_less_iff_less_mult)
      moreover have "summary_bit m (c div ?k)" if "block \<le> c" "c < b" for c
        using that 1(6) mono [OF that(1)] h(3) by (simp add: i_def 1(4) div_less_iff_less_mult)
      moreover have "b div ?k = k"
        using h(3) by (simp add: 1(4))
      moreover have "b < totalBlocks m"
        using capb(2) mult_le_mono1 [OF 1(3), of ?k] 1(4) by linarith
      ultimately show ?thesis
        using 1 by (simp add: eq r)
    next
      case 2
      have "summary_bit m (c div ?k)" if "block \<le> c" "c < allocLimit m" for c
        using that 2(3) mono [of block c] mono [of c "allocLimit m - 1"] by (simp add: i_def cap_def)
      then show ?thesis
        using 2 by (simp add: eq r)
    qed
  qed
qed

text \<open>
  C19.  The search of the summary table never skips a piece of the bitmap that may have a free
  block: the block it suggests is not before the block it starts at, its piece is not marked full,
  and every piece in between is; when it reports no space, every piece from the start to the
  allocation limit is marked full.
\<close>

theorem hfs_find_summary_free_sound:
  assumes "summary_ok m" "block < totalBlocks m"
  shows "case hfs_find_summary_free m block nb of (err, b) \<Rightarrow>
    (err = noErr \<and> block \<le> b \<and> \<not> summary_bit m (b div bits_per_iosize m) \<and>
       (\<forall>c. block \<le> c \<and> c < b \<longrightarrow> summary_bit m (c div bits_per_iosize m))) \<or>
    (err = ENOSPC \<and> b = nb \<and>
       (\<forall>c. block \<le> c \<and> c < allocLimit m \<longrightarrow> summary_bit m (c div bits_per_iosize m)))"
  using hfs_find_summary_free_spec [OF assms, of nb] by auto

theorem hfs_find_summary_free_sound_witness:
  "hfs_find_summary_free summary_mount 10 0 = (noErr, 128) \<and>
   {10..<128} \<subseteq> {c. summary_bit summary_mount (c div 64)}"
proof -
  have t: "totalBlocks summary_mount = 200" "bits_per_iosize summary_mount = 64"
    by (simp_all add: summary_mount_def plain_mount_def)
  have "hfs_find_summary_free summary_mount 10 0 = (noErr, 128)"
    by (simp add: hfs_find_summary_free_def hfs_get_summary_index_def hfs_check_summary_def
        hfs_find_summary_loop.simps hfs_get_summary_allocblock_def summary_mount_def plain_mount_def
        mul32_def sub32_def hfs_flag_defs)
  then show ?thesis
    using hfs_find_summary_free_sound [OF summary_mount_ok, of 10 0] t by auto
qed

end
