(* ===== verification/Bitmap_Query.thy ===== *)
theory Bitmap_Query
  imports Bitmap_Trim Summary_Table
begin

text \<open>
  Reading the volume bitmap: \<open>num_bits_set\<close>, \<open>hfs_isallocated_internal\<close>, \<open>hfs_count_allocated\<close>,
  \<open>hfs_isallocated\<close>, \<open>hfs_isallocated_scan\<close>, \<open>BlockMarkFreeUnused\<close> and \<open>MetaZoneFreeBlocks\<close> of
  \<^verbatim>\<open>core/VolumeAllocation.c\<close>.  The lemmas relate the counts to the set of blocks that are allocated or
  locked, piece by piece of the bitmap.
\<close>

section \<open>Counting the bits of a word\<close>

function num_bits_set :: "u32 \<Rightarrow> nat" where
  "num_bits_set num = (if num \<noteq> 0 then num_bits_set (and num (num - 1)) + 1 else 0)"
  by pat_completeness auto
termination
proof (relation "measure unat")
  fix num :: u32
  assume n: "num \<noteq> 0"
  have "uint (and num (num - 1)) \<le> uint (num - 1)"
    unfolding unsigned_and_eq by (rule AND_upper2) simp
  then have "unat (and num (num - 1)) \<le> unat (num - 1)"
    by (simp add: nat_mono flip: nat_uint_eq)
  also have "\<dots> < unat num"
    using n by (simp add: unat_gt_0 unat_minus_one)
  finally show "(and num (num - 1), num) \<in> measure unat"
    by simp
qed simp

declare num_bits_set.simps [simp del]

text \<open>Taking one away and masking clears the lowest bit that is set.\<close>

lemma clear_lowest_bit:
  fixes n :: nat
  assumes "bit n k" "\<And>j. j < k \<Longrightarrow> \<not> bit n j"
  shows "bit n j \<and> bit (n - 1) j \<longleftrightarrow> bit n j \<and> j \<noteq> k"
proof -
  have n: "n = 2 ^ j * (n div 2 ^ j) + n mod 2 ^ j" for j :: nat
    by simp
  consider "j < k" | "j = k" | "k < j"
    by linarith
  then show ?thesis
  proof cases
    case 1
    then show ?thesis
      using assms(2) by blast
  next
    case 2
    have "take_bit k n = 0"
      by (rule bit_eqI) (use assms(2) in \<open>auto simp: bit_take_bit_iff\<close>)
    then have m: "n = 2 ^ k * (n div 2 ^ k)"
      using n [of k] by (simp add: take_bit_eq_mod)
    have odd: "odd (n div 2 ^ k)"
      using assms(1) by (simp add: bit_iff_odd)
    then obtain a where a: "n div 2 ^ k = Suc a"
      by (cases "n div 2 ^ k") auto
    have "n - 1 = 2 ^ k * a + (2 ^ k - 1)"
      using m unfolding a by (simp add: algebra_simps)
    moreover have "(2 :: nat) ^ k - 1 < 2 ^ k"
      by simp
    ultimately have "(n - 1) div 2 ^ k = a"
      by (metis add.right_neutral div_less div_mult_self4 power_not_zero zero_neq_numeral)
    then show ?thesis
      using 2 odd a by (simp add: bit_iff_odd)
  next
    case 3
    have "bit (take_bit j n) k"
      using assms(1) 3 by (simp add: bit_take_bit_iff)
    then have "0 < n mod 2 ^ j"
      by (metis bit_0_eq bot_apply gr0I take_bit_eq_mod bot_bool_def)
    then have "n - 1 = 2 ^ j * (n div 2 ^ j) + (n mod 2 ^ j - 1)" "n mod 2 ^ j - 1 < 2 ^ j"
      using n [of j] by (auto intro: less_imp_diff_less)
    then have "(n - 1) div 2 ^ j = n div 2 ^ j"
      by (metis add.right_neutral div_less div_mult_self4 power_not_zero zero_neq_numeral)
    then show ?thesis
      using 3 by (simp add: bit_iff_odd)
  qed
qed

lemma num_bits_set_card: "num_bits_set num = card {j. bit num j}"
proof (induction num rule: num_bits_set.induct)
  case (1 num)
  show ?case
  proof (cases "num = 0")
    case True
    then show ?thesis
      by (simp add: num_bits_set.simps [of 0])
  next
    case False
    define k where "k = (LEAST j. bit num j)"
    obtain j where "bit num j"
      using False by (auto simp: bit_eq_iff)
    then have k: "bit num k"
      unfolding k_def by (rule LeastI)
    have low: "\<not> bit num j" if "j < k" for j
      using not_less_Least [of j "bit num"] that by (auto simp: k_def)
    have "bit (and num (num - 1)) j \<longleftrightarrow> bit num j \<and> j \<noteq> k" for j
    proof -
      have "unat (num - 1) = unat num - 1"
        using False by (simp add: unat_minus_one)
      moreover have "bit (unat w) i = bit w i" for w :: u32 and i
        by (simp add: bit_unsigned_iff)
      ultimately show ?thesis
        using clear_lowest_bit [of "unat num" k j] k low by (metis bit_and_iff)
    qed
    then have "{j. bit (and num (num - 1)) j} = {j. bit num j} - {k}"
      by auto
    moreover have "finite {j. bit num j}"
      by (rule finite_subset [of _ "{..<32}"]) (auto dest: bit_imp_le_length)
    ultimately show ?thesis
      using 1 False k num_bits_set.simps [of num] card_Suc_Diff1 [of "{j. bit num j}" k] by simp
  qed
qed

lemma word_blocks_bits: "word_blocks i w = (\<lambda>j. 32 * i + (31 - j)) ` {j. bit w j}"
proof (rule set_eqI, rule iffI)
  fix b
  assume "b \<in> word_blocks i w"
  then have i: "b div 32 = i" "bit w (31 - b mod 32)"
    by (auto simp: word_blocks_def)
  have "b mod 32 \<le> 31"
    using mod_less_divisor [of 32 b] by linarith
  then have "31 - (31 - b mod 32) = b mod 32"
    by simp
  then have "b = 32 * i + (31 - (31 - b mod 32))"
    unfolding i(1) [symmetric] by simp
  with i(2) show "b \<in> (\<lambda>j. 32 * i + (31 - j)) ` {j. bit w j}"
    by blast
next
  fix b
  assume "b \<in> (\<lambda>j. 32 * i + (31 - j)) ` {j. bit w j}"
  then obtain j where j: "b = 32 * i + (31 - j)" "bit w j"
    by blast
  define k where "k = 31 - j"
  have "j < 32"
    using bit_imp_le_length [OF j(2)] by simp
  then have "k < 32" "31 - k = j"
    by (simp_all add: k_def)
  then show "b \<in> word_blocks i w"
    using j by (simp add: word_blocks_def k_def [symmetric])
qed

lemma num_bits_set_blocks: "num_bits_set w = card (word_blocks i w)"
proof -
  have "inj_on (\<lambda>j. 32 * i + (31 - j)) {j. bit w j}"
  proof (rule inj_onI)
    fix x y
    assume a: "x \<in> {j. bit w j}" "y \<in> {j. bit w j}" "32 * i + (31 - x) = 32 * i + (31 - y)"
    then have "x < 32" "y < 32"
      using bit_imp_le_length [of w] by auto
    with a(3) show "x = y"
      by linarith
  qed
  then show ?thesis
    by (simp add: num_bits_set_card word_blocks_bits card_image)
qed

lemma word_blocks_empty: "word_blocks i w = {} \<longleftrightarrow> w = 0"
  using bit_imp_le_length [of w] by (force simp: word_blocks_bits bit_eq_iff)

section \<open>Scanning a range\<close>

definition test_word :: "bool \<Rightarrow> u32 \<Rightarrow> nat \<Rightarrow> nat + nat" where
  "test_word stop_on_first w cnt =
     (if w \<noteq> 0 then if stop_on_first then Inl 1 else Inr (cnt + num_bits_set w) else Inr cnt)"

definition isallocated_first ::
  "bool \<Rightarrow> nat \<Rightarrow> nat \<Rightarrow> bitmap_cursor \<Rightarrow> nat \<Rightarrow> nat + nat \<times> bitmap_cursor \<times> nat" where
  "isallocated_first stop_on_first firstBit num cur cnt =
     (if firstBit \<noteq> 0 then
        let (bitMask, numBits) = first_word_mask firstBit num
        in case test_word stop_on_first (and (load_word cur) bitMask) cnt of
             Inl c \<Rightarrow> Inl c
           | Inr c \<Rightarrow> Inr (num - numBits, step_word cur, c)
      else Inr (num, cur, cnt))"

function isallocated_words ::
  "(nat \<Rightarrow> hfs_err) \<Rightarrow> bool \<Rightarrow> nat \<Rightarrow> nat \<Rightarrow> bitmap_cursor \<Rightarrow> hfsmount \<Rightarrow> nat \<Rightarrow>
   hfs_err \<times> nat + nat \<times> nat \<times> bitmap_cursor \<times> nat" where
  "isallocated_words bread stop_on_first start num cur m cnt =
     (if num \<ge> 32 then
        case next_bitmap_word bread HFS_ALLOC_IGNORE_TENTATIVE False start cur m of
          Inl (err, m') \<Rightarrow> Inl (err, cnt)
        | Inr (start', cur', m') \<Rightarrow>
            (case test_word stop_on_first (load_word cur') cnt of
               Inl c \<Rightarrow> Inl (noErr, c)
             | Inr c \<Rightarrow> isallocated_words bread stop_on_first start' (num - 32) (step_word cur') m' c)
      else Inr (start, num, cur, cnt))"
  by pat_completeness auto
termination
  by (relation "measure (\<lambda>(bread, f, start, num, cur, m, c). num)") auto

declare isallocated_words.simps [simp del]

definition isallocated_rest ::
  "(nat \<Rightarrow> hfs_err) \<Rightarrow> bool \<Rightarrow> nat \<Rightarrow> nat \<Rightarrow> bitmap_cursor \<Rightarrow> hfsmount \<Rightarrow> nat \<Rightarrow> hfs_err \<times> nat" where
  "isallocated_rest bread stop_on_first start num cur m cnt =
     (if num \<noteq> 0 then
        let bitMask = not (drop_bit num kAllBitsSetInWord)
        in case next_bitmap_word bread HFS_ALLOC_IGNORE_TENTATIVE False start cur m of
             Inl (err, m') \<Rightarrow> (err, cnt)
           | Inr (start', cur', m') \<Rightarrow>
               (case test_word stop_on_first (and (load_word cur') bitMask) cnt of
                  Inl c \<Rightarrow> (noErr, c) | Inr c \<Rightarrow> (noErr, c))
      else (noErr, cnt))"

text \<open>
  The error and what is stored through \<open>allocCount\<close>, which is nothing when the first read fails.  No
  count exceeds the number of blocks asked for, so the 32-bit counter does not wrap.
\<close>

definition hfs_isallocated_internal ::
  "(nat \<Rightarrow> hfs_err) \<Rightarrow> hfsmount \<Rightarrow> nat \<Rightarrow> nat \<Rightarrow> bool \<Rightarrow> hfs_err \<times> nat option" where
  "hfs_isallocated_internal bread m start num stop_on_first =
     (case ReadBitmapBlock bread m start HFS_ALLOC_IGNORE_TENTATIVE of
        Inl err \<Rightarrow> (err, None)
      | Inr (ref, buf) \<Rightarrow>
          (case isallocated_first stop_on_first (start mod 32) num (cursor_at m start ref buf) 0 of
             Inl c \<Rightarrow> (noErr, Some c)
           | Inr (num1, cur1, c1) \<Rightarrow>
               (case isallocated_words bread stop_on_first start num1 cur1 m c1 of
                  Inl (err, c) \<Rightarrow> (err, Some c)
                | Inr (start2, num2, cur2, c2) \<Rightarrow>
                    (case isallocated_rest bread stop_on_first start2 num2 cur2 m c2 of
                       (err, c) \<Rightarrow> (err, Some c)))))"

definition hfs_count_allocated ::
  "(nat \<Rightarrow> hfs_err) \<Rightarrow> hfsmount \<Rightarrow> nat \<Rightarrow> nat \<Rightarrow> hfs_err \<times> nat option" where
  "hfs_count_allocated bread m start num = hfs_isallocated_internal bread m start num False"

definition hfs_isallocated :: "(nat \<Rightarrow> hfs_err) \<Rightarrow> hfsmount \<Rightarrow> nat \<Rightarrow> nat \<Rightarrow> nat" where
  "hfs_isallocated bread m start num =
     (case hfs_isallocated_internal bread m start num True of
        (err, allocCount) \<Rightarrow> if err \<noteq> noErr then 1 else the allocCount)"

text \<open>One block, in a buffer that is passed in or read here; a read error is returned as the result.\<close>

definition hfs_isallocated_scan ::
  "(nat \<Rightarrow> hfs_err) \<Rightarrow> hfsmount \<Rightarrow> nat \<Rightarrow> u32 list option \<Rightarrow> hfs_err + bool" where
  "hfs_isallocated_scan bread m start bp_buf =
     (let inuse = (\<lambda>buf. and (buf ! (and start (bits_per_block m - 1) div 32))
                         (fst (first_word_mask (start mod 32) 1)) \<noteq> 0)
      in case bp_buf of
           Some buf \<Rightarrow> Inr (inuse buf)
         | None \<Rightarrow>
             (case ReadBitmapBlock bread m start HFS_ALLOC_IGNORE_TENTATIVE of
                Inl err \<Rightarrow> Inl err
              | Inr (ref, buf) \<Rightarrow> Inr (inuse buf)))"

section \<open>Cursors that only read\<close>

text \<open>
  A cursor on a piece whose buffer shows, for its stretch of the volume, exactly the blocks that are
  taken under \<open>flags\<close>.
\<close>

definition scan_ok :: "hfsmount \<Rightarrow> u32 \<Rightarrow> nat \<Rightarrow> bitmap_cursor \<Rightarrow> bool" where
  "scan_ok m flags start cur \<longleftrightarrow>
     length (buffer cur) = words_per_block m \<and> currentWord cur + wordsLeft cur = words_per_block m \<and>
     blockRef cur = start div (32 * words_per_block m) \<and>
     Suc (blockRef cur) * words_per_block m \<le> length (vcbBitmap m) \<and>
     (\<forall>b<32 * words_per_block m. b \<in> bm_set (buffer cur) \<longleftrightarrow>
        blockRef cur * (32 * words_per_block m) + b \<in> taken_blocks m flags)"

lemma Release_clean [simp]: "ReleaseBitmapBlock m block buf False = m"
  by (simp add: ReleaseBitmapBlock_def)

lemma word_index:
  fixes s :: nat
  assumes "s = ref * (32 * w) + 32 * i + s mod 32"
  shows "s div 32 = ref * w + i"
proof -
  define r where "r = s mod 32"
  have "s = 32 * (ref * w + i) + r" "r < 32"
    using assms by (simp_all add: r_def algebra_simps)
  then show ?thesis
    by simp
qed

lemma scan_fresh:
  assumes "bitmap_ok m" "reservations_ok m" "start < 32 * length (vcbBitmap m)"
    "ReadBitmapBlock bread m start flags = Inr (ref, buf)"
  shows "scan_ok m flags start (cursor_at m start ref buf)"
    "cur_pos m (cursor_at m start ref buf) = start div 32" "0 < wordsLeft (cursor_at m start ref buf)"
proof -
  let ?w = "words_per_block m" and ?c = "cursor_at m start ref buf"
  note r = ReadBitmapBlock_spec [OF assms] and ok = bitmap_okD [OF assms(1)]
  have i: "start mod (32 * ?w) div 32 < ?w"
    using ok(2) by (simp add: div_less_iff_less_mult mult.commute)
  then show "0 < wordsLeft ?c"
    using ok(6) by (simp add: cursor_at_def Let_def)
  show "scan_ok m flags start ?c"
    using r i ok(6) by (simp add: scan_ok_def cursor_at_def Let_def)
  have "start = ref * (32 * ?w) + 32 * (start mod (32 * ?w) div 32) + start mod 32"
    using block_position [OF assms(1), of start] r(1) ok(6) by simp
  then have "start div 32 = ref * ?w + start mod (32 * ?w) div 32"
    using word_index [of start ref ?w] by simp
  then show "cur_pos m ?c = start div 32"
    using ok(6) by (simp add: cur_pos_def cursor_at_def Let_def)
qed

text \<open>The current word, as blocks.\<close>

lemma scan_word:
  assumes "scan_ok m flags start cur" "0 < wordsLeft cur"
  shows "word_blocks (cur_pos m cur) (load_word cur) = taken_blocks m flags \<inter> run (32 * cur_pos m cur) 32"
    "word_blocks (cur_pos m cur) (and (load_word cur) w) = taken_blocks m flags \<inter> word_blocks (cur_pos m cur) w"
    "cur_pos m cur < length (vcbBitmap m)"
proof -
  let ?w = "words_per_block m"
  have ok: "length (buffer cur) = ?w" "currentWord cur < ?w" "blockRef cur * ?w + ?w \<le> length (vcbBitmap m)"
    "\<And>b. b < 32 * ?w \<Longrightarrow> b \<in> bm_set (buffer cur) \<longleftrightarrow> blockRef cur * (32 * ?w) + b \<in> taken_blocks m flags"
    using assms by (auto simp: scan_ok_def)
  then show "cur_pos m cur < length (vcbBitmap m)"
    by (simp add: cur_pos_def)
  have key: "bit (load_word cur) (31 - b mod 32) \<longleftrightarrow> b \<in> taken_blocks m flags" if "b div 32 = cur_pos m cur" for b
  proof -
    define i where "i = 32 * currentWord cur + b mod 32"
    have "b mod 32 < 32"
      by simp
    then have i: "i div 32 = currentWord cur" "i mod 32 = b mod 32" "i < 32 * ?w"
      using ok(2) unfolding i_def by (simp, simp, linarith)
    have "b = 32 * cur_pos m cur + b mod 32"
      using that by (metis mult_div_mod_eq)
    then have b: "b = blockRef cur * (32 * ?w) + i"
      unfolding i_def cur_pos_def by (simp add: algebra_simps)
    have "i \<in> bm_set (buffer cur) \<longleftrightarrow> bit (load_word cur) (31 - b mod 32)"
      using i ok(1,2) by (simp add: in_bm_set)
    then show ?thesis
      using ok(4) [OF i(3)] b by simp
  qed
  have "b div 32 = i \<longleftrightarrow> b \<in> run (32 * i) 32" for b i :: nat
    using block_interval [of 0 32 b i] by simp
  then show "word_blocks (cur_pos m cur) (load_word cur) = taken_blocks m flags \<inter> run (32 * cur_pos m cur) 32"
    using key unfolding word_blocks_def by blast
  show "word_blocks (cur_pos m cur) (and (load_word cur) w) = taken_blocks m flags \<inter> word_blocks (cur_pos m cur) w"
    using key by (auto simp: word_blocks_def bit_and_iff)
qed

lemma scan_step:
  "0 < wordsLeft cur \<Longrightarrow> scan_ok m flags start (step_word cur) = scan_ok m flags start cur"
  "cur_pos m (step_word cur) = Suc (cur_pos m cur)"
  by (auto simp: scan_ok_def step_word_def cur_pos_def)

lemma scan_pos_le: "scan_ok m flags start cur \<Longrightarrow> cur_pos m cur \<le> length (vcbBitmap m)"
  by (auto simp: scan_ok_def cur_pos_def)

lemma next_scan_word_spec:
  assumes ok: "bitmap_ok m" "reservations_ok m" and cur: "scan_ok m flags start cur"
    and more: "cur_pos m cur < length (vcbBitmap m)"
  shows "case next_bitmap_word bread flags False start cur m of
      Inl (err, m') \<Rightarrow> err \<noteq> noErr \<and> err \<in> range bread \<and> m' = m
    | Inr (start', cur', m') \<Rightarrow> m' = m \<and> scan_ok m flags start' cur' \<and> 0 < wordsLeft cur' \<and>
        cur_pos m cur' = cur_pos m cur"
proof (cases "wordsLeft cur = 0")
  case False
  then show ?thesis
    using cur by (simp add: next_bitmap_word_def)
next
  case True
  let ?w = "words_per_block m" and ?s = "add32 start (bits_per_block m)"
  note b = bitmap_okD [OF ok(1)]
  have pos: "cur_pos m cur = Suc (blockRef cur) * ?w"
    using cur True by (simp add: cur_pos_def scan_ok_def)
  obtain n where n: "length (vcbBitmap m) = n * ?w"
    using b(5) by (metis dvdE mult.commute)
  then have "Suc (blockRef cur) < n"
    using more pos by (metis mult_less_cancel2)
  then have fits: "Suc (Suc (blockRef cur)) * ?w \<le> length (vcbBitmap m)"
    using n by (metis Suc_leI mult_le_mono1)
  have ref: "blockRef cur = start div (32 * ?w)"
    using cur by (simp add: scan_ok_def)
  then have "start < Suc (blockRef cur) * (32 * ?w)"
    using b(2) dividend_less_div_times [of "32 * ?w" start] by simp
  then have s: "start + 32 * ?w < 32 * length (vcbBitmap m)"
    using fits by (simp add: algebra_simps)
  moreover have "32 * length (vcbBitmap m) \<le> 4294967296"
    using ok(1) by (simp add: bitmap_ok_def)
  ultimately have s': "?s = start + 32 * ?w"
    using b(1) by (simp add: add32_eq)
  have ref': "?s div (32 * ?w) = Suc (blockRef cur)"
    unfolding s' ref using b(2) by (subst div_add_self2) simp_all
  show ?thesis
  proof (cases "ReadBitmapBlock bread m ?s flags")
    case (Inl err)
    then show ?thesis
      using True Read_err [OF Inl] by (simp add: next_bitmap_word_def Let_def)
  next
    case (Inr r)
    obtain ref1 buf1 where r: "r = (ref1, buf1)"
      by fastforce
    note rd = ReadBitmapBlock_spec [OF ok _ Inr [unfolded r]]
    define c1 where "c1 = \<lparr>blockRef = ref1, buffer = buf1, currentWord = 0, wordsLeft = ?w\<rparr>"
    have "scan_ok m flags ?s c1" "0 < wordsLeft c1" "cur_pos m c1 = cur_pos m cur"
      using rd s s' ref' b(2) pos by (simp_all add: scan_ok_def c1_def cur_pos_def)
    then show ?thesis
      using True Inr r by (simp add: next_bitmap_word_def Let_def c1_def)
  qed
qed

section \<open>What the counts mean\<close>

definition tally :: "bool \<Rightarrow> nat set \<Rightarrow> nat \<Rightarrow> nat \<Rightarrow> nat \<Rightarrow> nat \<Rightarrow> bool" where
  "tally stop T p n c c' \<longleftrightarrow>
     (if stop then c' = c \<and> T \<inter> run p n = {} else c' = c + card (T \<inter> run p n))"

lemma tally_none [simp]: "tally stop T p 0 c c' \<longleftrightarrow> c' = c"
proof -
  have "T \<inter> run p 0 = {}"
    by auto
  then show ?thesis
    by (simp add: tally_def)
qed

lemma tally_add:
  assumes "tally stop T p a c c1" "tally stop T (p + a) b c1 c2"
  shows "tally stop T p (a + b) c c2"
proof -
  have u: "T \<inter> run p (a + b) = (T \<inter> run p a) \<union> (T \<inter> run (p + a) b)"
    by (auto simp: run_add [symmetric])
  moreover have "card ((T \<inter> run p a) \<union> (T \<inter> run (p + a) b)) = card (T \<inter> run p a) + card (T \<inter> run (p + a) b)"
    by (rule card_Un_disjoint) auto
  ultimately show ?thesis
    using assms by (auto simp: tally_def)
qed

lemma test_word_spec:
  assumes "word_blocks i w = T \<inter> run p n"
  shows "case test_word stop w c of
      Inl c' \<Rightarrow> stop \<and> c' = 1 \<and> T \<inter> run p n \<noteq> {}
    | Inr c' \<Rightarrow> tally stop T p n c c'"
  using assms word_blocks_empty [of i w] num_bits_set_blocks [of w i] by (auto simp: test_word_def tally_def)

text \<open>The outcome of a scan of a range: finished, stopped at a taken block, or cut short by a read error.\<close>

definition scan_done :: "(nat \<Rightarrow> hfs_err) \<Rightarrow> bool \<Rightarrow> nat set \<Rightarrow> nat \<Rightarrow> nat \<Rightarrow> nat \<Rightarrow> hfs_err \<times> nat \<Rightarrow> bool" where
  "scan_done bread stop T p n c r \<longleftrightarrow>
     (if fst r = noErr then stop \<and> snd r = 1 \<and> T \<inter> run p n \<noteq> {} \<or> tally stop T p n c (snd r)
      else fst r \<in> range bread \<and> (\<exists>k\<le>n. tally stop T p k c (snd r)))"

lemma scan_done_none: "scan_done bread stop T p 0 c r \<longleftrightarrow> snd r = c \<and> (fst r = noErr \<or> fst r \<in> range bread)"
proof -
  have "T \<inter> run p 0 = {}"
    by auto
  then show ?thesis
    by (auto simp: scan_done_def)
qed

lemma scan_done_step:
  assumes "tally stop T p a c c1" "scan_done bread stop T (p + a) b c1 r"
  shows "scan_done bread stop T p (a + b) c r"
proof (cases "fst r = noErr")
  case True
  moreover have "T \<inter> run (p + a) b \<subseteq> T \<inter> run p (a + b)"
    by auto
  ultimately show ?thesis
    using assms tally_add [OF assms(1), of b "snd r"] by (auto simp: scan_done_def)
next
  case False
  then obtain k where "k \<le> b" "tally stop T (p + a) k c1 (snd r)"
    using assms(2) by (auto simp: scan_done_def)
  then have "tally stop T p (a + k) c (snd r)" "a + k \<le> a + b"
    using tally_add [OF assms(1)] by auto
  then have "\<exists>k\<le>a + b. tally stop T p k c (snd r)"
    by blast
  then show ?thesis
    using False assms(2) by (simp add: scan_done_def)
qed

lemma isallocated_rest_spec:
  assumes ok: "bitmap_ok m" "reservations_ok m" and cur: "scan_ok m HFS_ALLOC_IGNORE_TENTATIVE start cur"
    and num: "num < 32" "32 * cur_pos m cur + num \<le> 32 * length (vcbBitmap m)"
  shows "scan_done bread stop (taken_blocks m HFS_ALLOC_IGNORE_TENTATIVE) (32 * cur_pos m cur) num c
    (isallocated_rest bread stop start num cur m c)"
proof (cases "num = 0")
  case True
  then show ?thesis
    by (simp add: isallocated_rest_def scan_done_def)
next
  case False
  let ?mask = "not (drop_bit num kAllBitsSetInWord)" and ?T = "taken_blocks m HFS_ALLOC_IGNORE_TENTATIVE"
  have more: "cur_pos m cur < length (vcbBitmap m)"
    using num False by linarith
  note nx = next_scan_word_spec [OF ok cur more, of bread]
  show ?thesis
  proof (cases "next_bitmap_word bread HFS_ALLOC_IGNORE_TENTATIVE False start cur m")
    case (Inl r)
    then show ?thesis
      using nx False by (auto simp: isallocated_rest_def scan_done_def intro: exI [of _ 0])
  next
    case (Inr r)
    obtain s1 c1 m1 where r: "r = (s1, c1, m1)"
      by (cases r)
    have n1: "scan_ok m HFS_ALLOC_IGNORE_TENTATIVE s1 c1" "0 < wordsLeft c1" "cur_pos m c1 = cur_pos m cur"
      using nx Inr r by simp_all
    have "word_blocks (cur_pos m cur) (and (load_word c1) ?mask) = ?T \<inter> run (32 * cur_pos m cur) num"
      using scan_word(2) [OF n1(1,2), of ?mask] word_blocks_first [OF num(1)] n1(3) by simp
    note t = test_word_spec [OF this, of stop c]
    show ?thesis
      using t False Inr r unfolding isallocated_rest_def Let_def
      by (auto simp: scan_done_def split: sum.splits)
  qed
qed

lemma isallocated_tail_spec:
  assumes "bitmap_ok m" "reservations_ok m" "scan_ok m HFS_ALLOC_IGNORE_TENTATIVE start cur"
    "32 * cur_pos m cur + num \<le> 32 * length (vcbBitmap m)"
  shows "scan_done bread stop (taken_blocks m HFS_ALLOC_IGNORE_TENTATIVE) (32 * cur_pos m cur) num c
    (case isallocated_words bread stop start num cur m c of
       Inl r \<Rightarrow> r
     | Inr (start2, num2, cur2, c2) \<Rightarrow> isallocated_rest bread stop start2 num2 cur2 m c2)"
  using assms
proof (induction bread stop start num cur m c rule: isallocated_words.induct)
  case (1 bread stop start num cur m c)
  let ?T = "taken_blocks m HFS_ALLOC_IGNORE_TENTATIVE"
  note step = isallocated_words.simps [of bread stop start num cur m c]
  show ?case
  proof (cases "num \<ge> 32")
    case False
    then show ?thesis
      using 1(2-) isallocated_rest_spec [OF 1(2-4), of num] by (simp add: step)
  next
    case True
    then have more: "cur_pos m cur < length (vcbBitmap m)"
      using 1(5) by linarith
    note nx = next_scan_word_spec [OF 1(2-4) more, of bread]
    show ?thesis
    proof (cases "next_bitmap_word bread HFS_ALLOC_IGNORE_TENTATIVE False start cur m")
      case (Inl r)
      then show ?thesis
        using nx True by (auto simp: step scan_done_def intro: exI [of _ 0])
    next
      case (Inr r)
      obtain s1 c1 m1 where r: "r = (s1, c1, m1)"
        by (cases r)
      have n1: "m1 = m" "scan_ok m HFS_ALLOC_IGNORE_TENTATIVE s1 c1" "0 < wordsLeft c1" "cur_pos m c1 = cur_pos m cur"
        using nx Inr r by simp_all
      note t = test_word_spec [OF scan_word(1) [OF n1(2,3)], of stop c, unfolded n1(4)]
      show ?thesis
      proof (cases "test_word stop (load_word c1) c")
        case Inl2: (Inl c')
        moreover have "?T \<inter> run (32 * cur_pos m cur) 32 \<subseteq> ?T \<inter> run (32 * cur_pos m cur) num"
          using True by auto
        moreover have "isallocated_words bread stop start num cur m c = Inl (noErr, c')"
          unfolding step using Inl2 Inr r True by simp
        ultimately show ?thesis
          using t by (auto simp: scan_done_def)
      next
        case Inr2: (Inr c')
        note IH = "1.IH" [OF True Inr r [symmetric] refl Inr2, unfolded n1(1)]
        have "scan_done bread stop ?T (32 * cur_pos m cur + 32) (num - 32) c'
          (case isallocated_words bread stop s1 (num - 32) (step_word c1) m c' of
             Inl r \<Rightarrow> r
           | Inr (start2, num2, cur2, c2) \<Rightarrow> isallocated_rest bread stop start2 num2 cur2 m c2)"
          using IH [OF 1(2,3)] scan_step(1) [OF n1(3)] scan_step(2) n1(2,4) 1(5) True by (simp add: add.commute)
        then have "scan_done bread stop ?T (32 * cur_pos m cur) (32 + (num - 32)) c
          (case isallocated_words bread stop s1 (num - 32) (step_word c1) m c' of
             Inl r \<Rightarrow> r
           | Inr (start2, num2, cur2, c2) \<Rightarrow> isallocated_rest bread stop start2 num2 cur2 m c2)"
          by (rule scan_done_step [rotated]) (use t Inr2 in simp)
        then show ?thesis
          using True Inr r Inr2 n1(1) by (simp add: step)
      qed
    qed
  qed
qed

lemma isallocated_first_spec:
  assumes "scan_ok m flags start cur" "0 < wordsLeft cur" "cur_pos m cur = start div 32"
  shows "case isallocated_first stop (start mod 32) num cur c of
      Inl c' \<Rightarrow> stop \<and> c' = 1 \<and> taken_blocks m flags \<inter> run start num \<noteq> {}
    | Inr (num1, cur1, c1) \<Rightarrow> scan_ok m flags start cur1 \<and> num1 \<le> num \<and>
        (num1 \<noteq> 0 \<longrightarrow> 32 * cur_pos m cur1 = start + (num - num1)) \<and>
        tally stop (taken_blocks m flags) start (num - num1) c c1"
proof (cases "start mod 32 = 0")
  case True
  then have "32 * (start div 32) = start"
    by (metis add.right_neutral mult_div_mod_eq)
  then show ?thesis
    using True assms by (simp add: isallocated_first_def)
next
  case False
  obtain bitMask numBits where f: "first_word_mask (start mod 32) num = (bitMask, numBits)"
    by fastforce
  have start: "32 * (start div 32) + start mod 32 = start"
    by simp
  have spec: "numBits = min num (32 - start mod 32)" "word_blocks (start div 32) bitMask = run start numBits"
    using first_word_mask_spec [of "start mod 32" num "start div 32"] False f start by simp_all
  have "word_blocks (start div 32) (and (load_word cur) bitMask) = taken_blocks m flags \<inter> run start numBits"
    using scan_word(2) [OF assms(1,2), of bitMask] spec(2) assms(3) by simp
  note t = test_word_spec [OF this, of stop c]
  have sub: "taken_blocks m flags \<inter> run start numBits \<subseteq> taken_blocks m flags \<inter> run start num"
    using spec(1) by auto
  have nb: "num - (num - numBits) = numBits"
    using spec(1) by simp
  have nxt: "32 * Suc (start div 32) = start + numBits" if "num - numBits \<noteq> 0"
    using that spec(1) by (intro next_word_start) (simp add: min_def split: if_splits)
  show ?thesis
  proof (cases "test_word stop (and (load_word cur) bitMask) c")
    case (Inl c')
    moreover have "isallocated_first stop (start mod 32) num cur c = Inl c'"
      unfolding isallocated_first_def using False f Inl by simp
    ultimately show ?thesis
      using t sub by auto
  next
    case (Inr c')
    moreover have "isallocated_first stop (start mod 32) num cur c = Inr (num - numBits, step_word cur, c')"
      unfolding isallocated_first_def using False f Inr by simp
    ultimately show ?thesis
      using t nb nxt assms scan_step(1) [OF assms(2)] scan_step(2) by simp
  qed
qed

lemma hfs_isallocated_internal_spec:
  assumes ok: "bitmap_ok m" "reservations_ok m" and num: "start < 32 * length (vcbBitmap m)" "start + num \<le> 32 * length (vcbBitmap m)"
  shows "case hfs_isallocated_internal bread m start num stop of
      (err, None) \<Rightarrow> err \<noteq> noErr \<and> err \<in> range bread
    | (err, Some c) \<Rightarrow> scan_done bread stop (taken_blocks m HFS_ALLOC_IGNORE_TENTATIVE) start num 0 (err, c)"
proof (cases "ReadBitmapBlock bread m start HFS_ALLOC_IGNORE_TENTATIVE")
  case (Inl err)
  then show ?thesis
    using Read_err [OF Inl] by (simp add: hfs_isallocated_internal_def)
next
  case (Inr r)
  let ?T = "taken_blocks m HFS_ALLOC_IGNORE_TENTATIVE"
  obtain ref buf where r: "r = (ref, buf)"
    by fastforce
  define c0 where "c0 = cursor_at m start ref buf"
  note f = scan_fresh [OF ok num(1) Inr [unfolded r], folded c0_def]
  note fs = isallocated_first_spec [OF f(1,3,2), of stop num 0]
  show ?thesis
  proof (cases "isallocated_first stop (start mod 32) num c0 0")
    case Inl1: (Inl c)
    then show ?thesis
      using fs Inr r by (simp add: hfs_isallocated_internal_def c0_def scan_done_def)
  next
    case Inr1: (Inr q)
    obtain num1 cur1 c1 where q: "q = (num1, cur1, c1)"
      by (cases q)
    have q1: "scan_ok m HFS_ALLOC_IGNORE_TENTATIVE start cur1" "num1 \<le> num"
      "num1 \<noteq> 0 \<Longrightarrow> 32 * cur_pos m cur1 = start + (num - num1)" "tally stop ?T start (num - num1) 0 c1"
      using fs Inr1 q by simp_all
    define R where "R = (case isallocated_words bread stop start num1 cur1 m c1 of
       Inl r \<Rightarrow> r
     | Inr (start2, num2, cur2, c2) \<Rightarrow> isallocated_rest bread stop start2 num2 cur2 m c2)"
    have "32 * cur_pos m cur1 + num1 \<le> 32 * length (vcbBitmap m)"
      using q1(2,3) num(2) scan_pos_le [OF q1(1)] by (cases "num1 = 0") simp_all
    note tl = isallocated_tail_spec [OF ok q1(1) this, of bread stop c1, folded R_def]
    have "scan_done bread stop ?T (start + (num - num1)) num1 c1 R"
      using tl q1(3) by (cases "num1 = 0") (simp_all add: scan_done_none)
    then have "scan_done bread stop ?T start (num - num1 + num1) 0 R"
      by (rule scan_done_step [OF q1(4)])
    moreover have "hfs_isallocated_internal bread m start num stop = (fst R, Some (snd R))"
      unfolding hfs_isallocated_internal_def R_def using Inr r Inr1 q
      by (auto simp: c0_def split: sum.splits prod.splits)
    ultimately show ?thesis
      using q1(2) by simp
  qed
qed

text \<open>
  C25. Counting the allocated blocks of a range.  When every read succeeds the count is the number of blocks of
  the range that are allocated in the bitmap or locked; a failed read is reported, and what has been counted by then is
  exact for an initial part of the range.
\<close>

theorem hfs_count_allocated_exact:
  assumes "bitmap_ok m" "reservations_ok m" "0 < num" "start + num \<le> 32 * length (vcbBitmap m)"
  shows "case hfs_count_allocated bread m start num of (err, r) \<Rightarrow>
    (err = noErr \<longrightarrow> r = Some (card (taken_blocks m HFS_ALLOC_IGNORE_TENTATIVE \<inter> run start num))) \<and>
    (err \<noteq> noErr \<longrightarrow> err \<in> range bread \<and>
       (case r of None \<Rightarrow> True
        | Some c \<Rightarrow> (\<exists>k\<le>num. c = card (taken_blocks m HFS_ALLOC_IGNORE_TENTATIVE \<inter> run start k))))"
proof -
  have start: "start < 32 * length (vcbBitmap m)"
    using assms(3,4) by simp
  show ?thesis
    using hfs_isallocated_internal_spec [OF assms(1,2) start assms(4), of bread False]
    by (auto simp: hfs_count_allocated_def scan_done_def tally_def split: option.splits prod.splits if_splits)
qed

theorem hfs_count_allocated_exact_witness:
  "hfs_count_allocated (\<lambda>_. noErr) (small_mount (replicate 2 kAllBitsSetInWord)) 30 10 = (noErr, Some 10)"
proof -
  let ?m = "small_mount (replicate 2 kAllBitsSetInWord)"
  obtain err r where e: "hfs_count_allocated (\<lambda>_. noErr) ?m 30 10 = (err, r)"
    by fastforce
  have "taken_blocks ?m HFS_ALLOC_IGNORE_TENTATIVE \<inter> run 30 10 = run 30 10"
    by (auto simp: taken_blocks_def bm_set_full)
  moreover have "card (run 30 10) = 10"
    by simp
  moreover have "reservations_ok ?m"
    by (simp add: reservations_ok_def entries_ok_def)
  ultimately show ?thesis
    using hfs_count_allocated_exact [OF small_mount_ok, of "replicate 2 kAllBitsSetInWord" 10 30 "\<lambda>_. noErr"] e
    by auto
qed

lemma hfs_isallocated_values:
  assumes "bitmap_ok m" "reservations_ok m" "start < 32 * length (vcbBitmap m)" "start + num \<le> 32 * length (vcbBitmap m)"
  shows "hfs_isallocated bread m start num = 0 \<Longrightarrow> taken_blocks m HFS_ALLOC_IGNORE_TENTATIVE \<inter> run start num = {}"
    "hfs_isallocated bread m start num \<noteq> 0 \<Longrightarrow> hfs_isallocated bread m start num = 1"
    "(\<And>k. bread k = noErr) \<Longrightarrow> taken_blocks m HFS_ALLOC_IGNORE_TENTATIVE \<inter> run start num = {} \<Longrightarrow>
      hfs_isallocated bread m start num = 0"
  using hfs_isallocated_internal_spec [OF assms, of bread True]
  by (auto simp: hfs_isallocated_def scan_done_def tally_def split: option.splits prod.splits if_splits)

section \<open>Freeing what should be unused\<close>

partial_function (option) mark_free_unused_loop ::
  "(nat \<Rightarrow> hfs_err) \<Rightarrow> hfsmount \<Rightarrow> nat \<Rightarrow> nat \<Rightarrow> (hfs_err \<times> hfsmount) option" where
  "mark_free_unused_loop bread m start num =
     (if num \<noteq> 0 then
        let curNumBlocks = (if num \<ge> bits_per_block m then bits_per_block m else num)
        in if hfs_isallocated bread m start curNumBlocks = 1 then
             (case BlockMarkFreeInternal bread m start curNumBlocks False of
                (err, m') \<Rightarrow>
                  if err \<noteq> noErr then Some (err, m')
                  else mark_free_unused_loop bread m' (add32 start curNumBlocks) (num - curNumBlocks))
           else mark_free_unused_loop bread m (add32 start curNumBlocks) (num - curNumBlocks)
      else Some (noErr, m))"

definition BlockMarkFreeUnused ::
  "(nat \<Rightarrow> hfs_err) \<Rightarrow> hfsmount \<Rightarrow> nat \<Rightarrow> nat \<Rightarrow> (hfs_err \<times> hfsmount) option" where
  "BlockMarkFreeUnused bread m start num =
     (let lastBit = mul32 (add32 start (bits_per_block m - 1) div bits_per_block m) (bits_per_block m);
          cur0 = sub32 lastBit start;
          curNumBlocks = (if cur0 > num then num else cur0)
      in case BlockMarkFreeInternal bread m start curNumBlocks False of
           (err, m') \<Rightarrow>
             if err \<noteq> noErr then Some (err, m')
             else mark_free_unused_loop bread m' (add32 start curNumBlocks) (num - curNumBlocks))"

definition bm_frame :: "hfsmount \<Rightarrow> hfsmount \<Rightarrow> bool" where
  "bm_frame m m' \<longleftrightarrow>
     (\<exists>b t. m' = m\<lparr>vcbBitmap := b, jnl_trims := t\<rparr> \<and> length b = length (vcbBitmap m))"

lemma bm_frameI: "length b = length (vcbBitmap m) \<Longrightarrow> bm_frame m (m\<lparr>vcbBitmap := b, jnl_trims := t\<rparr>)"
  unfolding bm_frame_def by blast

lemma bm_frameE:
  assumes "bm_frame m m'"
  obtains b t where "m' = m\<lparr>vcbBitmap := b, jnl_trims := t\<rparr>" "length b = length (vcbBitmap m)"
  using assms unfolding bm_frame_def by blast

lemma bm_frame_refl [simp]: "bm_frame m m"
  using bm_frameI [of "vcbBitmap m" m "jnl_trims m"] by simp

lemma bm_frame_trans:
  assumes "bm_frame m m1" "bm_frame m1 m2"
  shows "bm_frame m m2"
proof -
  obtain b t where 1: "m1 = m\<lparr>vcbBitmap := b, jnl_trims := t\<rparr>" "length b = length (vcbBitmap m)"
    using assms(1) by (rule bm_frameE)
  obtain b' t' where 2: "m2 = m1\<lparr>vcbBitmap := b', jnl_trims := t'\<rparr>" "length b' = length (vcbBitmap m1)"
    using assms(2) by (rule bm_frameE)
  show ?thesis
    using bm_frameI [of b' m t'] 1 2 by simp
qed

lemma bm_only_frame: "bm_only m m' \<Longrightarrow> bm_frame m m'"
proof -
  assume "bm_only m m'"
  then obtain b where "m' = m\<lparr>vcbBitmap := b\<rparr>" "length b = length (vcbBitmap m)"
    by (auto simp: bm_only_def)
  then show "bm_frame m m'"
    using bm_frameI [of b m "jnl_trims m"] by simp
qed

lemma bm_frame_same:
  assumes "bm_frame m m'"
  shows "bitmap_ok m' = bitmap_ok m" "reservations_ok m' = reservations_ok m"
    "length (vcbBitmap m') = length (vcbBitmap m)" "bits_per_block m' = bits_per_block m"
    "reserved_blocks m' flags = reserved_blocks m flags"
proof -
  obtain b t where m': "m' = m\<lparr>vcbBitmap := b, jnl_trims := t\<rparr>" "length b = length (vcbBitmap m)"
    using assms by (rule bm_frameE)
  show "bitmap_ok m' = bitmap_ok m" "reservations_ok m' = reservations_ok m"
    "length (vcbBitmap m') = length (vcbBitmap m)" "bits_per_block m' = bits_per_block m"
    "reserved_blocks m' flags = reserved_blocks m flags"
    using m'(2) unfolding m'(1) by (simp_all add: bitmap_ok_def reservations_ok_def reserved_blocks_def)
qed

lemma bm_frame_unmap: "bm_only m m2 \<Longrightarrow> bm_frame m (hfs_unmap_free_extent m2 a b)"
proof -
  have "hfs_unmap_free_extent m2 a b =
      m2\<lparr>vcbBitmap := vcbBitmap m2, jnl_trims := jnl_trims (hfs_unmap_free_extent m2 a b)\<rparr>"
    by (simp add: hfs_unmap_free_extent_def Let_def)
  then show "bm_only m m2 \<Longrightarrow> bm_frame m (hfs_unmap_free_extent m2 a b)"
    using bm_frame_trans [OF bm_only_frame] bm_frameI [OF refl, of m2] by metis
qed

text \<open>The outcome of clearing a range without validation.\<close>

definition cleared :: "(nat \<Rightarrow> hfs_err) \<Rightarrow> hfsmount \<Rightarrow> nat \<Rightarrow> nat \<Rightarrow> hfs_err \<times> hfsmount \<Rightarrow> bool" where
  "cleared bread m start num r \<longleftrightarrow> bm_frame m (snd r) \<and>
     bm_set (vcbBitmap m) - run start num \<subseteq> bm_set (vcbBitmap (snd r)) \<and>
     bm_set (vcbBitmap (snd r)) \<subseteq> bm_set (vcbBitmap m) \<and>
     (if fst r = noErr then bm_set (vcbBitmap (snd r)) = bm_set (vcbBitmap m) - run start num
      else fst r \<in> range bread)"

lemma free_unvalidated:
  assumes "bitmap_ok m" "0 < num" "start + num \<le> 32 * length (vcbBitmap m)"
  shows "cleared bread m start num (BlockMarkFreeInternal bread m start num False)"
proof -
  obtain err m' where r: "BlockMarkFreeInternal bread m start num False = (err, m')"
    by fastforce
  note sp = BlockMarkFreeInternal_spec [OF assms, where bread = bread and v = False, unfolded r, simplified]
  show ?thesis
  proof (cases "err = noErr")
    case True
    then obtain m2 buf cur where "free_done m False start num m2 buf cur m'"
      using sp by auto
    then show ?thesis
      using True bm_frame_unmap by (auto simp: r cleared_def free_done_def case_prod_unfold)
  next
    case False
    then have f: "err \<in> range bread" "bm_only m m'" "\<exists>k\<le>num. bm_set (vcbBitmap m') = bm_set (vcbBitmap m) - run start k"
      using sp by (auto simp: free_fault_def)
    moreover have "bm_frame m m'"
      using f(2) by (rule bm_only_frame)
    ultimately show ?thesis
      using False run_prefix [of _ num start] by (auto simp: r cleared_def)
  qed
qed

lemma free_none:
  assumes "bitmap_ok m" "start < 32 * length (vcbBitmap m)" "start mod 32 = 0"
  shows "cleared bread m start 0 (BlockMarkFreeInternal bread m start 0 False)"
proof (cases "ReadBitmapBlock bread m start HFS_ALLOC_IGNORE_RESERVED")
  case (Inl err)
  then show ?thesis
    using Read_err [OF Inl] by (simp add: BlockMarkFreeInternal_def cleared_def)
next
  case (Inr r)
  obtain ref buf where r: "r = (ref, buf)"
    by fastforce
  note f = cur_fresh [OF assms(1,2) Inr [unfolded r]]
  have "ReleaseBitmapBlock m (blockRef (cursor_at m start ref buf)) (buffer (cursor_at m start ref buf)) True = m"
    unfolding Release_cur f(3) by simp
  moreover have "run start 0 = {}"
    by auto
  ultimately show ?thesis
    using Inr r assms(3) bm_frame_unmap [OF bm_only_refl, of m]
    by (simp add: BlockMarkFreeInternal_def mark_free_first_def mark_free_words.simps [of bread False start 0]
        mark_free_rest_def cleared_def split: prod.splits)
qed

lemma cleared_trans:
  assumes "cleared bread m p a (noErr, m1)" "cleared bread m1 (p + a) b r"
  shows "cleared bread m p (a + b) r"
proof -
  have "run p (a + b) = run p a \<union> run (p + a) b"
    by (simp add: run_add)
  then show ?thesis
    using assms bm_frame_trans [of m m1 "snd r"] by (auto simp: cleared_def split: if_splits)
qed

lemma cleared_none: "cleared bread m start 0 (noErr, m)"
proof -
  have "run start 0 = {}"
    by auto
  then show ?thesis
    by (simp add: cleared_def)
qed

lemma mark_free_unused_rest:
  assumes "bitmap_ok m" "start + num \<le> 32 * length (vcbBitmap m)" "c \<le> num"
    and m1: "cleared bread m start c (noErr, m1)"
    and loop: "\<exists>r. mark_free_unused_loop bread m1 (start + c) (num - c) = Some r \<and> cleared bread m1 (start + c) (num - c) r"
  shows "\<exists>r. mark_free_unused_loop bread m1 (add32 start c) (num - c) = Some r \<and> cleared bread m start num r"
proof (cases "num - c = 0")
  case True
  then have "mark_free_unused_loop bread m1 (add32 start c) (num - c) = Some (noErr, m1)" "num = c"
    using assms(3) mark_free_unused_loop.simps [of bread m1 "add32 start c" "num - c"] by simp_all
  then show ?thesis
    using m1 by simp
next
  case False
  then have "add32 start c = start + c"
    using assms(1,2) by (simp add: add32_eq bitmap_ok_def)
  then show ?thesis
    using loop cleared_trans [OF m1, of "num - c"] assms(3) by auto
qed

lemma mark_free_unused_loop_spec:
  assumes "bitmap_ok m" "reservations_ok m" "start + num \<le> 32 * length (vcbBitmap m)"
  shows "\<exists>r. mark_free_unused_loop bread m start num = Some r \<and> cleared bread m start num r"
  using assms
proof (induction num arbitrary: m start rule: less_induct)
  case (less num)
  note step = mark_free_unused_loop.simps [of bread m start num]
  show ?case
  proof (cases "num = 0")
    case True
    then have "mark_free_unused_loop bread m start num = Some (noErr, m)"
      unfolding step by simp
    then show ?thesis
      using True cleared_none [of bread m start] by simp
  next
    case False
    define c where "c = (if num \<ge> bits_per_block m then bits_per_block m else num)"
    have c: "0 < c" "c \<le> num" "start + c \<le> 32 * length (vcbBitmap m)" "start < 32 * length (vcbBitmap m)"
      using False less.prems(3) bitmap_okD(1,2) [OF less.prems(1)] by (auto simp: c_def)
    have rest: "\<exists>r. mark_free_unused_loop bread m' (add32 start c) (num - c) = Some r \<and> cleared bread m start num r"
      if m': "cleared bread m start c (noErr, m')" for m'
    proof (rule mark_free_unused_rest [OF less.prems(1,3) c(2) m'])
      have "bm_frame m m'"
        using m' by (simp add: cleared_def)
      then show "\<exists>r. mark_free_unused_loop bread m' (start + c) (num - c) = Some r \<and> cleared bread m' (start + c) (num - c) r"
        using less.IH [of "num - c" m' "start + c"] c(1,2) less.prems bm_frame_same [of m m'] by simp
    qed
    note val = hfs_isallocated_values [OF less.prems(1,2) c(4,3), of bread]
    show ?thesis
    proof (cases "hfs_isallocated bread m start c = 1")
      case True
      obtain err m' where r: "BlockMarkFreeInternal bread m start c False = (err, m')"
        by fastforce
      note fr = free_unvalidated [OF less.prems(1) c(1,3), of bread, unfolded r]
      have eq: "mark_free_unused_loop bread m start num =
          (if err \<noteq> noErr then Some (err, m') else mark_free_unused_loop bread m' (add32 start c) (num - c))"
        unfolding step Let_def c_def [symmetric] using False True r by simp
      show ?thesis
      proof (cases "err = noErr")
        case True
        then show ?thesis
          using rest [of m'] fr eq by simp
      next
        case bad: False
        have "cleared bread m start num (err, m')"
          using fr bad run_prefix [OF c(2), of start] by (auto simp: cleared_def)
        then show ?thesis
          using bad eq by simp
      qed
    next
      case free: False
      then have "hfs_isallocated bread m start c = 0"
        using val(2) by blast
      then have "taken_blocks m HFS_ALLOC_IGNORE_TENTATIVE \<inter> run start c = {}"
        by (rule val(1))
      then have "cleared bread m start c (noErr, m)"
        by (auto simp: cleared_def taken_blocks_def)
      then show ?thesis
        using rest [of m] free False unfolding step Let_def c_def [symmetric] by simp
    qed
  qed
qed

text \<open>
  C26. Clearing a range that should be unused, as a resize does, always ends.  When it reports success no block of
  the range is allocated and every other block is as before; on a failed read only blocks of the range have changed.
\<close>

theorem BlockMarkFreeUnused_clears:
  assumes "bitmap_ok m" "reservations_ok m" "0 < num" "start + num \<le> 32 * length (vcbBitmap m)"
    "start + bits_per_block m \<le> 4294967296"
  shows "\<exists>err m'. BlockMarkFreeUnused bread m start num = Some (err, m') \<and> cleared bread m start num (err, m')"
proof -
  let ?b = "bits_per_block m"
  note ok = bitmap_okD [OF assms(1)]
  define k where "k = (start + (?b - 1)) div ?b"
  have b: "0 < ?b" "32 dvd ?b"
    using ok(1,2) by simp_all
  have k: "start \<le> k * ?b" "k * ?b < start + ?b"
  proof -
    define r where "r = (start + (?b - 1)) mod ?b"
    have "start + (?b - 1) = k * ?b + r"
      unfolding k_def r_def by (rule div_mult_mod_eq [symmetric])
    moreover have "r < ?b"
      using b(1) by (simp add: r_def)
    ultimately show "start \<le> k * ?b" "k * ?b < start + ?b"
      using b(1) by linarith+
  qed
  define c where "c = (if k * ?b - start > num then num else k * ?b - start)"
  have "add32 start (?b - 1) = start + (?b - 1)"
    using assms(5) b(1) by (simp add: add32_eq)
  moreover have "mul32 k ?b = k * ?b" "sub32 (k * ?b) start = k * ?b - start"
    using assms(5) k by (simp_all add: mul32_eq sub32_eq)
  ultimately have def: "BlockMarkFreeUnused bread m start num =
      (case BlockMarkFreeInternal bread m start c False of
         (err, m') \<Rightarrow> if err \<noteq> noErr then Some (err, m')
           else mark_free_unused_loop bread m' (add32 start c) (num - c))"
    unfolding BlockMarkFreeUnused_def Let_def c_def by (simp only: k_def [symmetric])
  have c: "c \<le> num" "start + c \<le> 32 * length (vcbBitmap m)"
    using assms(4) by (auto simp: c_def)
  have al: "start mod 32 = 0" if "c = 0"
  proof -
    have "start = k * ?b"
      using that k(1) assms(3) by (auto simp: c_def split: if_splits)
    then show ?thesis
      using b(2) by (simp add: dvd_mult)
  qed
  obtain err m1 where r: "BlockMarkFreeInternal bread m start c False = (err, m1)"
    by fastforce
  have cl: "cleared bread m start c (err, m1)"
    using free_unvalidated [OF assms(1) _ c(2), of bread] free_none [OF assms(1) _ al, of bread] r assms(3,4)
    by (cases "c = 0") auto
  show ?thesis
  proof (cases "err = noErr")
    case True
    have m1: "bm_frame m m1"
      using cl by (simp add: cleared_def)
    have "\<exists>r. mark_free_unused_loop bread m1 (add32 start c) (num - c) = Some r \<and> cleared bread m start num r"
      by (rule mark_free_unused_rest [OF assms(1,4) c(1) cl [unfolded True]], rule mark_free_unused_loop_spec)
        (use assms c(1) bm_frame_same [OF m1] in simp_all)
    then show ?thesis
      using r True def by auto
  next
    case False
    have "cleared bread m start num (err, m1)"
      using cl False run_prefix [OF c(1), of start] by (auto simp: cleared_def)
    then show ?thesis
      using r False def by simp
  qed
qed

theorem BlockMarkFreeUnused_clears_witness:
  "\<exists>err m'. BlockMarkFreeUnused (\<lambda>_. noErr) (small_mount (replicate 4 kAllBitsSetInWord)) 30 70 = Some (err, m') \<and>
     bm_set (vcbBitmap m') = {..<30} \<union> {100..<128}"
proof -
  let ?m = "small_mount (replicate 4 kAllBitsSetInWord)"
  have "reservations_ok ?m" "bits_per_block ?m = 64"
    by (simp_all add: reservations_ok_def entries_ok_def small_mount_def plain_mount_def mul32_def)
  then obtain err m' where "BlockMarkFreeUnused (\<lambda>_. noErr) ?m 30 70 = Some (err, m')" "cleared (\<lambda>_. noErr) ?m 30 70 (err, m')"
    using BlockMarkFreeUnused_clears [OF small_mount_ok, of "replicate 4 kAllBitsSetInWord" 70 30 "\<lambda>_. noErr"] by auto
  moreover have "bm_set (vcbBitmap ?m) - run 30 70 = {..<30} \<union> {100..<128}"
    by (auto simp: bm_set_full)
  ultimately show ?thesis
    by (auto simp: cleared_def split: if_splits)
qed

end
