(* ===== verification/Meta_Zone.thy ===== *)
theory Meta_Zone
  imports Bitmap_Query
begin

text \<open>
  The metadata allocation zone: \<open>MetaZoneFreeBlocks\<close>, which counts the free blocks of the zone byte by byte
  with a table of nibbles, and \<open>NextBitmapBlock\<close>, which steps over the zone, of
  \<^verbatim>\<open>core/VolumeAllocation.c\<close>.  \<open>hfs_metadatazone_init\<close> lets the zone start at block 0 or 1.
\<close>

definition freebitcount :: "nat list" where
  "freebitcount = [4, 3, 3, 2, 3, 2, 2, 1, 3, 2, 2, 1, 2, 1, 1, 0]"

text \<open>A byte of a buffer of big-endian words.\<close>

definition bitmap_byte :: "u32 list \<Rightarrow> nat \<Rightarrow> nat" where
  "bitmap_byte buf i = unat (drop_bit (8 * (3 - i mod 4)) (buf ! (i div 4))) mod 256"

definition free_in_byte :: "nat \<Rightarrow> nat" where
  "free_in_byte byte = freebitcount ! (byte mod 16) + freebitcount ! (byte div 16 mod 16)"

text \<open>The loop: the next bit, the last, the buffer with the index of the next byte and the bytes left, and the count.\<close>

partial_function (option) metazone_loop ::
  "(nat \<Rightarrow> hfs_err) \<Rightarrow> hfsmount \<Rightarrow> nat \<Rightarrow> nat \<Rightarrow> u32 list \<times> nat \<times> nat \<Rightarrow> nat \<Rightarrow> nat option" where
  "metazone_loop bread m bit' lastbit pos freeblocks =
     (if bit' < lastbit then
        case (case pos of (buf, i, bytesleft) \<Rightarrow>
                if bytesleft = 0 then
                  (case ReadBitmapBlock bread m bit' HFS_ALLOC_IGNORE_TENTATIVE of
                     Inl err \<Rightarrow> None
                   | Inr (ref, buf') \<Rightarrow> Some (buf', 0, vcbVBMIOSize m))
                else Some (buf, i, bytesleft)) of
          None \<Rightarrow> Some 0
        | Some (buf, i, bytesleft) \<Rightarrow>
            metazone_loop bread m (add32 bit' 8) lastbit (buf, i + 1, bytesleft - 1)
              (freeblocks + free_in_byte (bitmap_byte buf i))
      else Some freeblocks)"

definition MetaZoneFreeBlocks :: "(nat \<Rightarrow> hfs_err) \<Rightarrow> hfsmount \<Rightarrow> nat option" where
  "MetaZoneFreeBlocks bread m =
     (let bit' = (if hfs_metazone_start m = 1 then 0 else hfs_metazone_start m)
      in metazone_loop bread m bit' (hfs_metazone_end m) ([], 0, 0) 0)"

definition NextBitmapBlock :: "hfsmount \<Rightarrow> nat \<Rightarrow> nat" where
  "NextBitmapBlock m bit' =
     (if and (hfs_flags m) HFS_METADATA_ZONE = 0 then bit'
      else if bit' \<ge> hfs_metazone_start m \<and> bit' \<le> hfs_metazone_end m then add32 (hfs_metazone_end m) 1
      else bit')"

section \<open>The table\<close>

lemma freebitcount_nibble: "n < 16 \<Longrightarrow> freebitcount ! n = card {j. j < 4 \<and> \<not> bit n j}"
proof -
  have *: "{j. j < 4 \<and> \<not> bit n j} = set (filter (\<lambda>j. \<not> bit n j) [0..<4])" for n :: nat
    by auto
  have "\<forall>n\<in>set [0..<16]. freebitcount ! n = card (set (filter (\<lambda>j. \<not> bit n j) [0..<4]))"
    by code_simp
  then show "n < 16 \<Longrightarrow> freebitcount ! n = card {j. j < 4 \<and> \<not> bit n j}"
    unfolding * by simp
qed

lemma free_in_byte_card: "b < 256 \<Longrightarrow> free_in_byte b = card {j. j < 8 \<and> \<not> bit b j}"
proof -
  assume b: "b < 256"
  have t: "b mod 16 = take_bit 4 b" "b div 16 mod 16 = take_bit 4 (drop_bit 4 b)"
    by (simp_all add: take_bit_eq_mod drop_bit_eq_div)
  have lo: "bit (b mod 16) j \<longleftrightarrow> bit b j" if "j < 4" for j
    unfolding t using that by (simp only: bit_take_bit_iff simp_thms)
  have hi: "bit (b div 16 mod 16) j \<longleftrightarrow> bit b (4 + j)" if "j < 4" for j
    unfolding t using that by (simp only: bit_take_bit_iff bit_drop_bit_eq comp_apply simp_thms)
  have "{j. j < 8 \<and> \<not> bit b j} =
      {j. j < 4 \<and> \<not> bit (b mod 16) j} \<union> (\<lambda>j. 4 + j) ` {j. j < 4 \<and> \<not> bit (b div 16 mod 16) j}" (is "?A = ?B \<union> ?C")
  proof (rule set_eqI)
    fix j
    show "j \<in> ?A \<longleftrightarrow> j \<in> ?B \<union> ?C"
    proof (cases "j < 4")
      case True
      then show ?thesis
        using lo [OF True] by auto
    next
      case False
      define i where "i = j - 4"
      have i: "j = 4 + i"
        using False by (simp add: i_def)
      have "j \<in> ?C \<longleftrightarrow> i < 4 \<and> \<not> bit (b div 16 mod 16) i"
        unfolding i by auto
      then show ?thesis
        using hi [of i] i by auto
    qed
  qed
  moreover have "card (?B \<union> ?C) = card ?B + card ?C"
    by (rule card_Un_disjoint) auto
  moreover have "card ?C = card {j. j < 4 \<and> \<not> bit (b div 16 mod 16) j}"
    by (rule card_image) simp
  ultimately show "free_in_byte b = card {j. j < 8 \<and> \<not> bit b j}"
    using freebitcount_nibble [of "b mod 16"] freebitcount_nibble [of "b div 16 mod 16"]
    by (simp add: free_in_byte_def)
qed

lemma bit_bitmap_byte:
  assumes "t < 8"
  shows "bit (bitmap_byte buf i) (7 - t) \<longleftrightarrow> bit (buf ! ((8 * i + t) div 32)) (31 - (8 * i + t) mod 32)"
proof -
  define q r where "q = i div 4" and "r = i mod 4"
  have i: "i = 4 * q + r" "r < 4"
    by (simp_all add: q_def r_def)
  define x where "x = 8 * r + t"
  have x: "8 * i + t = 32 * q + x" "x < 32"
    using assms i by (simp_all add: x_def)
  have d: "(8 * i + t) div 32 = q" "(8 * i + t) mod 32 = 8 * r + t"
    unfolding x(1) x_def [symmetric] using x(2) by simp_all
  have "7 - t < 8"
    by linarith
  then have "bit (bitmap_byte buf i) (7 - t) \<longleftrightarrow> bit (drop_bit (8 * (3 - r)) (buf ! q)) (7 - t)"
    using bit_take_bit_iff [of 8 "unat (drop_bit (8 * (3 - r)) (buf ! q))" "7 - t"]
    by (simp add: bitmap_byte_def take_bit_eq_mod bit_unsigned_iff q_def r_def)
  also have "\<dots> \<longleftrightarrow> bit (buf ! q) (8 * (3 - r) + (7 - t))"
    by (simp add: bit_drop_bit_eq)
  also have "8 * (3 - r) + (7 - t) = 31 - (8 * r + t)"
    using assms i(2) by linarith
  finally show ?thesis
    unfolding d .
qed

lemma free_in_bitmap_byte:
  assumes "i < 4 * length buf"
  shows "free_in_byte (bitmap_byte buf i) = card ({8 * i..<8 * i + 8} - bm_set buf)"
proof -
  have "{8 * i..<8 * i + 8} - bm_set buf = (\<lambda>j. 8 * i + (7 - j)) ` {j. j < 8 \<and> \<not> bit (bitmap_byte buf i) j}" (is "?A = ?f ` ?B")
  proof (rule set_eqI, rule iffI)
    fix b
    assume b: "b \<in> ?A"
    define t where "t = b - 8 * i"
    have t: "t < 8" "b = 8 * i + t"
      using b by (auto simp: t_def)
    then have "7 - (7 - t) = t"
      by simp
    moreover have "b div 32 < length buf"
      using assms t by (simp add: div_less_iff_less_mult)
    ultimately have "7 - t \<in> ?B" "b = ?f (7 - t)"
      using b t bit_bitmap_byte [OF t(1), of buf i] by (auto simp: in_bm_set)
    then show "b \<in> ?f ` ?B"
      by blast
  next
    fix b
    assume "b \<in> ?f ` ?B"
    then obtain j where j: "j < 8" "\<not> bit (bitmap_byte buf i) j" "b = 8 * i + (7 - j)"
      by auto
    then have "7 - (7 - j) = j"
      by simp
    then show "b \<in> ?A"
      using j bit_bitmap_byte [of "7 - j" buf i] by (auto simp: in_bm_set)
  qed
  moreover have "inj_on ?f ?B"
    by (auto simp: inj_on_def)
  ultimately have "card ?A = card ?B"
    by (simp only: card_image)
  moreover have "bitmap_byte buf i < 256"
    by (simp add: bitmap_byte_def)
  ultimately show ?thesis
    by (simp only: free_in_byte_card)
qed

section \<open>Counting the zone\<close>

text \<open>A buffer position that belongs to the next bit: between pieces, or inside the piece with the bit.\<close>

definition byte_pos_ok :: "hfsmount \<Rightarrow> nat \<Rightarrow> u32 list \<times> nat \<times> nat \<Rightarrow> bool" where
  "byte_pos_ok m b pos \<longleftrightarrow>
     (case pos of (buf, i, left) \<Rightarrow>
        if left = 0 then 32 * words_per_block m dvd b
        else length buf = words_per_block m \<and> i + left = 4 * words_per_block m \<and>
          (\<exists>base. b = base + 8 * i \<and> 32 * words_per_block m dvd base \<and>
             (\<forall>j<32 * words_per_block m. j \<in> bm_set buf \<longleftrightarrow> base + j \<in> taken_blocks m HFS_ALLOC_IGNORE_TENTATIVE)))"

lemma byte_pos_step:
  assumes "byte_pos_ok m b (buf, i, left)" "0 < left"
  shows "byte_pos_ok m (b + 8) (buf, i + 1, left - 1)"
    "free_in_byte (bitmap_byte buf i) = card ({b..<b + 8} - taken_blocks m HFS_ALLOC_IGNORE_TENTATIVE)"
proof -
  let ?w = "words_per_block m" and ?T = "taken_blocks m HFS_ALLOC_IGNORE_TENTATIVE"
  obtain base where p: "length buf = ?w" "i + left = 4 * ?w" "b = base + 8 * i" "32 * ?w dvd base"
    "\<And>j. j < 32 * ?w \<Longrightarrow> j \<in> bm_set buf \<longleftrightarrow> base + j \<in> ?T"
    using assms by (auto simp: byte_pos_ok_def)
  have "32 * ?w dvd b + 8" if "left = 1"
  proof -
    have "b + 8 = base + 32 * ?w"
      using p(2,3) that by linarith
    then show ?thesis
      using p(4) by simp
  qed
  then show "byte_pos_ok m (b + 8) (buf, i + 1, left - 1)"
    using p assms(2) unfolding byte_pos_ok_def by (cases "left = 1") (auto intro!: exI [of _ base])
  have i: "8 * i + 8 \<le> 32 * ?w"
    using p(2) assms(2) by linarith
  have "{b..<b + 8} - ?T = (\<lambda>j. base + j) ` ({8 * i..<8 * i + 8} - bm_set buf)"
  proof (rule set_eqI, rule iffI)
    fix x
    assume x: "x \<in> {b..<b + 8} - ?T"
    then have "x = base + (x - base)" "x - base \<in> {8 * i..<8 * i + 8}"
      using p(3) by auto
    moreover from this have "x - base \<notin> bm_set buf"
      using p(5) [of "x - base"] x i by auto
    ultimately show "x \<in> (\<lambda>j. base + j) ` ({8 * i..<8 * i + 8} - bm_set buf)"
      by blast
  qed (use p(3,5) i in auto)
  then have "card ({b..<b + 8} - ?T) = card ({8 * i..<8 * i + 8} - bm_set buf)"
    by (simp add: card_image)
  then show "free_in_byte (bitmap_byte buf i) = card ({b..<b + 8} - ?T)"
    using free_in_bitmap_byte [of i buf] i p(1) by simp
qed

lemma byte_pos_read:
  assumes ok: "bitmap_ok m" "reservations_ok m" "b < 32 * length (vcbBitmap m)" "32 * words_per_block m dvd b"
    and "ReadBitmapBlock bread m b HFS_ALLOC_IGNORE_TENTATIVE = Inr (ref, buf)"
  shows "byte_pos_ok m b (buf, 0, vcbVBMIOSize m)" "0 < vcbVBMIOSize m"
proof -
  let ?w = "words_per_block m"
  note r = ReadBitmapBlock_spec [OF ok(1-3) assms(5)] and d = bitmap_okD [OF ok(1)]
  have io: "vcbVBMIOSize m = 4 * ?w"
    using d(4) by linarith
  then show "0 < vcbVBMIOSize m"
    using d(2) by simp
  have "ref * (32 * ?w) = b"
    using r(1) ok(4) by (simp add: dvd_div_mult_self)
  then show "byte_pos_ok m b (buf, 0, vcbVBMIOSize m)"
    using r(2,4) ok(4) io d(2) unfolding byte_pos_ok_def by (auto intro!: exI [of _ b])
qed

lemma metazone_loop_spec:
  assumes ok: "bitmap_ok m" "reservations_ok m" and lim: "lastbit \<le> 32 * length (vcbBitmap m)" "lastbit + 8 \<le> 4294967296"
    and "byte_pos_ok m b pos" "8 dvd b"
  shows "\<exists>n. metazone_loop bread m b lastbit pos c = Some n \<and>
    (range bread = {noErr} \<longrightarrow>
       n = c + card ({b..<8 * ((lastbit + 7) div 8)} - taken_blocks m HFS_ALLOC_IGNORE_TENTATIVE))"
  using assms(5-)
proof (induction "8 * ((lastbit + 7) div 8) - b" arbitrary: b pos c rule: less_induct)
  case less
  let ?T = "taken_blocks m HFS_ALLOC_IGNORE_TENTATIVE" and ?L = "8 * ((lastbit + 7) div 8)"
  obtain g where g: "b = 8 * g"
    using less.prems(2) by auto
  note step = metazone_loop.simps [of bread m b lastbit pos c]
  have L: "b < lastbit \<longleftrightarrow> b + 8 \<le> ?L" "\<not> b < lastbit \<longleftrightarrow> ?L \<le> b"
    using less_eq_div_iff_mult_less_eq [of 8 "Suc g" "lastbit + 7"] unfolding g by auto
  show ?case
  proof (cases "b < lastbit")
    case False
    moreover have "{b..<?L} = {}"
      using False L(2) by simp
    ultimately show ?thesis
      by (simp add: step)
  next
    case True
    define nxt where "nxt = (case pos of (buf, i, bytesleft) \<Rightarrow>
        if bytesleft = 0 then
          (case ReadBitmapBlock bread m b HFS_ALLOC_IGNORE_TENTATIVE of
             Inl err \<Rightarrow> None | Inr (ref, buf') \<Rightarrow> Some (buf', 0, vcbVBMIOSize m))
        else Some (buf, i, bytesleft))"
    have eq: "metazone_loop bread m b lastbit pos c =
        (case nxt of None \<Rightarrow> Some 0
         | Some (buf, i, left) \<Rightarrow>
             metazone_loop bread m (add32 b 8) lastbit (buf, i + 1, left - 1) (c + free_in_byte (bitmap_byte buf i)))"
      unfolding step nxt_def using True by simp
    show ?thesis
    proof (cases nxt)
      case None
      then have "range bread \<noteq> {noErr}"
        using Read_err [of bread m b] by (auto simp: nxt_def split: prod.splits if_splits sum.splits)
      then show ?thesis
        using eq None by simp
    next
      case (Some q)
      obtain buf i left where q: "q = (buf, i, left)"
        by (cases q)
      have bl: "b < 32 * length (vcbBitmap m)"
        using True lim(1) by simp
      obtain buf0 i0 left0 where pos: "pos = (buf0, i0, left0)"
        by (cases pos)
      have pq: "byte_pos_ok m b (buf, i, left)" "0 < left"
      proof -
        have "byte_pos_ok m b (buf, i, left) \<and> 0 < left"
        proof (cases "left0 = 0")
          case True
          then have dv: "32 * words_per_block m dvd b"
            using less.prems(1) pos by (simp add: byte_pos_ok_def)
          obtain ref where "ReadBitmapBlock bread m b HFS_ALLOC_IGNORE_TENTATIVE = Inr (ref, buf)" "i = 0" "left = vcbVBMIOSize m"
            using Some q pos True by (auto simp: nxt_def split: sum.splits)
          then show ?thesis
            using byte_pos_read [OF ok bl dv] by simp
        next
          case False
          then show ?thesis
            using Some q pos less.prems(1) by (simp add: nxt_def)
        qed
        then show "byte_pos_ok m b (buf, i, left)" "0 < left"
          by simp_all
      qed
      note st = byte_pos_step [OF pq]
      have a: "add32 b 8 = b + 8"
        using True lim(2) by (simp add: add32_eq)
      have "?L - (b + 8) < ?L - b"
        using True L(1) by linarith
      then obtain n where n: "metazone_loop bread m (b + 8) lastbit (buf, i + 1, left - 1) (c + free_in_byte (bitmap_byte buf i)) = Some n"
        "range bread = {noErr} \<longrightarrow> n = c + free_in_byte (bitmap_byte buf i) + card ({b + 8..<?L} - ?T)"
        using less.hyps [OF _ st(1)] less.prems(2) by (metis dvd_add dvd_refl)
      have "{b..<?L} - ?T = ({b..<b + 8} - ?T) \<union> ({b + 8..<?L} - ?T)"
        using True L(1) by auto
      moreover have "card (({b..<b + 8} - ?T) \<union> ({b + 8..<?L} - ?T)) = card ({b..<b + 8} - ?T) + card ({b + 8..<?L} - ?T)"
        by (rule card_Un_disjoint) auto
      ultimately show ?thesis
        using n st(2) eq Some q a by simp
    qed
  qed
qed



end
