(* ===== verification/Journal_Trim.thy ===== *)
theory Journal_Trim
  imports HFS_Prelude
begin

text \<open>
  The trim lists of the journal, \<^verbatim>\<open>core/hfs_journal.c\<close>: the byte ranges that the active transaction has freed
  and those of a committed transaction whose trims are in flight.  A list is an array of extents, of which the first
  \<open>extent_count\<close> are in use, kept sorted, disjoint and not touching.  Byte offsets and lengths are those of extents inside
  the device, so their 64-bit sums do not wrap around.  Whether memory for a longer array can be had is the argument
  \<open>mem\<close>; the locks around the in-flight list and the kernel debug traces are not modelled.
\<close>

section \<open>State\<close>

record dk_extent =
  de_offset :: nat
  de_length :: nat

definition mk_dk_extent :: "nat \<Rightarrow> nat \<Rightarrow> dk_extent" where
  "mk_dk_extent off len = \<lparr>de_offset = off, de_length = len\<rparr>"

record jnl_trim_list =
  allocated_count :: nat
  extent_count :: nat
  extents :: "dk_extent list"

record journal =
  jnl_invalid :: bool
  active_trim :: jnl_trim_list
  async_trim :: "jnl_trim_list option"

definition JOURNAL_DEFAULT_TRIM_EXTENTS :: nat where
  "JOURNAL_DEFAULT_TRIM_EXTENTS = 256"

abbreviation de_end :: "dk_extent \<Rightarrow> nat" where
  "de_end e \<equiv> de_offset e + de_length e"

section \<open>Operations\<close>

text \<open>The new elements of a grown array are not initialised; nothing reads them before they are written.\<close>

definition trim_realloc :: "bool \<Rightarrow> jnl_trim_list \<Rightarrow> hfs_err \<times> jnl_trim_list" where
  "trim_realloc mem trim =
     (if \<not> mem then (ENOMEM, trim\<lparr>extent_count := 0\<rparr>)
      else
        (noErr,
         trim\<lparr>allocated_count := allocated_count trim + JOURNAL_DEFAULT_TRIM_EXTENTS,
              extents := take (allocated_count trim) (extents trim) @
                replicate JOURNAL_DEFAULT_TRIM_EXTENTS (mk_dk_extent 0 0)\<rparr>))"

function trim_search_loop :: "dk_extent list \<Rightarrow> nat \<Rightarrow> nat \<Rightarrow> nat \<Rightarrow> nat \<Rightarrow> (nat \<times> nat) option" where
  "trim_search_loop ext offset end' lower upper =
     (if lower < upper then
        let middle = (lower + upper) div 2
        in if de_offset (ext ! middle) \<ge> end' then trim_search_loop ext offset end' lower middle
           else if de_end (ext ! middle) \<le> offset then trim_search_loop ext offset end' (middle + 1) upper
           else Some (de_offset (ext ! middle), de_length (ext ! middle))
      else None)"
  by pat_completeness auto
termination
  by (relation "measure (\<lambda>(ext, offset, end', lower, upper). upper - lower)") auto

declare trim_search_loop.simps [simp del]

definition trim_search_extent :: "jnl_trim_list \<Rightarrow> nat \<Rightarrow> nat \<Rightarrow> (nat \<times> nat) option" where
  "trim_search_extent trim offset len =
     trim_search_loop (extents trim) offset (offset + len) 0 (extent_count trim)"

text \<open>The counting loops, over the extents from the current one on.\<close>

fun trim_count_before :: "nat \<Rightarrow> dk_extent list \<Rightarrow> nat" where
  "trim_count_before offset [] = 0"
| "trim_count_before offset (e # es) =
     (if de_end e < offset then Suc (trim_count_before offset es) else 0)"

fun trim_count_touching :: "nat \<Rightarrow> dk_extent list \<Rightarrow> nat" where
  "trim_count_touching end' [] = 0"
| "trim_count_touching end' (e # es) =
     (if de_offset e \<le> end' then Suc (trim_count_touching end' es) else 0)"

fun trim_count_starting :: "nat \<Rightarrow> dk_extent list \<Rightarrow> nat" where
  "trim_count_starting offset [] = 0"
| "trim_count_starting offset (e # es) =
     (if de_offset e < offset then Suc (trim_count_starting offset es) else 0)"

fun trim_count_inside :: "nat \<Rightarrow> dk_extent list \<Rightarrow> nat" where
  "trim_count_inside end' [] = 0"
| "trim_count_inside end' (e # es) =
     (if de_end e \<le> end' then Suc (trim_count_inside end' es) else 0)"

definition trim_add_extent :: "bool \<Rightarrow> jnl_trim_list \<Rightarrow> nat \<Rightarrow> nat \<Rightarrow> hfs_err \<times> jnl_trim_list" where
  "trim_add_extent mem trim offset len =
     (let end' = offset + len;
          used = take (extent_count trim) (extents trim);
          insert_index = trim_count_before offset used;
          replace_count = trim_count_touching end' (drop insert_index used)
      in if replace_count = 0 then
           case (if extent_count trim = allocated_count trim then trim_realloc mem trim else (noErr, trim)) of
             (err, trim1) \<Rightarrow>
               if err \<noteq> noErr then (ENOMEM, trim1)
               else
                 let ext = (if insert_index < extent_count trim1
                            then memmove (insert_index + 1) insert_index (extent_count trim1 - insert_index) (extents trim1)
                            else extents trim1)
                 in (noErr, trim1\<lparr>extent_count := extent_count trim1 + 1,
                                 extents := ext[insert_index := mk_dk_extent offset len]\<rparr>)
         else
           let offset' = (if de_offset (extents trim ! insert_index) < offset
                          then de_offset (extents trim ! insert_index) else offset);
               final = extents trim ! (insert_index + replace_count - 1);
               end'' = (if de_end final > end' then de_end final else end');
               ext = (extents trim)[insert_index := mk_dk_extent offset' (end'' - offset')];
               ext' = (if replace_count > 1 \<and> insert_index + replace_count < extent_count trim
                       then memmove (insert_index + 1) (insert_index + replace_count)
                              (extent_count trim - insert_index - replace_count) ext
                       else ext)
           in (noErr, trim\<lparr>extents := ext', extent_count := extent_count trim - (replace_count - 1)\<rparr>))"

definition journal_trim_add_extent :: "bool \<Rightarrow> journal \<Rightarrow> nat \<Rightarrow> nat \<Rightarrow> hfs_err \<times> journal" where
  "journal_trim_add_extent mem j offset len =
     (if jnl_invalid j then (EINVAL, j)
      else case trim_add_extent mem (active_trim j) offset len of
             (err, trim) \<Rightarrow> (err, j\<lparr>active_trim := trim\<rparr>))"

text \<open>Whether a pending trim overlaps, and then the end of the overlap.\<close>

definition journal_trim_extent_overlap :: "journal \<Rightarrow> nat \<Rightarrow> nat \<Rightarrow> nat option" where
  "journal_trim_extent_overlap j offset len =
     (let overlap = (case trim_search_extent (active_trim j) offset len of
                       Some r \<Rightarrow> Some r
                     | None \<Rightarrow> (case async_trim j of
                                 None \<Rightarrow> None
                               | Some trim \<Rightarrow> trim_search_extent trim offset len))
      in case overlap of
           None \<Rightarrow> None
         | Some (overlap_start, overlap_len) \<Rightarrow>
             Some (if overlap_start + overlap_len < offset + len then overlap_start + overlap_len
                   else offset + len))"

text \<open>Punching a hole: the extent that holds the whole range is doubled.\<close>

definition trim_punch :: "nat \<Rightarrow> nat \<Rightarrow> jnl_trim_list \<Rightarrow> jnl_trim_list" where
  "trim_punch keep_before keep_after trim =
     trim\<lparr>extents := memmove keep_before keep_after (extent_count trim - keep_after) (extents trim),
          extent_count := extent_count trim + 1\<rparr>"

definition trim_clip :: "nat \<Rightarrow> nat \<Rightarrow> nat \<Rightarrow> nat \<Rightarrow> jnl_trim_list \<Rightarrow> jnl_trim_list" where
  "trim_clip offset end' keep_before keep_after trim =
     (let ext = extents trim;
          ext1 = (if keep_before > 0 \<and> de_end (ext ! (keep_before - 1)) > offset
                  then ext[keep_before - 1 := (ext ! (keep_before - 1))
                         \<lparr>de_length := offset - de_offset (ext ! (keep_before - 1))\<rparr>]
                  else ext);
          ext2 = (if keep_after < extent_count trim \<and> de_offset (ext1 ! keep_after) < end'
                  then ext1[keep_after := mk_dk_extent end' (de_end (ext1 ! keep_after) - end')]
                  else ext1);
          ext3 = (if keep_after > keep_before \<and> keep_after < extent_count trim
                  then memmove keep_before keep_after (extent_count trim - keep_after) ext2
                  else ext2)
      in trim\<lparr>extents := ext3, extent_count := extent_count trim - (keep_after - keep_before)\<rparr>)"

definition trim_remove_extent :: "bool \<Rightarrow> jnl_trim_list \<Rightarrow> nat \<Rightarrow> nat \<Rightarrow> hfs_err \<times> jnl_trim_list" where
  "trim_remove_extent mem trim offset len =
     (let end' = offset + len;
          used = take (extent_count trim) (extents trim);
          keep_before = trim_count_starting offset used;
          first = (if keep_before > 0 then keep_before - 1 else keep_before);
          keep_after = first + trim_count_inside end' (drop first used)
      in if keep_before > keep_after then
           case (if extent_count trim = allocated_count trim then trim_realloc mem trim else (noErr, trim)) of
             (err, trim1) \<Rightarrow>
               if err \<noteq> noErr then (ENOMEM, trim1)
               else (noErr, trim_clip offset end' keep_before (keep_after + 1) (trim_punch keep_before keep_after trim1))
         else (noErr, trim_clip offset end' keep_before keep_after trim))"

definition journal_trim_remove_extent :: "bool \<Rightarrow> journal \<Rightarrow> nat \<Rightarrow> nat \<Rightarrow> hfs_err \<times> journal" where
  "journal_trim_remove_extent mem j offset len =
     (if jnl_invalid j then (EINVAL, j)
      else
        case trim_remove_extent mem (active_trim j) offset len of
          (err, trim) \<Rightarrow>
            let j1 = j\<lparr>active_trim := trim\<rparr>
            in if err \<noteq> noErr then (err, j1)
               else
                 case async_trim j1 of
                   None \<Rightarrow> (noErr, j1)
                 | Some pending \<Rightarrow>
                     if trim_search_extent pending offset len = None then (noErr, j1)
                     else (case trim_remove_extent mem pending offset len of
                             (err', pending') \<Rightarrow> (err', j1\<lparr>async_trim := Some pending'\<rparr>)))"

section \<open>Lists of extents\<close>

definition de_bytes :: "dk_extent list \<Rightarrow> nat set" where
  "de_bytes es = (\<Union>e\<in>set es. {de_offset e..<de_end e})"

definition de_sorted :: "dk_extent list \<Rightarrow> bool" where
  "de_sorted es \<longleftrightarrow> sorted_wrt (\<lambda>a b. de_end a < de_offset b) es \<and> (\<forall>e\<in>set es. 0 < de_length e)"

definition trim_used :: "jnl_trim_list \<Rightarrow> dk_extent list" where
  "trim_used trim = take (extent_count trim) (extents trim)"

definition trim_ok :: "jnl_trim_list \<Rightarrow> bool" where
  "trim_ok trim \<longleftrightarrow> extent_count trim \<le> allocated_count trim \<and> allocated_count trim = length (extents trim) \<and>
     de_sorted (trim_used trim)"

definition trim_bytes :: "jnl_trim_list \<Rightarrow> nat set" where
  "trim_bytes trim = de_bytes (trim_used trim)"

lemma de_bytes_simps [simp]:
  "de_bytes [] = {}" "de_bytes (e # es) = {de_offset e..<de_end e} \<union> de_bytes es"
  "de_bytes (xs @ ys) = de_bytes xs \<union> de_bytes ys"
  by (auto simp: de_bytes_def)

lemma mk_dk_extent_sel [simp]: "de_offset (mk_dk_extent a b) = a" "de_length (mk_dk_extent a b) = b"
  by (simp_all add: mk_dk_extent_def)

lemma de_sorted_append:
  "de_sorted (xs @ ys) \<longleftrightarrow> de_sorted xs \<and> de_sorted ys \<and> (\<forall>x\<in>set xs. \<forall>y\<in>set ys. de_end x < de_offset y)"
  by (auto simp: de_sorted_def sorted_wrt_append)

lemma de_sorted_Cons:
  "de_sorted (e # es) \<longleftrightarrow> 0 < de_length e \<and> (\<forall>y\<in>set es. de_end e < de_offset y) \<and> de_sorted es"
  by (auto simp: de_sorted_def)

lemma trim_used_length: "trim_ok trim \<Longrightarrow> length (trim_used trim) = extent_count trim"
  by (simp add: trim_ok_def trim_used_def)

lemma trim_used_nth: "i < extent_count trim \<Longrightarrow> trim_used trim ! i = extents trim ! i"
  by (simp add: trim_used_def)

text \<open>The counting loops stop at the first extent that fails the test.\<close>

lemma trim_counts:
  "trim_count_before offset es = length (takeWhile (\<lambda>e. de_end e < offset) es)"
  "trim_count_touching end' es = length (takeWhile (\<lambda>e. de_offset e \<le> end') es)"
  "trim_count_starting offset es = length (takeWhile (\<lambda>e. de_offset e < offset) es)"
  "trim_count_inside end' es = length (takeWhile (\<lambda>e. de_end e \<le> end') es)"
  by (induction es) auto

section \<open>Adding a range\<close>

text \<open>
  The three parts of a sorted list that the range \<open>[offset, end')\<close> makes: the extents that end before it, those that
  overlap or touch it, and those that start behind it.
\<close>

lemma add_parts:
  fixes offset end' :: nat
  assumes "de_sorted es" "offset < end'"
  defines "A \<equiv> takeWhile (\<lambda>e. de_end e < offset) es"
  defines "R \<equiv> dropWhile (\<lambda>e. de_end e < offset) es"
  defines "M \<equiv> takeWhile (\<lambda>e. de_offset e \<le> end') R"
  defines "C \<equiv> dropWhile (\<lambda>e. de_offset e \<le> end') R"
  shows "es = A @ M @ C" "\<forall>e\<in>set A. de_end e < offset" "\<forall>e\<in>set M. offset \<le> de_end e \<and> de_offset e \<le> end'"
    "\<forall>e\<in>set C. end' < de_offset e"
proof -
  show es: "es = A @ M @ C"
    by (simp add: A_def M_def C_def R_def)
  show "\<forall>e\<in>set A. de_end e < offset"
    by (auto simp: A_def dest: set_takeWhileD)
  have sorted: "de_sorted R"
    using assms(1) takeWhile_dropWhile_id [of "\<lambda>e. de_end e < offset" es] de_sorted_append
    by (metis R_def)
  have R: "offset \<le> de_end e" if "e \<in> set R" for e
  proof (cases R)
    case (Cons x xs)
    then have "offset \<le> de_end x"
      using hd_dropWhile [of "\<lambda>e. de_end e < offset" es] by (auto simp: R_def)
    then show ?thesis
      using that sorted Cons by (auto simp: de_sorted_Cons)
  qed (use that in simp)
  then show "\<forall>e\<in>set M. offset \<le> de_end e \<and> de_offset e \<le> end'"
    by (auto simp: M_def dest: set_takeWhileD)
  have sortedC: "de_sorted C"
    using sorted takeWhile_dropWhile_id [of "\<lambda>e. de_offset e \<le> end'" R] de_sorted_append by (metis C_def)
  show "\<forall>e\<in>set C. end' < de_offset e"
  proof (cases C)
    case (Cons x xs)
    then have "end' < de_offset x"
      using hd_dropWhile [of "\<lambda>e. de_offset e \<le> end'" R] by (auto simp: C_def)
    then show ?thesis
      using sortedC Cons by (auto simp: de_sorted_Cons)
  qed simp
qed

text \<open>The extents that are replaced, together with the range, are one range.\<close>

lemma merged_bytes:
  assumes "de_sorted M" "M \<noteq> []" "offset < end'" "\<forall>e\<in>set M. offset \<le> de_end e \<and> de_offset e \<le> end'"
  shows "de_bytes M \<union> {offset..<end'} = {min (de_offset (hd M)) offset..<max (de_end (last M)) end'}"
proof -
  have hd: "hd M \<in> set M" and la: "last M \<in> set M"
    using assms(2) by auto
  have bounds: "de_offset (hd M) \<le> de_offset e \<and> de_end e \<le> de_end (last M)" if "e \<in> set M" for e
  proof -
    obtain x xs where x: "M = x # xs"
      using assms(2) by (cases M) auto
    obtain y ys where y: "M = ys @ [y]"
      using assms(2) by (cases M rule: rev_cases) auto
    have "de_offset x \<le> de_offset e"
      using assms(1) that unfolding x by (auto simp: de_sorted_Cons)
    moreover have "de_end e \<le> de_end y"
      using assms(1) that unfolding y by (auto simp: de_sorted_append)
    ultimately show ?thesis
      using x y by (metis last_snoc list.sel(1))
  qed
  show ?thesis
  proof (rule set_eqI, rule iffI)
    fix b
    assume "b \<in> de_bytes M \<union> {offset..<end'}"
    then show "b \<in> {min (de_offset (hd M)) offset..<max (de_end (last M)) end'}"
    proof
      assume "b \<in> de_bytes M"
      then obtain e where "e \<in> set M" "de_offset e \<le> b" "b < de_end e"
        by (auto simp: de_bytes_def)
      then show ?thesis
        using bounds [of e] by auto
    qed auto
  next
    fix b
    assume b: "b \<in> {min (de_offset (hd M)) offset..<max (de_end (last M)) end'}"
    show "b \<in> de_bytes M \<union> {offset..<end'}"
    proof (cases "b < offset")
      case True
      then have "de_offset (hd M) \<le> b" "b < de_end (hd M)"
        using b assms(4) hd by auto
      then show ?thesis
        using hd by (auto simp: de_bytes_def)
    next
      case False
      show ?thesis
      proof (cases "b < end'")
        case True
        then show ?thesis
          using False by simp
      next
        case behind: False
        then have "de_offset (last M) \<le> b" "b < de_end (last M)"
          using b assms(4) la by (auto intro: le_trans)
        then show ?thesis
          using la by (auto simp: de_bytes_def)
      qed
    qed
  qed
qed

lemma de_sorted_merge:
  assumes "de_sorted (A @ M @ C)" "\<forall>x\<in>set A. de_end x < de_offset e" "\<forall>y\<in>set C. de_end e < de_offset y" "0 < de_length e"
  shows "de_sorted (A @ [e] @ C)"
  using assms by (auto simp: de_sorted_append de_sorted_Cons)

text \<open>Room for one more extent.\<close>

definition trim_grow :: "bool \<Rightarrow> jnl_trim_list \<Rightarrow> hfs_err \<times> jnl_trim_list" where
  "trim_grow mem trim = (if extent_count trim = allocated_count trim then trim_realloc mem trim else (noErr, trim))"

lemma trim_grow_spec:
  assumes "trim_ok trim"
  shows "case trim_grow mem trim of (err, t) \<Rightarrow>
    if err = noErr then extent_count t = extent_count trim \<and> trim_used t = trim_used trim \<and>
        extent_count t < allocated_count t \<and> allocated_count t = length (extents t)
    else err = ENOMEM \<and> \<not> mem \<and> trim_ok t \<and> trim_bytes t = {}"
  using assms
  by (auto simp: trim_grow_def trim_realloc_def trim_ok_def trim_used_def trim_bytes_def de_sorted_def
      JOURNAL_DEFAULT_TRIM_EXTENTS_def)

lemma trim_used_insert:
  assumes "extent_count trim < length (extents trim)" "i \<le> extent_count trim"
  shows "take (Suc (extent_count trim))
      ((if i < extent_count trim then memmove (i + 1) i (extent_count trim - i) (extents trim) else extents trim)[i := e]) =
    take i (trim_used trim) @ e # drop i (trim_used trim)"
proof (cases "i < extent_count trim")
  case True
  then show ?thesis
    using memmove_open [of i "extent_count trim" "extents trim" e] assms by (simp add: trim_used_def)
next
  case False
  then have "i = extent_count trim"
    using assms(2) by simp
  then show ?thesis
    using memmove_open [of i "extent_count trim" "extents trim" e] assms by (simp add: trim_used_def memmove_def)
qed

lemma trim_add_extent_spec:
  assumes ok: "trim_ok trim" and len: "0 < len"
  shows "case trim_add_extent mem trim offset len of (err, t) \<Rightarrow>
    trim_ok t \<and> (if err = noErr then trim_bytes t = trim_bytes trim \<union> {offset..<offset + len}
      else err = ENOMEM \<and> \<not> mem \<and> trim_bytes t = {})"
proof -
  let ?fin = "offset + len" and ?es = "trim_used trim"
  define A where "A = takeWhile (\<lambda>e. de_end e < offset) ?es"
  define R where "R = dropWhile (\<lambda>e. de_end e < offset) ?es"
  define M where "M = takeWhile (\<lambda>e. de_offset e \<le> ?fin) R"
  define C where "C = dropWhile (\<lambda>e. de_offset e \<le> ?fin) R"
  have sorted: "de_sorted ?es"
    using ok by (simp add: trim_ok_def)
  note p = add_parts [OF sorted, of offset ?fin, folded A_def R_def, folded M_def C_def]
  have es: "?es = A @ M @ C" and dr: "drop (length A) ?es = R"
    using p(1) len by (auto simp: A_def R_def dropWhile_eq_drop)
  have idx: "trim_count_before offset ?es = length A" "trim_count_touching ?fin (drop (length A) ?es) = length M"
    unfolding dr by (simp_all add: trim_counts A_def M_def)
  have cnt: "extent_count trim = length A + length M + length C"
    using trim_used_length [OF ok] es by simp
  have lens: "allocated_count trim = length (extents trim)" "extent_count trim \<le> length (extents trim)"
    using ok by (simp_all add: trim_ok_def)
  show ?thesis
  proof (cases "M = []")
    case True
    obtain err t where g: "trim_grow mem trim = (err, t)"
      by fastforce
    note gs = trim_grow_spec [OF ok, of mem, unfolded g, simplified]
    show ?thesis
    proof (cases "err = noErr")
      case False
      then show ?thesis
        using gs True idx g unfolding trim_add_extent_def Let_def trim_used_def [symmetric] trim_grow_def [symmetric]
        by simp
    next
      case noerr: True
      define e where "e = mk_dk_extent offset len"
      define ext where "ext = (if length A < extent_count t
        then memmove (length A + 1) (length A) (extent_count t - length A) (extents t) else extents t)[length A := e]"
      define t' where "t' = t\<lparr>extent_count := extent_count t + 1, extents := ext\<rparr>"
      have gt: "extent_count t = extent_count trim" "trim_used t = ?es" "extent_count t < length (extents t)"
        "allocated_count t = length (extents t)"
        using gs noerr by simp_all
      have "trim_used t' = take (Suc (extent_count t)) ext"
        by (simp add: trim_used_def t'_def)
      also have "\<dots> = take (length A) (trim_used t) @ e # drop (length A) (trim_used t)"
        unfolding ext_def by (rule trim_used_insert) (use gt cnt in simp_all)
      finally have "trim_used t' = A @ [e] @ C"
        using gt(2) es True by simp
      moreover have "trim_add_extent mem trim offset len = (noErr, t')"
        using True idx g noerr
        unfolding trim_add_extent_def Let_def trim_used_def [symmetric] trim_grow_def [symmetric]
        by (simp add: t'_def ext_def e_def)
      moreover have "de_sorted (A @ [e] @ C)"
        by (rule de_sorted_merge [of A M]) (use sorted es p(2,4) len in \<open>simp_all add: e_def\<close>)
      moreover have "extent_count t' \<le> allocated_count t'" "allocated_count t' = length (extents t')"
        using gt cnt True by (auto simp: t'_def ext_def)
      ultimately show ?thesis
        using es True by (auto simp: trim_ok_def trim_bytes_def e_def)
    qed
  next
    case False
    then have len_M: "0 < length M"
      by simp
    define off' where "off' = min (de_offset (hd M)) offset"
    define end'' where "end'' = max (de_end (last M)) ?fin"
    define e where "e = mk_dk_extent off' (end'' - off')"
    obtain k where k: "length M = Suc k"
      using len_M by (cases "length M") auto
    have nth: "extents trim ! length A = hd M" "extents trim ! (length A + length M - 1) = last M"
      using trim_used_nth [of "length A" trim] trim_used_nth [of "length A + k" trim] es cnt False k
      by (simp_all add: nth_append hd_conv_nth last_conv_nth)
    define ext where "ext = (extents trim)[length A := e]"
    define ext' where "ext' = (if length M > 1 \<and> length A + length M < extent_count trim
      then memmove (length A + 1) (length A + length M) (extent_count trim - length A - length M) ext else ext)"
    define t' where "t' = trim\<lparr>extents := ext', extent_count := extent_count trim - (length M - 1)\<rparr>"
    have res: "trim_add_extent mem trim offset len = (noErr, t')"
      using False idx len_M nth
      unfolding trim_add_extent_def Let_def trim_used_def [symmetric]
      by (simp add: t'_def ext'_def ext_def e_def off'_def end''_def min_def max_def)
    define D where "D = drop (extent_count trim) (extents trim)"
    have split: "extents trim = A @ M @ C @ D"
      using es unfolding D_def by (metis append.assoc append_take_drop_id trim_used_def)
    have "ext = A @ e # tl M @ C @ D"
      unfolding ext_def split using False by (cases M) (auto simp: list_update_append)
    then have "take (length A + 1 + length C) ext' = A @ [e] @ C"
      using cnt len_M by (cases M rule: list.exhaust; cases "tl M"; cases C) (auto simp: ext'_def memmove_def)
    then have used: "trim_used t' = A @ [e] @ C"
      using cnt k by (simp add: trim_used_def t'_def)
    have arr: "length ext' = length (extents trim)"
      using lens(2) cnt len_M by (simp add: ext'_def ext_def)
    have le: "off' \<le> end''" "off' < end''"
      using len by (auto simp: off'_def end''_def)
    have M: "\<forall>e\<in>set M. offset \<le> de_end e \<and> de_offset e \<le> ?fin" "de_sorted M"
      using p(3) len sorted es by (simp_all add: de_sorted_append)
    have "{off'..<end''} = de_bytes M \<union> {offset..<?fin}"
      using merged_bytes [OF M(2) False _ M(1)] len by (simp add: off'_def end''_def)
    then have bytes: "trim_bytes t' = trim_bytes trim \<union> {offset..<?fin}"
      using used es le by (auto simp: trim_bytes_def e_def)
    have "de_sorted (A @ [e] @ C)"
    proof (rule de_sorted_merge [of A M])
      show "de_sorted (A @ M @ C)"
        using sorted es by simp
      have "hd M \<in> set M" "last M \<in> set M"
        using False by auto
      then show "\<forall>x\<in>set A. de_end x < de_offset e" "\<forall>y\<in>set C. de_end e < de_offset y"
        using p(2,4) len sorted es le by (auto simp: e_def off'_def end''_def de_sorted_append)
      show "0 < de_length e"
        using le by (simp add: e_def)
    qed
    then have "trim_ok t'"
      using used arr lens cnt by (simp add: trim_ok_def t'_def)
    then show ?thesis
      using res bytes by simp
  qed
qed

section \<open>Removing a range\<close>

text \<open>
  The parts for removal: the extents that start before the range, those inside it, and those that end behind it;
  when the range lies inside one extent, that extent both starts before and ends behind it.
\<close>

lemma remove_parts:
  fixes offset end' :: nat
  assumes "de_sorted es"
  defines "A \<equiv> takeWhile (\<lambda>e. de_offset e < offset) es"
  defines "R \<equiv> dropWhile (\<lambda>e. de_offset e < offset) es"
  defines "B \<equiv> takeWhile (\<lambda>e. de_end e \<le> end') R"
  defines "C \<equiv> dropWhile (\<lambda>e. de_end e \<le> end') R"
  shows "es = A @ B @ C" "\<forall>e\<in>set A. de_offset e < offset" "\<forall>e\<in>set B. offset \<le> de_offset e \<and> de_end e \<le> end'"
    "\<forall>e\<in>set C. offset \<le> de_offset e \<and> end' < de_end e"
proof -
  show es: "es = A @ B @ C"
    by (simp add: A_def B_def C_def R_def)
  show "\<forall>e\<in>set A. de_offset e < offset"
    by (auto simp: A_def dest: set_takeWhileD)
  have sorted: "de_sorted R"
    using assms(1) takeWhile_dropWhile_id [of "\<lambda>e. de_offset e < offset" es] de_sorted_append
    by (metis R_def)
  have R: "offset \<le> de_offset e" if "e \<in> set R" for e
  proof (cases R)
    case (Cons x xs)
    then have "offset \<le> de_offset x"
      using hd_dropWhile [of "\<lambda>e. de_offset e < offset" es] by (auto simp: R_def)
    then show ?thesis
      using that sorted Cons by (auto simp: de_sorted_Cons)
  qed (use that in simp)
  then show "\<forall>e\<in>set B. offset \<le> de_offset e \<and> de_end e \<le> end'"
    by (auto simp: B_def dest: set_takeWhileD)
  have sortedC: "de_sorted C"
    using sorted takeWhile_dropWhile_id [of "\<lambda>e. de_end e \<le> end'" R] de_sorted_append by (metis C_def)
  show "\<forall>e\<in>set C. offset \<le> de_offset e \<and> end' < de_end e"
  proof (cases C)
    case (Cons x xs)
    then have "end' < de_end x"
      using hd_dropWhile [of "\<lambda>e. de_end e \<le> end'" R] by (auto simp: C_def)
    then have "\<forall>e\<in>set C. end' < de_end e"
      using sortedC Cons by (auto simp: de_sorted_Cons)
    moreover have "set C \<subseteq> set R"
      unfolding C_def by (meson set_dropWhileD subsetI)
    ultimately show ?thesis
      using R by blast
  qed simp
qed

text \<open>Cutting the end of the last extent before the range, and the start of the first one behind it.\<close>

definition cut_end :: "nat \<Rightarrow> dk_extent \<Rightarrow> dk_extent" where
  "cut_end offset e = (if de_end e > offset then e\<lparr>de_length := offset - de_offset e\<rparr> else e)"

definition cut_start :: "nat \<Rightarrow> dk_extent \<Rightarrow> dk_extent" where
  "cut_start end' e = (if de_offset e < end' then mk_dk_extent end' (de_end e - end') else e)"

definition cut_before :: "nat \<Rightarrow> dk_extent list \<Rightarrow> dk_extent list" where
  "cut_before offset A = (if A = [] then [] else butlast A @ [cut_end offset (last A)])"

definition cut_after :: "nat \<Rightarrow> dk_extent list \<Rightarrow> dk_extent list" where
  "cut_after end' C = (if C = [] then [] else cut_start end' (hd C) # tl C)"

lemma cut_before_spec:
  assumes "de_sorted A" "\<forall>e\<in>set A. de_offset e < offset"
  shows "de_sorted (cut_before offset A) \<and> de_bytes (cut_before offset A) = de_bytes A \<inter> {..<offset} \<and>
    (\<forall>e\<in>set (cut_before offset A). de_end e \<le> offset) \<and> length (cut_before offset A) = length A"
proof (cases A rule: rev_cases)
  case Nil
  then show ?thesis
    by (simp add: cut_before_def de_sorted_def)
next
  case (snoc A' x)
  have x: "de_offset x < offset" "\<And>e. e \<in> set A' \<Longrightarrow> de_end e < de_offset x" "de_sorted A'" "0 < de_length x"
    using assms unfolding snoc by (simp_all add: de_sorted_append de_sorted_Cons)
  then have near: "de_end e \<le> offset" if "e \<in> set A'" for e
    using that by (meson less_imp_le less_trans)
  then have "de_bytes A' \<inter> {..<offset} = de_bytes A'"
    by (force simp: de_bytes_def)
  then show ?thesis
    using x near unfolding snoc cut_before_def cut_end_def
    by (auto simp: de_sorted_append de_sorted_Cons de_sorted_def [of "[]"] intro: less_imp_le)
qed

lemma cut_after_spec:
  assumes "de_sorted C" "\<forall>e\<in>set C. end' < de_end e"
  shows "de_sorted (cut_after end' C) \<and> de_bytes (cut_after end' C) = de_bytes C \<inter> {end'..} \<and>
    (\<forall>e\<in>set (cut_after end' C). end' \<le> de_offset e) \<and> length (cut_after end' C) = length C"
proof (cases C)
  case Nil
  then show ?thesis
    by (simp add: cut_after_def de_sorted_def)
next
  case (Cons x C')
  have x: "end' < de_end x" "\<And>e. e \<in> set C' \<Longrightarrow> de_end x < de_offset e" "de_sorted C'" "0 < de_length x"
    using assms unfolding Cons by (simp_all add: de_sorted_Cons)
  have far: "end' < de_offset e" if "e \<in> set C'" for e
    using x(1) x(2) [OF that] by linarith
  then have "de_bytes C' \<inter> {end'..} = de_bytes C'"
    by (force simp: de_bytes_def)
  then show ?thesis
    using x far unfolding Cons cut_after_def cut_start_def by (auto simp: de_sorted_Cons intro: less_imp_le)
qed

lemma trim_clip_used:
  fixes offset end' :: nat
  assumes "trim_used trim = A @ B @ C" "extent_count trim = length A + length B + length C"
    "extent_count trim \<le> length (extents trim)"
  defines "t \<equiv> trim_clip offset end' (length A) (length A + length B) trim"
  shows "trim_used t = cut_before offset A @ cut_after end' C" "extent_count t = length A + length C"
    "length (extents t) = length (extents trim)" "allocated_count t = allocated_count trim"
proof -
  define D where "D = drop (extent_count trim) (extents trim)"
  have ext: "extents trim = A @ B @ C @ D"
    using assms(1) unfolding D_def by (metis append.assoc append_take_drop_id trim_used_def)
  define ext1 where "ext1 = (if length A > 0 \<and> de_end (extents trim ! (length A - 1)) > offset
      then (extents trim)[length A - 1 := (extents trim ! (length A - 1))
             \<lparr>de_length := offset - de_offset (extents trim ! (length A - 1))\<rparr>]
      else extents trim)"
  have ext1: "ext1 = cut_before offset A @ B @ C @ D"
  proof (cases A rule: rev_cases)
    case Nil
    then show ?thesis
      by (simp add: ext1_def ext cut_before_def)
  next
    case (snoc A' x)
    then have "extents trim ! (length A - 1) = x" "length A - 1 = length A'"
      by (simp_all add: ext nth_append)
    then show ?thesis
      using snoc by (auto simp: ext1_def ext cut_before_def cut_end_def list_update_append)
  qed
  have lenA: "length (cut_before offset A) = length A"
    by (simp add: cut_before_def)
  define ext2 where "ext2 = (if length A + length B < extent_count trim \<and> de_offset (ext1 ! (length A + length B)) < end'
      then ext1[length A + length B := mk_dk_extent end' (de_end (ext1 ! (length A + length B)) - end')] else ext1)"
  have ext2: "ext2 = cut_before offset A @ B @ cut_after end' C @ D"
  proof (cases C)
    case Nil
    then show ?thesis
      using assms(2) by (simp add: ext2_def ext1 cut_after_def)
  next
    case (Cons x C')
    then have "ext1 ! (length A + length B) = x"
      using lenA by (simp add: ext1 nth_append)
    then show ?thesis
      using Cons assms(2) lenA by (auto simp: ext2_def ext1 cut_after_def cut_start_def list_update_append)
  qed
  have lenC: "length (cut_after end' C) = length C"
    by (cases C) (simp_all add: cut_after_def)
  define ext3 where "ext3 = (if length A + length B > length A \<and> length A + length B < extent_count trim
      then memmove (length A) (length A + length B) (extent_count trim - (length A + length B)) ext2 else ext2)"
  have t: "t = trim\<lparr>extents := ext3, extent_count := extent_count trim - (length A + length B - length A)\<rparr>"
    by (simp only: t_def trim_clip_def Let_def ext1_def ext2_def ext3_def)
  have "take (length A + length C) ext3 = cut_before offset A @ cut_after end' C"
    using assms(2) lenA lenC by (cases B; cases C) (simp_all add: ext3_def ext2 memmove_def)
  then show "trim_used t = cut_before offset A @ cut_after end' C"
    using assms(2) by (simp add: trim_used_def t)
  show "extent_count t = length A + length C" "allocated_count t = allocated_count trim"
    using assms(2) by (simp_all add: t)
  have "length ext2 = length (extents trim)"
    using lenA lenC by (simp add: ext2 ext)
  then show "length (extents t) = length (extents trim)"
    using assms(2,3) by (simp add: t ext3_def)
qed

text \<open>What remains of a sorted list when a range is cut out.\<close>

lemma cut_out:
  assumes "de_sorted A" "de_sorted C" "\<forall>e\<in>set A. de_offset e < offset" "\<forall>e\<in>set C. end' < de_end e" "offset < end'"
  shows "de_sorted (cut_before offset A @ cut_after end' C)"
    "de_bytes (cut_before offset A @ cut_after end' C) = de_bytes A \<inter> {..<offset} \<union> de_bytes C \<inter> {end'..}"
proof -
  have b: "de_sorted (cut_before offset A)" "de_bytes (cut_before offset A) = de_bytes A \<inter> {..<offset}"
    "\<And>e. e \<in> set (cut_before offset A) \<Longrightarrow> de_end e \<le> offset"
    using cut_before_spec [OF assms(1,3)] by auto
  have a: "de_sorted (cut_after end' C)" "de_bytes (cut_after end' C) = de_bytes C \<inter> {end'..}"
    "\<And>e. e \<in> set (cut_after end' C) \<Longrightarrow> end' \<le> de_offset e"
    using cut_after_spec [OF assms(2,4)] by auto
  show "de_sorted (cut_before offset A @ cut_after end' C)"
    using a b assms(5) by (fastforce simp: de_sorted_append)
  show "de_bytes (cut_before offset A @ cut_after end' C) = de_bytes A \<inter> {..<offset} \<union> de_bytes C \<inter> {end'..}"
    using a b by simp
qed

lemma trim_clip_correct:
  assumes "trim_used trim = A @ B @ C" "extent_count trim = length A + length B + length C"
    "extent_count trim \<le> length (extents trim)" "allocated_count trim = length (extents trim)"
    "de_sorted A" "de_sorted C" "\<forall>e\<in>set A. de_offset e < offset" "\<forall>e\<in>set C. end' < de_end e" "offset < end'"
  shows "trim_ok (trim_clip offset end' (length A) (length A + length B) trim)"
    "trim_bytes (trim_clip offset end' (length A) (length A + length B) trim) =
       de_bytes A \<inter> {..<offset} \<union> de_bytes C \<inter> {end'..}"
proof -
  note cl = trim_clip_used [OF assms(1-3), where offset = offset and end' = end']
  note co = cut_out [OF assms(5-9)]
  show "trim_ok (trim_clip offset end' (length A) (length A + length B) trim)"
    unfolding trim_ok_def cl using co(1) assms(2-4) by simp
  show "trim_bytes (trim_clip offset end' (length A) (length A + length B) trim) =
      de_bytes A \<inter> {..<offset} \<union> de_bytes C \<inter> {end'..}"
    unfolding trim_bytes_def cl by (rule co(2))
qed

text \<open>The number of the first extent that ends behind the range.\<close>

definition keep_after :: "nat \<Rightarrow> nat \<Rightarrow> dk_extent list \<Rightarrow> nat" where
  "keep_after offset end' es =
     (let keep_before = trim_count_starting offset es;
          first = (if keep_before > 0 then keep_before - 1 else keep_before)
      in first + trim_count_inside end' (drop first es))"

lemma trim_remove_extent_alt:
  "trim_remove_extent mem trim offset len =
     (let kb = trim_count_starting offset (trim_used trim); ka = keep_after offset (offset + len) (trim_used trim)
      in if kb > ka then
           case trim_grow mem trim of (err, trim1) \<Rightarrow>
             if err \<noteq> noErr then (ENOMEM, trim1)
             else (noErr, trim_clip offset (offset + len) kb (ka + 1) (trim_punch kb ka trim1))
         else (noErr, trim_clip offset (offset + len) kb ka trim))"
  by (simp only: trim_remove_extent_def keep_after_def trim_grow_def trim_used_def Let_def)

lemma keep_after_outside:
  assumes "es = A @ R" "length A = trim_count_starting offset es" "A = [] \<or> de_end (last A) \<le> end'"
  shows "keep_after offset end' es = length A + trim_count_inside end' R"
proof (cases A rule: rev_cases)
  case Nil
  then show ?thesis
    using assms(1,2) by (simp add: keep_after_def)
next
  case (snoc A' x)
  have "drop (length A') es = x # R"
    by (simp add: assms(1) snoc)
  moreover have "trim_count_starting offset es = Suc (length A')"
    using assms(2) snoc by simp
  ultimately show ?thesis
    using assms(3) snoc by (simp add: keep_after_def)
qed

lemma keep_after_inside:
  assumes "es = A' @ x # R" "trim_count_starting offset es = Suc (length A')" "end' < de_end x"
  shows "keep_after offset end' es = length A'"
  using assms by (simp add: keep_after_def)

lemma de_sorted_last:
  assumes "de_sorted (A @ R)" "A \<noteq> []"
  shows "\<And>e. e \<in> set A \<Longrightarrow> de_end e \<le> de_end (last A)" "\<And>e. e \<in> set R \<Longrightarrow> de_end (last A) < de_offset e"
proof -
  obtain A' x where A: "A = A' @ [x]"
    using assms(2) by (cases A rule: rev_cases) auto
  show "de_end e \<le> de_end (last A)" if "e \<in> set A" for e
    using assms(1) that unfolding A by (fastforce simp: de_sorted_append)
  show "de_end (last A) < de_offset e" if "e \<in> set R" for e
    using assms(1) that unfolding A by (simp add: de_sorted_append de_sorted_Cons)
qed

lemma remove_outside_bytes:
  fixes offset end' :: nat
  assumes "\<forall>e\<in>set A. de_end e \<le> end'" "\<forall>e\<in>set B. offset \<le> de_offset e \<and> de_end e \<le> end'"
    "\<forall>e\<in>set C. offset \<le> de_offset e" "offset < end'"
  shows "de_bytes A \<inter> {..<offset} \<union> de_bytes C \<inter> {end'..} = de_bytes (A @ B @ C) - {offset..<end'}"
proof -
  have "x < end'" if "x \<in> de_bytes A" for x
    using that assms(1) by (force simp: de_bytes_def)
  moreover have "offset \<le> x \<and> x < end'" if "x \<in> de_bytes B" for x
    using that assms(2) by (force simp: de_bytes_def)
  moreover have "offset \<le> x" if "x \<in> de_bytes C" for x
    using that assms(3) by (force simp: de_bytes_def)
  ultimately show ?thesis
    using assms(4) by fastforce
qed

lemma remove_inside_bytes:
  fixes offset end' :: nat
  assumes "\<forall>e\<in>set A'. de_end e \<le> offset" "\<forall>e\<in>set R. end' \<le> de_offset e" "offset < end'"
  shows "de_bytes (A' @ [x]) \<inter> {..<offset} \<union> de_bytes (x # R) \<inter> {end'..} = de_bytes (A' @ x # R) - {offset..<end'}"
proof -
  have "y < offset" if "y \<in> de_bytes A'" for y
    using that assms(1) by (force simp: de_bytes_def)
  moreover have "end' \<le> y" if "y \<in> de_bytes R" for y
    using that assms(2) by (force simp: de_bytes_def)
  ultimately show ?thesis
    using assms(3) by fastforce
qed

lemma trim_punch_used:
  assumes "trim_used t = A' @ x # R" "extent_count t = length A' + 1 + length R" "extent_count t < length (extents t)"
  defines "t1 \<equiv> trim_punch (Suc (length A')) (length A') t"
  shows "trim_used t1 = (A' @ [x]) @ [] @ (x # R)" "extent_count t1 = extent_count t + 1"
    "length (extents t1) = length (extents t)" "allocated_count t1 = allocated_count t"
proof -
  define D where "D = drop (extent_count t) (extents t)"
  have ext: "extents t = A' @ x # R @ D"
    using assms(1) unfolding D_def by (metis append.assoc append_Cons append_take_drop_id trim_used_def)
  have "D \<noteq> []"
    using assms(3) by (simp add: D_def)
  then obtain d D' where D: "D = d # D'"
    by (cases D) auto
  have mv: "memmove (Suc (length A')) (length A') (Suc (length R)) (extents t) = A' @ x # x # R @ D'"
    unfolding ext D by (simp add: memmove_def)
  have n: "extent_count t - length A' = Suc (length R)"
    using assms(2) by simp
  show "trim_used t1 = (A' @ [x]) @ [] @ (x # R)"
    unfolding t1_def trim_punch_def trim_used_def using assms(2) by (simp add: mv n)
  show "extent_count t1 = extent_count t + 1" "allocated_count t1 = allocated_count t"
    by (simp_all add: t1_def trim_punch_def)
  show "length (extents t1) = length (extents t)"
    unfolding t1_def trim_punch_def using ext D by (simp add: mv n)
qed


lemma trim_remove_punched:
  assumes ok: "trim_ok trim" and len: "0 < len" and es: "trim_used trim = A' @ x # R"
    and kb: "trim_count_starting offset (trim_used trim) = Suc (length A')"
    and A: "\<forall>e\<in>set (A' @ [x]). de_offset e < offset" and x: "offset + len < de_end x"
  shows "case trim_remove_extent mem trim offset len of (err, t) \<Rightarrow>
    trim_ok t \<and> (if err = noErr then trim_bytes t = trim_bytes trim - {offset..<offset + len}
      else err = ENOMEM \<and> \<not> mem \<and> trim_bytes t = {})"
proof -
  let ?fin = "offset + len"
  have sorted: "de_sorted (A' @ x # R)"
    using ok es by (simp add: trim_ok_def)
  have ka: "keep_after offset ?fin (trim_used trim) = length A'"
    using keep_after_inside [OF es kb x] .
  obtain err t where g: "trim_grow mem trim = (err, t)"
    by fastforce
  note gs = trim_grow_spec [OF ok, of mem, unfolded g prod.case]
  have def: "trim_remove_extent mem trim offset len = (if err \<noteq> noErr then (ENOMEM, t)
      else (noErr, trim_clip offset ?fin (Suc (length A')) (Suc (length A')) (trim_punch (Suc (length A')) (length A') t)))"
    unfolding trim_remove_extent_alt Let_def kb ka g by simp
  show ?thesis
  proof (cases "err = noErr")
    case False
    then show ?thesis
      using gs unfolding def by simp
  next
    case True
    define t1 where "t1 = trim_punch (Suc (length A')) (length A') t"
    have t: "trim_used t = A' @ x # R" "extent_count t < length (extents t)" "allocated_count t = length (extents t)"
      "extent_count t = length A' + 1 + length R"
      using gs True es trim_used_length [OF ok] by simp_all
    note t1 = trim_punch_used [OF t(1,4,2), folded t1_def]
    have srt: "de_sorted (A' @ [x])" "de_sorted (x # R)"
      using sorted by (simp_all add: de_sorted_append de_sorted_Cons de_sorted_def [of "[]"])
    have R: "de_end x < de_offset e" if "e \<in> set R" for e
      using sorted that by (simp add: de_sorted_append de_sorted_Cons)
    have A': "de_end e < de_offset x" if "e \<in> set A'" for e
      using sorted that by (simp add: de_sorted_append)
    have C: "\<forall>e\<in>set (x # R). ?fin < de_end e" "\<forall>e\<in>set R. ?fin \<le> de_offset e" "\<forall>e\<in>set A'. de_end e \<le> offset"
      using x R A' A by force+
    have cnt: "extent_count t1 = length (A' @ [x]) + length [] + length (x # R)" "extent_count t1 \<le> length (extents t1)"
      "allocated_count t1 = length (extents t1)" "offset < ?fin"
      using t t1 len by simp_all
    note cl = trim_clip_correct [OF t1(1) cnt(1,2,3) srt A C(1) cnt(4)]
    have "trim_remove_extent mem trim offset len =
        (noErr, trim_clip offset ?fin (length (A' @ [x])) (length (A' @ [x]) + length []) t1)"
      unfolding def t1_def using True by simp
    then show ?thesis
      using cl remove_inside_bytes [OF C(3,2) cnt(4), of x] by (simp add: trim_bytes_def [of trim] es)
  qed
qed

lemma trim_remove_extent_spec:
  assumes ok: "trim_ok trim" and len: "0 < len"
  shows "case trim_remove_extent mem trim offset len of (err, t) \<Rightarrow>
    trim_ok t \<and> (if err = noErr then trim_bytes t = trim_bytes trim - {offset..<offset + len}
      else err = ENOMEM \<and> \<not> mem \<and> trim_bytes t = {})"
proof -
  let ?fin = "offset + len" and ?es = "trim_used trim"
  define A where "A = takeWhile (\<lambda>e. de_offset e < offset) ?es"
  define R where "R = dropWhile (\<lambda>e. de_offset e < offset) ?es"
  define B where "B = takeWhile (\<lambda>e. de_end e \<le> ?fin) R"
  define C where "C = dropWhile (\<lambda>e. de_end e \<le> ?fin) R"
  have sorted: "de_sorted ?es"
    using ok by (simp add: trim_ok_def)
  note p = remove_parts(1) [OF sorted, where offset = offset and end' = ?fin, folded A_def R_def, folded B_def C_def]
    remove_parts(2) [OF sorted, where offset = offset, folded A_def]
    remove_parts(3,4) [OF sorted, where offset = offset and end' = ?fin, folded A_def R_def, folded B_def C_def]
  have kb: "trim_count_starting offset ?es = length A"
    by (simp add: trim_counts A_def)
  have esR: "?es = A @ R"
    by (simp add: A_def R_def)
  show ?thesis
  proof (cases "A = [] \<or> de_end (last A) \<le> ?fin")
    case True
    have ka: "keep_after offset ?fin ?es = length A + length B"
      using keep_after_outside [OF esR kb [symmetric] True] by (simp add: trim_counts B_def)
    have A: "\<forall>e\<in>set A. de_end e \<le> ?fin"
      using True de_sorted_last(1) [of A R] sorted esR by (metis empty_iff empty_set order_trans)
    have srt: "de_sorted A" "de_sorted C"
      using sorted p(1) by (auto simp: de_sorted_append)
    have C: "\<forall>e\<in>set C. ?fin < de_end e" "\<forall>e\<in>set C. offset \<le> de_offset e" "offset < ?fin"
      using p(4) len by auto
    have cnt: "extent_count trim = length A + length B + length C" "extent_count trim \<le> length (extents trim)"
      "allocated_count trim = length (extents trim)"
      using trim_used_length [OF ok] p(1) ok by (simp_all add: trim_ok_def)
    note cl = trim_clip_correct [OF p(1) cnt srt p(2) C(1,3)]
    have "trim_remove_extent mem trim offset len = (noErr, trim_clip offset ?fin (length A) (length A + length B) trim)"
      unfolding trim_remove_extent_alt Let_def kb ka by simp
    then show ?thesis
      using cl remove_outside_bytes [OF A p(3) C(2,3)] p(1) by (simp add: trim_bytes_def [of trim])
  next
    case False
    then obtain A' x where x: "A = A' @ [x]" "?fin < de_end x"
      by (cases A rule: rev_cases) auto
    have pt: "?es = A' @ x # R" "trim_count_starting offset ?es = Suc (length A')" "\<forall>e\<in>set (A' @ [x]). de_offset e < offset"
      using esR kb p(2) x(1) by simp_all
    show ?thesis
      by (rule trim_remove_punched [OF ok len pt x(2)])
  qed
qed

section \<open>Searching\<close>

definition de_apart :: "nat \<Rightarrow> nat \<Rightarrow> dk_extent \<Rightarrow> bool" where
  "de_apart offset end' e \<longleftrightarrow> de_end e \<le> offset \<or> end' \<le> de_offset e"

lemma trim_search_loop_spec:
  assumes "sorted_wrt (\<lambda>a b. de_end a < de_offset b) (take n ext)" "n \<le> length ext" "upper \<le> n"
    and "\<And>i. i < lower \<Longrightarrow> i < n \<Longrightarrow> de_apart offset end' (ext ! i)"
    and "\<And>i. upper \<le> i \<Longrightarrow> i < n \<Longrightarrow> de_apart offset end' (ext ! i)"
  shows "case trim_search_loop ext offset end' lower upper of
      None \<Rightarrow> \<forall>i<n. de_apart offset end' (ext ! i)
    | Some (s, l) \<Rightarrow> \<exists>i<n. de_offset (ext ! i) = s \<and> de_length (ext ! i) = l \<and> \<not> de_apart offset end' (ext ! i)"
  using assms
proof (induction ext offset end' lower upper rule: trim_search_loop.induct)
  case (1 ext offset end' lower upper)
  define middle where "middle = (lower + upper) div 2"
  note eq = trim_search_loop.simps [of ext offset end' lower upper, folded middle_def, unfolded Let_def]
  have mono: "de_end (ext ! i) < de_offset (ext ! j)" if "i < j" "j < n" for i j
    using "1.prems"(1,2) that by (auto simp: sorted_wrt_iff_nth_less)
  show ?case
  proof (cases "lower < upper")
    case False
    show ?thesis
    proof -
      have "de_apart offset end' (ext ! i)" if "i < n" for i
        using "1.prems"(4) [of i] "1.prems"(5) [of i] that False by linarith
      then show ?thesis
        using False unfolding eq by simp
    qed
  next
    case True
    then have mid: "lower \<le> middle" "middle < upper" "middle < n"
      using "1.prems"(3) by (auto simp: middle_def)
    consider "end' \<le> de_offset (ext ! middle)" | "\<not> end' \<le> de_offset (ext ! middle)" "de_end (ext ! middle) \<le> offset"
      | "\<not> de_apart offset end' (ext ! middle)" "\<not> end' \<le> de_offset (ext ! middle)" "\<not> de_end (ext ! middle) \<le> offset"
      by (auto simp: de_apart_def)
    then show ?thesis
    proof cases
      case 1
      have "de_apart offset end' (ext ! i)" if "middle \<le> i" "i < n" for i
        using 1 mono [of middle i] that by (cases "i = middle") (auto simp: de_apart_def)
      then show ?thesis
        using "1.IH"(1) [OF True middle_def 1] "1.prems" mid True 1 unfolding eq by simp
    next
      case 2
      have "de_apart offset end' (ext ! i)" if "i < middle + 1" "i < n" for i
        using 2 mono [of i middle] mid that by (cases "i = middle") (auto simp: de_apart_def)
      then show ?thesis
        using "1.IH"(2) [OF True middle_def 2] "1.prems" mid True 2 unfolding eq by simp
    next
      case 3
      then show ?thesis
        using mid True unfolding eq by auto
    qed
  qed
qed

lemma de_apart_bytes:
  assumes "0 < de_length e" "0 < len"
  shows "de_apart offset (offset + len) e \<longleftrightarrow> {de_offset e..<de_end e} \<inter> {offset..<offset + len} = {}"
proof
  show "{de_offset e..<de_end e} \<inter> {offset..<offset + len} = {}" if "de_apart offset (offset + len) e"
    using that by (auto simp: de_apart_def)
  show "de_apart offset (offset + len) e" if "{de_offset e..<de_end e} \<inter> {offset..<offset + len} = {}"
  proof (rule ccontr)
    assume "\<not> de_apart offset (offset + len) e"
    then have "max (de_offset e) offset \<in> {de_offset e..<de_end e} \<inter> {offset..<offset + len}"
      using assms by (auto simp: de_apart_def)
    with that show False
      by blast
  qed
qed

lemma trim_search_extent_spec:
  assumes "trim_ok trim" "0 < len"
  shows "case trim_search_extent trim offset len of
      None \<Rightarrow> trim_bytes trim \<inter> {offset..<offset + len} = {}
    | Some (s, l) \<Rightarrow> {s..<s + l} \<subseteq> trim_bytes trim \<and> {s..<s + l} \<inter> {offset..<offset + len} \<noteq> {}"
proof -
  let ?n = "extent_count trim" and ?ext = "extents trim" and ?R = "{offset..<offset + len}"
  have ok: "sorted_wrt (\<lambda>a b. de_end a < de_offset b) (take ?n ?ext)" "?n \<le> length ?ext"
    using assms(1) by (auto simp: trim_ok_def de_sorted_def trim_used_def)
  have used: "set (trim_used trim) = {?ext ! i |i. i < ?n}"
    unfolding trim_used_def nth_image [OF ok(2), symmetric] by auto
  have pos: "0 < de_length (?ext ! i)" if "i < ?n" for i
    using assms(1) used that by (auto simp: trim_ok_def de_sorted_def)
  note sp = trim_search_loop_spec [OF ok order.refl, where lower = 0 and offset = offset and end' = "offset + len",
      folded trim_search_extent_def]
  note ap = de_apart_bytes [OF pos assms(2)]
  show ?thesis
  proof (cases "trim_search_extent trim offset len")
    case None
    then have "\<forall>i<?n. de_apart offset (offset + len) (?ext ! i)"
      using sp by simp
    then have "{de_offset e..<de_end e} \<inter> ?R = {}" if "e \<in> set (trim_used trim)" for e
      using that ap unfolding used by blast
    then have "trim_bytes trim \<inter> ?R = {}"
      unfolding trim_bytes_def de_bytes_def by blast
    with None show ?thesis
      by simp
  next
    case (Some r)
    then obtain i where i: "i < ?n" "r = (de_offset (?ext ! i), de_length (?ext ! i))"
      "\<not> de_apart offset (offset + len) (?ext ! i)"
      using sp by (cases r) auto
    have "?ext ! i \<in> set (trim_used trim)"
      using used i(1) by auto
    then have "{de_offset (?ext ! i)..<de_end (?ext ! i)} \<subseteq> trim_bytes trim"
      unfolding trim_bytes_def de_bytes_def by blast
    then show ?thesis
      using Some i ap [OF i(1)] by simp
  qed
qed


section \<open>The journal's two lists\<close>

definition jnl_ok :: "journal \<Rightarrow> bool" where
  "jnl_ok j \<longleftrightarrow> trim_ok (active_trim j) \<and> (case async_trim j of None \<Rightarrow> True | Some t \<Rightarrow> trim_ok t)"

definition async_bytes :: "journal \<Rightarrow> nat set" where
  "async_bytes j = (case async_trim j of None \<Rightarrow> {} | Some t \<Rightarrow> trim_bytes t)"

text \<open>The bytes that will be trimmed unless they are allocated first.\<close>

definition pending_bytes :: "journal \<Rightarrow> nat set" where
  "pending_bytes j = trim_bytes (active_trim j) \<union> async_bytes j"

lemma journal_trim_add_extent_spec:
  assumes "jnl_ok j" "\<not> jnl_invalid j" "0 < len" "journal_trim_add_extent mem j offset len = (err, j')"
  shows "jnl_ok j' \<and> jnl_invalid j' = jnl_invalid j \<and> async_trim j' = async_trim j \<and>
    (if err = noErr then trim_bytes (active_trim j') = trim_bytes (active_trim j) \<union> {offset..<offset + len}
     else err = ENOMEM \<and> \<not> mem \<and> trim_bytes (active_trim j') = {})"
  using trim_add_extent_spec [where trim = "active_trim j" and len = len and mem = mem and offset = offset] assms
  by (auto simp: journal_trim_add_extent_def jnl_ok_def split: prod.splits)

lemma async_search_spec:
  assumes "jnl_ok j" "async_trim j = Some t" "0 < len"
  shows "trim_ok t" "trim_search_extent t offset len = None \<longleftrightarrow> trim_bytes t \<inter> {offset..<offset + len} = {}"
proof -
  show ok: "trim_ok t"
    using assms(1,2) by (simp add: jnl_ok_def)
  show "trim_search_extent t offset len = None \<longleftrightarrow> trim_bytes t \<inter> {offset..<offset + len} = {}"
    using trim_search_extent_spec [OF ok assms(3), of offset] by (auto split: option.splits simp del: atLeastLessThan_subset_iff
        ivl_disj_int_two Int_atLeastLessThan)
qed

lemma journal_trim_remove_extent_spec:
  assumes ok: "jnl_ok j" and "\<not> jnl_invalid j" and len: "0 < len"
    and rem: "journal_trim_remove_extent mem j offset len = (err, j')"
  shows "jnl_ok j' \<and> jnl_invalid j' = jnl_invalid j \<and>
    trim_bytes (active_trim j') \<subseteq> trim_bytes (active_trim j) - {offset..<offset + len} \<and>
    (if err = noErr then pending_bytes j' = pending_bytes j - {offset..<offset + len}
     else err = ENOMEM \<and> \<not> mem \<and> async_bytes j' \<subseteq> async_bytes j)"
proof -
  let ?R = "{offset..<offset + len}"
  obtain e t where e: "trim_remove_extent mem (active_trim j) offset len = (e, t)"
    by fastforce
  have t: "trim_ok t" "if e = noErr then trim_bytes t = trim_bytes (active_trim j) - ?R else e = ENOMEM \<and> \<not> mem \<and> trim_bytes t = {}"
    using trim_remove_extent_spec [OF _ len, where trim = "active_trim j" and mem = mem and offset = offset] ok e by (simp_all add: jnl_ok_def)
  note def = journal_trim_remove_extent_def [of mem j offset len, unfolded e prod.case Let_def]
  consider "e \<noteq> noErr" | "e = noErr" "async_trim j = None"
    | p where "e = noErr" "async_trim j = Some p" "trim_bytes p \<inter> ?R = {}"
    | p where "e = noErr" "async_trim j = Some p" "trim_bytes p \<inter> ?R \<noteq> {}"
    by blast
  then show ?thesis
  proof cases
    case 1
    then show ?thesis
      using def rem assms(2) t ok by (auto simp: jnl_ok_def async_bytes_def)
  next
    case 2
    then show ?thesis
      using def rem assms(2) t ok by (auto simp: jnl_ok_def pending_bytes_def async_bytes_def)
  next
    case 3
    then show ?thesis
      using def rem assms(2) t async_search_spec(1) [OF ok 3(2) len] async_search_spec(2) [OF ok 3(2) len, of offset]
      by (auto simp: jnl_ok_def pending_bytes_def async_bytes_def)
  next
    case 4
    obtain e' p' where e': "trim_remove_extent mem p offset len = (e', p')"
      by fastforce
    have p: "trim_ok p'" "if e' = noErr then trim_bytes p' = trim_bytes p - ?R else e' = ENOMEM \<and> \<not> mem \<and> trim_bytes p' = {}"
      using trim_remove_extent_spec [OF async_search_spec(1) [OF ok 4(2) len] len, where mem = mem and offset = offset] e' by simp_all
    have "err = e'" "j' = j\<lparr>active_trim := t, async_trim := Some p'\<rparr>"
      using def rem assms(2) 4 e' async_search_spec(2) [OF ok 4(2) len, of offset] by auto
    then show ?thesis
      using t p 4(1,2) by (auto simp: jnl_ok_def pending_bytes_def async_bytes_def)
  qed
qed

lemma journal_trim_extent_overlap_spec:
  assumes ok: "jnl_ok j" and len: "0 < len"
  shows "case journal_trim_extent_overlap j offset len of
      None \<Rightarrow> pending_bytes j \<inter> {offset..<offset + len} = {}
    | Some fin \<Rightarrow> offset < fin \<and> fin \<le> offset + len \<and> fin - 1 \<in> pending_bytes j"
proof -
  have hit: "offset < min (s + l) (offset + len) \<and> min (s + l) (offset + len) - 1 \<in> {s..<s + l}"
    if "{s..<s + l} \<inter> {offset..<offset + len} \<noteq> {}" for s l
    using that by auto
  define fin where "fin = (\<lambda>(s, l). if s + l < offset + len then s + l else offset + len)"
  have fin: "fin (s, l) = min (s + l) (offset + len)" for s l
    by (simp add: fin_def)
  have def: "journal_trim_extent_overlap j offset len = map_option fin
      (case trim_search_extent (active_trim j) offset len of
         Some r \<Rightarrow> Some r
       | None \<Rightarrow> (case async_trim j of None \<Rightarrow> None | Some trim \<Rightarrow> trim_search_extent trim offset len))"
    unfolding journal_trim_extent_overlap_def Let_def fin_def by (auto split: option.splits)
  have act: "trim_ok (active_trim j)"
    using ok by (simp add: jnl_ok_def)
  show ?thesis
  proof (cases "trim_search_extent (active_trim j) offset len")
    case (Some r)
    then show ?thesis
      using trim_search_extent_spec [OF act len, of offset] hit unfolding def
      by (cases r) (fastforce simp: fin pending_bytes_def)
  next
    case None
    then have a: "trim_bytes (active_trim j) \<inter> {offset..<offset + len} = {}"
      using trim_search_extent_spec [OF act len, of offset] by simp
    show ?thesis
    proof (cases "async_trim j")
      case (Some p)
      then show ?thesis
        using trim_search_extent_spec [OF async_search_spec(1) [OF ok Some len] len, of offset] hit a None unfolding def
        by (cases "trim_search_extent p offset len") (fastforce simp: fin pending_bytes_def async_bytes_def)+
    qed (use a None def in \<open>simp add: pending_bytes_def async_bytes_def\<close>)
  qed
qed

section \<open>Trims of whole blocks\<close>

text \<open>
  The file system hands whole allocation blocks to the journal: the bytes of block \<open>b\<close> are the \<open>bs\<close> bytes from
  \<open>io + b * bs\<close> on.  A set of bytes is aligned when it has all bytes of a block or none.
\<close>

definition blk_aligned :: "nat \<Rightarrow> nat \<Rightarrow> nat set \<Rightarrow> bool" where
  "blk_aligned io bs S \<longleftrightarrow> (\<forall>x\<in>S. io \<le> x \<and> (\<forall>y. io \<le> y \<and> (y - io) div bs = (x - io) div bs \<longrightarrow> y \<in> S))"

definition jnl_aligned :: "nat \<Rightarrow> nat \<Rightarrow> journal \<Rightarrow> bool" where
  "jnl_aligned io bs j \<longleftrightarrow> blk_aligned io bs (trim_bytes (active_trim j)) \<and> blk_aligned io bs (async_bytes j)"

lemma blk_range_iff:
  fixes io bs :: nat
  assumes "0 < bs"
  shows "x \<in> {io + b * bs..<io + b * bs + n * bs} \<longleftrightarrow> io \<le> x \<and> b \<le> (x - io) div bs \<and> (x - io) div bs < b + n"
proof -
  have "b * bs \<le> d \<and> d < (b + n) * bs \<longleftrightarrow> b \<le> d div bs \<and> d div bs < b + n" for d
    using assms by (simp add: less_eq_div_iff_mult_less_eq div_less_iff_less_mult)
  from this [of "x - io"] show ?thesis
    by (auto simp: add_mult_distrib)
qed

lemma blk_aligned_range: "0 < bs \<Longrightarrow> blk_aligned io bs {io + b * bs..<io + b * bs + n * bs}"
  unfolding blk_aligned_def by (metis blk_range_iff)

lemma blk_aligned_Un: "blk_aligned io bs A \<Longrightarrow> blk_aligned io bs B \<Longrightarrow> blk_aligned io bs (A \<union> B)"
  unfolding blk_aligned_def by blast

lemma blk_aligned_Diff: "blk_aligned io bs A \<Longrightarrow> blk_aligned io bs B \<Longrightarrow> blk_aligned io bs (A - B)"
  unfolding blk_aligned_def by (metis Diff_iff)

lemma blk_aligned_empty [simp]: "blk_aligned io bs {}"
  by (simp add: blk_aligned_def)

text \<open>Every extent of an aligned list ends at the end of a block.\<close>

lemma extent_end_aligned:
  assumes "trim_ok t" "blk_aligned io bs (trim_bytes t)" "e \<in> set (trim_used t)" "0 < bs"
  shows "io \<le> de_end e" "bs dvd de_end e - io"
proof -
  let ?x = "de_end e - 1" and ?y = "de_end e"
  have pos: "0 < de_length e" and srt: "sorted_wrt (\<lambda>a b. de_end a < de_offset b) (trim_used t)"
    using assms(1,3) by (auto simp: trim_ok_def de_sorted_def)
  have x: "?x \<in> trim_bytes t"
    unfolding trim_bytes_def de_bytes_def using assms(3) pos by (intro UN_I [of e]) auto
  note al = bspec [OF assms(2) [unfolded blk_aligned_def] x]
  then have io: "io \<le> ?x"
    by (rule conjunct1)
  have blk: "y \<in> trim_bytes t" if "io \<le> y" "(y - io) div bs = (?x - io) div bs" for y
    using al that by blast
  show "io \<le> ?y"
    using io by linarith
  show "bs dvd ?y - io"
  proof (rule ccontr)
    assume nd: "\<not> bs dvd ?y - io"
    have "?y - io = Suc (?x - io)"
      using io pos by simp
    then have "(?y - io) div bs = (?x - io) div bs"
      using nd by (simp add: div_Suc dvd_eq_mod_eq_0)
    then have "?y \<in> trim_bytes t"
      using blk [of ?y] io by simp
    then obtain e' where e': "e' \<in> set (trim_used t)" "de_offset e' \<le> ?y" "?y < de_end e'"
      by (auto simp: trim_bytes_def de_bytes_def)
    obtain i k where ik: "i < length (trim_used t)" "k < length (trim_used t)" "trim_used t ! i = e" "trim_used t ! k = e'"
      using assms(3) e'(1) by (metis in_set_conv_nth)
    note lt = sorted_wrt_nth_less [OF srt]
    show False
    proof (cases i k rule: linorder_cases)
      case less
      then show False
        using lt [OF less ik(2)] ik(3,4) e'(2) by simp
    next
      case equal
      then show False
        using ik(3,4) e'(3) by simp
    next
      case greater
      then show False
        using lt [OF greater ik(1)] ik(3,4) e'(3) by simp
    qed
  qed
qed

lemma trim_search_extent_mem:
  assumes "trim_ok trim" "trim_search_extent trim offset len = Some (s, l)"
  shows "\<exists>e\<in>set (trim_used trim). de_offset e = s \<and> de_length e = l"
proof -
  let ?n = "extent_count trim" and ?ext = "extents trim"
  have ok: "sorted_wrt (\<lambda>a b. de_end a < de_offset b) (take ?n ?ext)" "?n \<le> length ?ext"
    using assms(1) by (auto simp: trim_ok_def de_sorted_def trim_used_def)
  obtain i where "i < ?n" "de_offset (?ext ! i) = s" "de_length (?ext ! i) = l"
    using trim_search_loop_spec [OF ok order.refl, where lower = 0 and offset = offset and end' = "offset + len",
        folded trim_search_extent_def] assms(2) by auto
  moreover from this ok(2) have "?ext ! i \<in> set (trim_used trim)"
    unfolding trim_used_def nth_image [OF ok(2), symmetric] by simp
  ultimately show ?thesis
    by blast
qed

lemma journal_overlap_extent:
  assumes "jnl_ok j" "journal_trim_extent_overlap j offset len = Some fin"
  shows "fin = offset + len \<or>
    (\<exists>e\<in>set (trim_used (active_trim j)) \<union> (case async_trim j of None \<Rightarrow> {} | Some t \<Rightarrow> set (trim_used t)). fin = de_end e)"
proof -
  have act: "trim_ok (active_trim j)" and asy: "\<And>t. async_trim j = Some t \<Longrightarrow> trim_ok t"
    using assms(1) by (simp_all add: jnl_ok_def)
  obtain s l where r: "trim_search_extent (active_trim j) offset len = Some (s, l) \<or>
      (\<exists>t. async_trim j = Some t \<and> trim_search_extent t offset len = Some (s, l))"
    "fin = (if s + l < offset + len then s + l else offset + len)"
    using assms(2) by (auto simp: journal_trim_extent_overlap_def Let_def split: option.splits)
  show ?thesis
    using r trim_search_extent_mem [OF act, of offset len s l] trim_search_extent_mem [OF asy, of _ offset len s l] by fastforce
qed

text \<open>Asked for whole blocks, the journal reports the end of a block.\<close>

lemma journal_overlap_blocks:
  assumes ok: "jnl_ok j" and al: "jnl_aligned io bs j" and bs: "0 < bs" and n: "0 < n"
    and ov: "journal_trim_extent_overlap j (io + b * bs) (n * bs) = Some fin"
  shows "\<exists>c. fin = io + c * bs \<and> b < c \<and> c \<le> b + n \<and> io + (c - 1) * bs \<in> pending_bytes j"
proof -
  let ?off = "io + b * bs"
  have len: "0 < n * bs"
    using bs n by simp
  have sp: "?off < fin" "fin \<le> ?off + n * bs" "fin - 1 \<in> pending_bytes j"
    using journal_trim_extent_overlap_spec [OF ok len, of ?off] ov by simp_all
  have "bs dvd fin - io"
    using journal_overlap_extent [OF ok ov]
  proof
    assume "fin = ?off + n * bs"
    then show ?thesis
      by (simp add: add_mult_distrib [symmetric])
  next
    assume "\<exists>e\<in>set (trim_used (active_trim j)) \<union> (case async_trim j of None \<Rightarrow> {} | Some t \<Rightarrow> set (trim_used t)). fin = de_end e"
    then obtain e t where e: "e \<in> set (trim_used t)" "fin = de_end e" "t = active_trim j \<or> async_trim j = Some t"
      by (auto split: option.splits)
    then have "trim_ok t" "blk_aligned io bs (trim_bytes t)"
      using ok al by (auto simp: jnl_ok_def jnl_aligned_def async_bytes_def)
    then show ?thesis
      using extent_end_aligned(2) [OF _ _ e(1) bs] e(2) by simp
  qed
  then obtain c where c: "fin - io = c * bs"
    by (metis dvdE mult.commute)
  then have fin: "fin = io + c * bs"
    using sp(1) by linarith
  have "b < c" "c \<le> b + n"
    using sp(1,2) bs unfolding fin by (simp_all add: add_mult_distrib [symmetric])
  moreover have "io + (c - 1) * bs \<in> pending_bytes j"
  proof -
    have "(fin - 1 - io) div bs = c - 1"
      using fin \<open>b < c\<close> bs by (intro div_nat_eqI) (auto simp: algebra_simps diff_mult_distrib)
    moreover have "blk_aligned io bs (pending_bytes j)"
      using al blk_aligned_Un by (simp add: jnl_aligned_def pending_bytes_def)
    ultimately show ?thesis
      using sp(3) bs unfolding blk_aligned_def by (metis add_diff_cancel_left' le_add1 nonzero_mult_div_cancel_right not_gr_zero)
  qed
  ultimately show ?thesis
    using fin by blast
qed

section \<open>The journal as a store of bytes to be trimmed\<close>

text \<open>A request: whether memory can be had, and a range of bytes.\<close>

type_synonym trim_request = "bool \<times> nat \<times> nat"

definition trim_accepted :: "(bool \<Rightarrow> journal \<Rightarrow> nat \<Rightarrow> nat \<Rightarrow> hfs_err \<times> journal) \<Rightarrow> trim_request \<Rightarrow> journal \<Rightarrow> bool" where
  "trim_accepted f r j \<longleftrightarrow> (case r of (mem, offset, len) \<Rightarrow> 0 < len \<and> \<not> jnl_invalid j \<and> fst (f mem j offset len) = noErr)"

definition trim_apply :: "(bool \<Rightarrow> journal \<Rightarrow> nat \<Rightarrow> nat \<Rightarrow> hfs_err \<times> journal) \<Rightarrow> trim_request \<Rightarrow> journal \<Rightarrow> journal" where
  "trim_apply f r j = (case r of (mem, offset, len) \<Rightarrow> snd (f mem j offset len))"

interpretation jt: block_store jnl_ok pending_bytes "\<lambda>(mem, offset, len). {offset..<offset + len}"
  "trim_accepted journal_trim_add_extent" "trim_apply journal_trim_add_extent"
  "trim_accepted journal_trim_remove_extent" "trim_apply journal_trim_remove_extent"
proof unfold_locales
  fix j :: journal and r :: trim_request
  assume ok: "jnl_ok j"
  obtain mem offset len where r: "r = (mem, offset, len)"
    by (cases r)
  {
    assume "trim_accepted journal_trim_add_extent r j"
    then show "jnl_ok (trim_apply journal_trim_add_extent r j)"
      "pending_bytes (trim_apply journal_trim_add_extent r j) =
        pending_bytes j \<union> (case r of (mem, offset, len) \<Rightarrow> {offset..<offset + len})"
      using journal_trim_add_extent_spec [OF ok, of len mem offset] unfolding r
      by (auto simp: trim_accepted_def trim_apply_def pending_bytes_def async_bytes_def prod_eq_iff)
  next
    assume "trim_accepted journal_trim_remove_extent r j"
    then show "jnl_ok (trim_apply journal_trim_remove_extent r j)"
      "pending_bytes (trim_apply journal_trim_remove_extent r j) =
        pending_bytes j - (case r of (mem, offset, len) \<Rightarrow> {offset..<offset + len})"
      using journal_trim_remove_extent_spec [OF ok, of len mem offset] unfolding r
      by (auto simp: trim_accepted_def trim_apply_def prod_eq_iff)
  }
qed

section \<open>Properties\<close>

text \<open>A journal for the examples: two ranges to be trimmed and a full list of one range in flight.\<close>

definition two_trims :: journal where
  "two_trims = \<lparr>jnl_invalid = False,
     active_trim = \<lparr>allocated_count = 2, extent_count = 2, extents = [mk_dk_extent 0 4096, mk_dk_extent 12288 12288]\<rparr>,
     async_trim = Some \<lparr>allocated_count = 1, extent_count = 1, extents = [mk_dk_extent 16384 4096]\<rparr>\<rparr>"

lemma two_trims_ok: "jnl_ok two_trims" "\<not> jnl_invalid two_trims"
  by (simp_all add: two_trims_def jnl_ok_def trim_ok_def trim_used_def de_sorted_def)

text \<open>
  C28. Adding a range to be trimmed keeps the active list sorted, disjoint and inside its array.  It covers exactly the
  old bytes and the new range, or, when the array cannot grow, nothing at all; the list in flight is not touched.
\<close>

theorem journal_trim_add_extent_correct:
  assumes "jnl_ok j" "\<not> jnl_invalid j" "0 < len" "journal_trim_add_extent mem j offset len = (err, j')"
  shows "jnl_ok j' \<and> async_trim j' = async_trim j \<and>
    (if err = noErr then trim_bytes (active_trim j') = trim_bytes (active_trim j) \<union> {offset..<offset + len}
     else err = ENOMEM \<and> \<not> mem \<and> trim_bytes (active_trim j') = {})"
  using journal_trim_add_extent_spec [OF assms] by blast

theorem journal_trim_add_extent_correct_witness:
  "jnl_ok (snd (journal_trim_add_extent True two_trims 4096 8192)) \<and>
   fst (journal_trim_add_extent True two_trims 4096 8192) = noErr"
  using journal_trim_add_extent_correct [OF two_trims_ok, where len = 8192 and mem = True and offset = 4096]
  by (metis prod.collapse zero_less_numeral)

text \<open>
  C29. Once a range is allocated, the active list has none of its bytes, whatever happens; on success no list has, and
  every other byte that was pending still is.
\<close>

theorem journal_trim_remove_extent_safe:
  assumes "jnl_ok j" "\<not> jnl_invalid j" "0 < len" "journal_trim_remove_extent mem j offset len = (err, j')"
  shows "jnl_ok j' \<and> trim_bytes (active_trim j') \<subseteq> trim_bytes (active_trim j) - {offset..<offset + len} \<and>
    (if err = noErr then pending_bytes j' = pending_bytes j - {offset..<offset + len} else err = ENOMEM \<and> \<not> mem)"
  using journal_trim_remove_extent_spec [OF assms] by presburger

theorem journal_trim_remove_extent_safe_witness:
  "pending_bytes (snd (journal_trim_remove_extent True two_trims 16384 4096)) = pending_bytes two_trims - {16384..<20480}"
  using journal_trim_remove_extent_safe [OF two_trims_ok, where len = 4096 and mem = True and offset = 16384]
  by (cases "journal_trim_remove_extent True two_trims 16384 4096") (simp split: if_splits)

text \<open>
  When the active list cannot grow, the error is returned before the list in flight is looked at: its trims stay
  pending even where they overlap the range that is being allocated.
\<close>

lemma journal_trim_remove_extent_skips_flight:
  assumes "\<not> jnl_invalid j" "trim_remove_extent mem (active_trim j) offset len = (ENOMEM, t)"
  shows "journal_trim_remove_extent mem j offset len = (ENOMEM, j\<lparr>active_trim := t\<rparr>) \<and>
    async_bytes (snd (journal_trim_remove_extent mem j offset len)) = async_bytes j"
  using assms by (simp add: journal_trim_remove_extent_def async_bytes_def)

lemma two_trims_stay_in_flight:
  "{16384..<20480} \<subseteq> async_bytes (snd (journal_trim_remove_extent False two_trims 16384 4096))"
proof -
  have "trim_remove_extent False (active_trim two_trims) 16384 4096 =
      (ENOMEM, (active_trim two_trims)\<lparr>extent_count := 0\<rparr>)"
    by (simp add: two_trims_def trim_remove_extent_def trim_realloc_def Let_def)
  then have "async_bytes (snd (journal_trim_remove_extent False two_trims 16384 4096)) = async_bytes two_trims"
    using journal_trim_remove_extent_skips_flight two_trims_ok(2) by blast
  then show ?thesis
    by (simp add: two_trims_def async_bytes_def trim_bytes_def trim_used_def)
qed

text \<open>
  C30. The binary searches find an overlap with the pending trims exactly when there is one; the reported end lies inside
  the range asked for, just behind a byte that is pending.
\<close>

theorem journal_trim_extent_overlap_exact:
  assumes "jnl_ok j" "0 < len"
  shows "case journal_trim_extent_overlap j offset len of
      None \<Rightarrow> pending_bytes j \<inter> {offset..<offset + len} = {}
    | Some fin \<Rightarrow> offset < fin \<and> fin \<le> offset + len \<and> fin - 1 \<in> pending_bytes j"
  by (rule journal_trim_extent_overlap_spec [OF assms])

theorem journal_trim_extent_overlap_exact_witness:
  "journal_trim_extent_overlap two_trims 8192 8192 = Some 16384 \<and> 16383 \<in> pending_bytes two_trims"
proof -
  have "journal_trim_extent_overlap two_trims 8192 8192 = Some 16384"
    by (simp add: two_trims_def journal_trim_extent_overlap_def trim_search_extent_def trim_search_loop.simps)
  then show ?thesis
    using journal_trim_extent_overlap_exact [OF two_trims_ok(1), of 8192 8192] by simp
qed

text \<open>
  Freeing a range and allocating it again before the trim is issued leaves the pending bytes as they were, when
  none of the range was pending before.
\<close>

lemma trim_add_remove_roundtrip:
  assumes "jnl_ok j" "\<not> jnl_invalid j" "0 < len" "pending_bytes j \<inter> {offset..<offset + len} = {}"
    and "journal_trim_add_extent mem j offset len = (noErr, j1)" "journal_trim_remove_extent mem j1 offset len = (noErr, j2)"
  shows "jnl_ok j2 \<and> pending_bytes j2 = pending_bytes j"
proof -
  let ?r = "(mem, offset, len)"
  have "trim_accepted journal_trim_add_extent ?r j" "trim_apply journal_trim_add_extent ?r j = j1"
    using assms(2,3,5) by (simp_all add: trim_accepted_def trim_apply_def)
  moreover have "trim_accepted journal_trim_remove_extent ?r j1" "trim_apply journal_trim_remove_extent ?r j1 = j2"
    using assms(3,6) journal_trim_add_extent_spec [OF assms(1-3,5)] assms(2) by (simp_all add: trim_accepted_def trim_apply_def)
  ultimately show ?thesis
    using jt.del_add_cancel [of j ?r] assms(1,4) by (simp add: Int_commute)
qed

end
