(* ===== verification/Find_Any.thy ===== *)
theory Find_Any
  imports Meta_Zone Journal_Trim
begin

text \<open>
  The search for free blocks of \<^verbatim>\<open>core/VolumeAllocation.c\<close> that may return fewer blocks than wanted:
  \<open>CheckUnmappedBytes\<close>, \<open>BlockFindAnyBitmap\<close> and \<open>BlockFindAny\<close>.  The state of the journal's trim lists, which
  the search only reads, is the argument \<open>j\<close>.  The two loops over the bitmap and the restart of the search are
  partial functions: \<open>None\<close> would mean that they do not return.
\<close>

section \<open>Recently freed blocks\<close>

text \<open>The error, whether the blocks were freed recently, and the end of the overlap.\<close>

definition CheckUnmappedBytes :: "journal \<Rightarrow> hfsmount \<Rightarrow> nat \<Rightarrow> nat \<Rightarrow> hfs_err \<times> nat option" where
  "CheckUnmappedBytes j m blockno numblocks =
     (if jnl m then
        let device_sz = hfs_logical_bytes m;
            device_offset = blockno * blockSize m + hfsPlusIOPosOffset m;
            numbytes = blockSize m * numblocks
        in if device_offset \<ge> device_sz \<or> numbytes > device_sz - device_offset then (EINVAL, None)
           else
             (noErr,
              case journal_trim_extent_overlap j device_offset numbytes of
                None \<Rightarrow> None
              | Some lba_overlap_end \<Rightarrow>
                  Some ((lba_overlap_end - hfsPlusIOPosOffset m) div blockSize m mod 4294967296))
      else (noErr, None))"

section \<open>Searching the bitmap for any free blocks\<close>

text \<open>A piece that was searched from its first block to its last without success is full.\<close>

definition note_full_piece :: "nat \<Rightarrow> hfsmount \<Rightarrow> hfsmount" where
  "note_full_piece summary_block_scan m =
     (if hfs_has_summary m \<and> summary_block_scan \<noteq> 0 then
        case hfs_get_summary_index m summary_block_scan of
          Inl _ \<Rightarrow> m
        | Inr i \<Rightarrow> snd (hfs_set_summary m i 1)
      else m)"

definition piece_start :: "hfsmount \<Rightarrow> nat \<Rightarrow> u32 list \<Rightarrow> bitmap_cursor" where
  "piece_start m ref buf = \<lparr>blockRef = ref, buffer = buf, currentWord = 0, wordsLeft = words_per_block m\<rparr>"

partial_function (option) find_any_free ::
  "(nat \<Rightarrow> hfs_err) \<Rightarrow> u32 \<Rightarrow> nat \<Rightarrow> nat \<Rightarrow> u32 \<Rightarrow> nat \<Rightarrow> bitmap_cursor \<Rightarrow> hfsmount \<Rightarrow>
   (hfs_err \<times> hfsmount + nat \<times> u32 \<times> bitmap_cursor \<times> hfsmount) option" where
  "find_any_free bread flags endingBlock block bitMask summary_block_scan cur m =
     (if block < endingBlock then
        if and (load_word cur) bitMask = 0 then Some (Inr (block, bitMask, cur, m))
        else if drop_bit 1 bitMask \<noteq> 0 then
          find_any_free bread flags endingBlock (add32 block 1) (drop_bit 1 bitMask) summary_block_scan cur m
        else if wordsLeft (step_word cur) \<noteq> 0 then
          find_any_free bread flags endingBlock (add32 block 1) kHighBitInWordMask summary_block_scan
            (step_word cur) m
        else
          let m' = ReleaseBitmapBlock (note_full_piece summary_block_scan m) (blockRef cur) (buffer cur) False;
              block' = (if ISSET flags HFS_ALLOC_METAZONE then add32 block 1 else NextBitmapBlock m' (add32 block 1))
          in if block' \<ge> endingBlock then Some (Inl (dskFulErr, m'))
             else
               case ReadBitmapBlock bread m' block' flags of
                 Inl err \<Rightarrow> Some (Inl (err, m'))
               | Inr (ref, buf) \<Rightarrow>
                   find_any_free bread flags endingBlock block' kHighBitInWordMask block' (piece_start m' ref buf) m'
      else Some (Inl (dskFulErr, m)))"

text \<open>
  The second loop: the end of the free run.  The error code at the start is that of the last call; each piece that is
  read replaces it.
\<close>

partial_function (option) find_any_end ::
  "(nat \<Rightarrow> hfs_err) \<Rightarrow> u32 \<Rightarrow> nat \<Rightarrow> hfs_err \<Rightarrow> nat \<Rightarrow> u32 \<Rightarrow> bitmap_cursor \<Rightarrow> hfsmount \<Rightarrow> (hfs_err \<times> nat) option" where
  "find_any_end bread flags endingBlock err block bitMask cur m =
     (if and (load_word cur) bitMask = 0 then
        let block' = add32 block 1
        in if block' = endingBlock then Some (err, block')
           else if drop_bit 1 bitMask \<noteq> 0 then
             find_any_end bread flags endingBlock err block' (drop_bit 1 bitMask) cur m
           else if wordsLeft (step_word cur) \<noteq> 0 then
             find_any_end bread flags endingBlock err block' kHighBitInWordMask (step_word cur) m
           else if \<not> ISSET flags HFS_ALLOC_METAZONE \<and> NextBitmapBlock m block' \<noteq> block' then Some (noErr, block')
           else if block' \<ge> endingBlock then Some (noErr, block')
           else
             case ReadBitmapBlock bread m block' flags of
               Inl err' \<Rightarrow> Some (err', block')
             | Inr (ref, buf) \<Rightarrow>
                 find_any_end bread flags endingBlock noErr block' kHighBitInWordMask (piece_start m ref buf) m
      else Some (err, block))"

text \<open>
  Where the search starts outside the metadata zone: \<open>None\<close> when the range is inside it.
\<close>

definition skip_metazone :: "hfsmount \<Rightarrow> bool \<Rightarrow> nat \<Rightarrow> nat \<Rightarrow> nat option" where
  "skip_metazone m useMetaZone startingBlock endingBlock =
     (if \<not> useMetaZone \<and> ISSET (hfs_flags m) HFS_METADATA_ZONE \<and> startingBlock \<le> hfs_metazone_end m then
        if endingBlock > add32 (hfs_metazone_end m) 2 then Some (add32 (hfs_metazone_end m) 1) else None
      else Some startingBlock)"

text \<open>The exit of \<open>BlockFindAnyBitmap\<close>, with its sanity check.\<close>

definition find_any_exit :: "hfsmount \<Rightarrow> hfs_err \<Rightarrow> nat \<Rightarrow> nat \<Rightarrow> hfs_err \<times> HFSPlusExtentDescriptor \<times> hfsmount" where
  "find_any_exit m err actualStartBlock block =
     (if err = noErr then
        let actualNumBlocks = sub32 block actualStartBlock
        in if add32 actualStartBlock actualNumBlocks > allocLimit m
           then (hfs_panic, mk_extent actualStartBlock actualNumBlocks, m)
           else (noErr, mk_extent actualStartBlock actualNumBlocks, m)
      else (err, mk_extent 0 0, m))"

partial_function (option) BlockFindAnyBitmap ::
  "(nat \<Rightarrow> hfs_err) \<Rightarrow> journal \<Rightarrow> hfsmount \<Rightarrow> nat \<Rightarrow> nat \<Rightarrow> nat \<Rightarrow> u32 \<Rightarrow>
   (hfs_err \<times> HFSPlusExtentDescriptor \<times> hfsmount) option" where
  "BlockFindAnyBitmap bread j m start endingBlock maxBlocks flags =
     (case skip_metazone m (ISSET flags HFS_ALLOC_METAZONE) start endingBlock of
        None \<Rightarrow> Some (find_any_exit m dskFulErr 0 0)
      | Some startingBlock \<Rightarrow>
          let maxBlocks' = (if maxBlocks > sub32 endingBlock startingBlock then sub32 endingBlock startingBlock
                            else maxBlocks)
          in case ReadBitmapBlock bread m startingBlock flags of
               Inl err \<Rightarrow> Some (find_any_exit m err 0 0)
             | Inr (ref, buf) \<Rightarrow>
                 Option.bind
                   (find_any_free bread flags endingBlock startingBlock
                      (drop_bit (startingBlock mod 32) kHighBitInWordMask) 0 (cursor_at m startingBlock ref buf) m)
                   (\<lambda>r. case r of
                      Inl (err, m') \<Rightarrow> Some (find_any_exit m' err 0 0)
                    | Inr (block, bitMask, cur, m') \<Rightarrow>
                        (case (if jnl m' \<and> \<not> ISSET flags HFS_ALLOC_FLUSHTXN then CheckUnmappedBytes j m' block 1
                               else (noErr, None)) of
                           (err, Some nextblk) \<Rightarrow>
                             BlockFindAnyBitmap bread j m' nextblk endingBlock maxBlocks' flags
                         | (err, None) \<Rightarrow>
                             let endingBlock' = (if block < sub32 endingBlock maxBlocks' then add32 block maxBlocks'
                                                 else endingBlock)
                             in Option.bind (find_any_end bread flags endingBlock' err block bitMask cur m')
                                  (\<lambda>(err', block'). Some (find_any_exit m' err' block block')))))"

definition BlockFindAny ::
  "(nat \<Rightarrow> hfs_err) \<Rightarrow> journal \<Rightarrow> hfsmount \<Rightarrow> nat \<Rightarrow> nat \<Rightarrow> nat \<Rightarrow> u32 \<Rightarrow> bool \<Rightarrow> HFSPlusExtentDescriptor \<Rightarrow>
   (hfs_err \<times> HFSPlusExtentDescriptor \<times> hfsmount) option" where
  "BlockFindAny bread j m startingBlock endingBlock maxBlocks flags trustSummary actual =
     (if hfs_has_summary m then
        case hfs_find_summary_free m startingBlock 0 of
          (err, suggested_start) \<Rightarrow>
            if err = noErr then BlockFindAnyBitmap bread j m suggested_start endingBlock maxBlocks flags
            else if err = ENOSPC \<and> trustSummary then Some (dskFulErr, actual, m)
            else BlockFindAnyBitmap bread j m startingBlock endingBlock maxBlocks flags
      else BlockFindAnyBitmap bread j m startingBlock endingBlock maxBlocks flags)"

section \<open>What a search leaves alone\<close>

text \<open>A search changes at most bits of the summary table.\<close>

definition sum_only :: "hfsmount \<Rightarrow> hfsmount \<Rightarrow> bool" where
  "sum_only m m' \<longleftrightarrow> (\<exists>t. m' = m\<lparr>hfs_summary_table := t\<rparr> \<and> length t = length (hfs_summary_table m))"

lemma sum_only_refl [simp]: "sum_only m m"
  unfolding sum_only_def by (rule exI [of _ "hfs_summary_table m"]) simp

lemma sum_only_trans: "sum_only m m1 \<Longrightarrow> sum_only m1 m2 \<Longrightarrow> sum_only m m2"
  by (auto simp: sum_only_def)

lemma sum_only_same:
  assumes "sum_only m m'"
  shows "bitmap_ok m' = bitmap_ok m" "reservations_ok m' = reservations_ok m"
    "taken_blocks m' flags = taken_blocks m flags" "vcbBitmap m' = vcbBitmap m" "jnl m' = jnl m"
    "allocLimit m' = allocLimit m" "totalBlocks m' = totalBlocks m" "NextBitmapBlock m' = NextBitmapBlock m"
    "hfs_flags m' = hfs_flags m" "hfs_metazone_end m' = hfs_metazone_end m"
    "CheckUnmappedBytes j m' = CheckUnmappedBytes j m" "vcbVBMIOSize m' = vcbVBMIOSize m"
  using assms
  by (auto simp: sum_only_def bitmap_ok_def reservations_ok_def taken_blocks_def reserved_blocks_def NextBitmapBlock_def
      CheckUnmappedBytes_def Let_def fun_eq_iff split: option.splits)

text \<open>
  The summary table tells the truth: a piece whose bit is set has no free block, where reserved blocks are not free.
\<close>

definition summary_true :: "hfsmount \<Rightarrow> bool" where
  "summary_true m \<longleftrightarrow> (hfs_has_summary m \<longrightarrow> summary_ok m \<and>
     (\<forall>b<totalBlocks m. summary_bit m (b div bits_per_iosize m) \<longrightarrow> b \<in> taken_blocks m 0))"

lemma taken_blocks_mono: "taken_blocks m flags \<subseteq> taken_blocks m 0"
  by (auto simp: taken_blocks_def reserved_blocks_def ISSET_def)

lemma note_full_piece_only: "sum_only m (note_full_piece scan m)"
  unfolding note_full_piece_def
  using hfs_set_summary_frame [of m _ 1] by (auto simp: sum_only_def split: sum.splits intro: exI [of _ "hfs_summary_table m"])

lemma note_full_piece_true:
  assumes "summary_true m" "bitmap_ok m" "scan < totalBlocks m" "scan \<noteq> 0 \<Longrightarrow> 32 * words_per_block m dvd scan"
    "scan \<noteq> 0 \<Longrightarrow> run scan (32 * words_per_block m) \<subseteq> taken_blocks m flags"
  shows "summary_true (note_full_piece scan m)"
proof (cases "hfs_has_summary m \<and> scan \<noteq> 0")
  case False
  then show ?thesis
    using assms(1) by (simp only: note_full_piece_def if_False)
next
  case True
  let ?k = "bits_per_iosize m" and ?i = "scan div bits_per_iosize m"
  have ok: "summary_ok m"
    using assms(1) True by (simp add: summary_true_def)
  have k: "?k = 32 * words_per_block m" "0 < ?k"
    using bitmap_okD(2,4) [OF assms(2)] by simp_all
  note s = hfs_set_summary_spec [OF ok summary_index_bound [OF ok assms(3)], of 1]
  have eq: "note_full_piece scan m = snd (hfs_set_summary m ?i 1)"
    using True summary_index [OF ok assms(3)] by (simp add: note_full_piece_def)
  have only: "sum_only m (note_full_piece scan m)"
    by (rule note_full_piece_only)
  have "b \<in> taken_blocks m 0" if "b < totalBlocks m" "summary_bit (note_full_piece scan m) (b div ?k)" for b
  proof (cases "b div ?k = ?i")
    case False
    then show ?thesis
      using that s(3) [of "b div ?k"] assms(1) True unfolding eq by (simp add: summary_true_def)
  next
    case True
    have "scan = ?k * ?i"
      using assms(4) \<open>hfs_has_summary m \<and> scan \<noteq> 0\<close> k(1) by (metis dvd_mult_div_cancel)
    moreover have "b = ?k * ?i + b mod ?k" "b mod ?k < ?k"
      using True k(2) mult_div_mod_eq [of ?k b] by simp_all
    ultimately have "b \<in> run scan (32 * words_per_block m)"
      using k(1) by simp
    then show ?thesis
      using assms(5) \<open>hfs_has_summary m \<and> scan \<noteq> 0\<close> taken_blocks_mono by blast
  qed
  then show ?thesis
    using s(2) [folded eq] unfolding summary_true_def sum_only_same(3,7,12) [OF only] by blast
qed

section \<open>A cursor on one bit\<close>

definition bit_at :: "hfsmount \<Rightarrow> u32 \<Rightarrow> nat \<Rightarrow> bitmap_cursor \<Rightarrow> u32 \<Rightarrow> bool" where
  "bit_at m flags b cur bitMask \<longleftrightarrow> scan_ok m flags b cur \<and> 0 < wordsLeft cur \<and> cur_pos m cur = b div 32 \<and>
     bitMask = drop_bit (b mod 32) kHighBitInWordMask"

lemma bit_at_sum_only:
  assumes "sum_only m m'"
  shows "bit_at m' flags b cur bitMask = bit_at m flags b cur bitMask"
  using sum_only_same [OF assms] by (simp add: bit_at_def scan_ok_def cur_pos_def)

lemma bit_at_test:
  assumes "bit_at m flags b cur bitMask"
  shows "and (load_word cur) bitMask = 0 \<longleftrightarrow> b \<notin> taken_blocks m flags"
proof -
  have "word_blocks (cur_pos m cur) bitMask = {b}"
    using assms word_blocks_bit [of "b mod 32" "b div 32"] by (simp add: bit_at_def)
  then have "word_blocks (cur_pos m cur) (and (load_word cur) bitMask) = taken_blocks m flags \<inter> {b}"
    using scan_word(2) [of m flags b cur bitMask] assms by (simp add: bit_at_def)
  then show ?thesis
    using word_blocks_empty [of "cur_pos m cur" "and (load_word cur) bitMask"] by auto
qed

lemma high_bit_gone: "drop_bit k kHighBitInWordMask = 0 \<longleftrightarrow> 32 \<le> k"
proof
  assume z: "drop_bit k kHighBitInWordMask = 0"
  show "32 \<le> k"
  proof (rule ccontr)
    assume "\<not> 32 \<le> k"
    then have "bit (drop_bit k kHighBitInWordMask) (31 - k)"
      by (simp add: bit_drop_bit_eq bit_kHighBit)
    with z show False
      by simp
  qed
next
  assume "32 \<le> k"
  then show "drop_bit k kHighBitInWordMask = 0"
    by (intro bit_word_eqI) (simp add: bit_drop_bit_eq bit_kHighBit)
qed

lemma Suc_position:
  fixes b :: nat
  shows "b mod 32 \<noteq> 31 \<Longrightarrow> Suc b div 32 = b div 32 \<and> Suc b mod 32 = Suc (b mod 32)"
    "b mod 32 = 31 \<Longrightarrow> Suc b div 32 = Suc (b div 32) \<and> Suc b mod 32 = 0"
proof -
  show "b mod 32 \<noteq> 31 \<Longrightarrow> Suc b div 32 = b div 32 \<and> Suc b mod 32 = Suc (b mod 32)"
    by (auto simp: div_Suc mod_Suc)
  show "b mod 32 = 31 \<Longrightarrow> Suc b div 32 = Suc (b div 32) \<and> Suc b mod 32 = 0"
    by (auto simp: div_Suc mod_Suc)
qed

lemma scan_ok_piece:
  assumes "scan_ok m flags b cur" "0 < wordsLeft cur" "cur_pos m cur = c div 32"
  shows "scan_ok m flags c cur"
proof -
  let ?w = "words_per_block m"
  have "currentWord cur < ?w"
    using assms(1,2) by (auto simp: scan_ok_def)
  then have "c div 32 div ?w = blockRef cur"
    using assms(3) by (simp add: cur_pos_def flip: assms(3))
  then have "blockRef cur = c div (32 * ?w)"
    by (simp only: div_mult2_eq)
  then show ?thesis
    using assms(1) unfolding scan_ok_def by blast
qed

lemma bit_at_next:
  assumes "bit_at m flags b cur bitMask"
  shows "b mod 32 \<noteq> 31 \<Longrightarrow> drop_bit 1 bitMask \<noteq> 0 \<and> bit_at m flags (Suc b) cur (drop_bit 1 bitMask)"
    "b mod 32 = 31 \<Longrightarrow> drop_bit 1 bitMask = 0"
    "b mod 32 = 31 \<Longrightarrow> wordsLeft (step_word cur) \<noteq> 0 \<Longrightarrow> bit_at m flags (Suc b) (step_word cur) kHighBitInWordMask"
    "b mod 32 = 31 \<Longrightarrow> wordsLeft (step_word cur) = 0 \<Longrightarrow> Suc b = Suc (blockRef cur) * (32 * words_per_block m)"
proof -
  have c: "scan_ok m flags b cur" "0 < wordsLeft cur" "cur_pos m cur = b div 32" "bitMask = drop_bit (b mod 32) kHighBitInWordMask"
    using assms by (simp_all add: bit_at_def)
  have d: "drop_bit 1 bitMask = drop_bit (Suc (b mod 32)) kHighBitInWordMask"
    by (simp add: c(4) drop_bit_drop_bit)
  show "drop_bit 1 bitMask = 0" if "b mod 32 = 31"
    using that unfolding d high_bit_gone by simp
  show "drop_bit 1 bitMask \<noteq> 0 \<and> bit_at m flags (Suc b) cur (drop_bit 1 bitMask)" if "b mod 32 \<noteq> 31"
  proof -
    have "b mod 32 < 32"
      by simp
    with that have "b mod 32 < 31"
      by linarith
    moreover note Suc_position(1) [OF that]
    ultimately show ?thesis
      using c scan_ok_piece [OF c(1,2), of "Suc b"] unfolding d high_bit_gone by (simp add: bit_at_def)
  qed
  show "bit_at m flags (Suc b) (step_word cur) kHighBitInWordMask" if "b mod 32 = 31" "wordsLeft (step_word cur) \<noteq> 0"
  proof -
    have s: "scan_ok m flags b (step_word cur)" "cur_pos m (step_word cur) = Suc b div 32"
      using scan_step(1) [OF c(2), of m flags b] scan_step(2) [of m cur] c(1-3) Suc_position(2) [OF that(1)] by simp_all
    then show ?thesis
      using scan_ok_piece [OF s(1) _ s(2)] that(2) Suc_position(2) [OF that(1)] by (simp add: bit_at_def)
  qed
  show "Suc b = Suc (blockRef cur) * (32 * words_per_block m)" if "b mod 32 = 31" "wordsLeft (step_word cur) = 0"
  proof -
    have "wordsLeft cur = 1"
      using c(2) that(2) by (simp add: step_word_def)
    then have "Suc (currentWord cur) = words_per_block m"
      using c(1) by (simp add: scan_ok_def)
    then have "Suc (b div 32) = Suc (blockRef cur) * words_per_block m"
      using c(3) by (simp add: cur_pos_def)
    moreover have "Suc b = 32 * Suc (b div 32)"
      using that(1) by presburger
    ultimately show ?thesis
      by simp
  qed
qed

lemma bit_at_fresh:
  assumes "bitmap_ok m" "reservations_ok m" "b < 32 * length (vcbBitmap m)" "ReadBitmapBlock bread m b flags = Inr (ref, buf)"
  shows "bit_at m flags b (cursor_at m b ref buf) (drop_bit (b mod 32) kHighBitInWordMask)"
  using scan_fresh [OF assms] by (simp add: bit_at_def)

lemma bit_at_piece_start:
  assumes "bitmap_ok m" "reservations_ok m" "b < 32 * length (vcbBitmap m)" "ReadBitmapBlock bread m b flags = Inr (ref, buf)"
    "32 * words_per_block m dvd b"
  shows "bit_at m flags b (piece_start m ref buf) kHighBitInWordMask"
proof -
  note d = bitmap_okD [OF assms(1)]
  have "b mod (32 * words_per_block m) = 0"
    using assms(5) by simp
  then have "cursor_at m b ref buf = piece_start m ref buf"
    using d(6) [of b] by (simp add: cursor_at_def piece_start_def Let_def)
  moreover have "b mod 32 = 0"
    using assms(5) by (metis dvd_mult_left mod_0_imp_dvd dvd_imp_mod_0)
  ultimately show ?thesis
    using bit_at_fresh [OF assms(1-4)] by simp
qed

section \<open>The first loop\<close>

text \<open>The search does not meet the metadata zone.\<close>

definition no_gap :: "hfsmount \<Rightarrow> u32 \<Rightarrow> nat \<Rightarrow> bool" where
  "no_gap m flags block \<longleftrightarrow> ISSET flags HFS_ALLOC_METAZONE \<or> (\<forall>b\<ge>block. NextBitmapBlock m b = b)"

text \<open>The piece that is remembered as read from its start.\<close>

definition scanned :: "hfsmount \<Rightarrow> u32 \<Rightarrow> nat \<Rightarrow> nat \<Rightarrow> bool" where
  "scanned m flags scan block \<longleftrightarrow> scan = 0 \<or> 32 * words_per_block m dvd scan \<and> scan \<le> block \<and>
     scan div (32 * words_per_block m) = block div (32 * words_per_block m) \<and> {scan..<block} \<subseteq> taken_blocks m flags"

definition find_free_result ::
  "(nat \<Rightarrow> hfs_err) \<Rightarrow> u32 \<Rightarrow> nat \<Rightarrow> nat \<Rightarrow> hfsmount \<Rightarrow> hfs_err \<times> hfsmount + nat \<times> u32 \<times> bitmap_cursor \<times> hfsmount \<Rightarrow> bool" where
  "find_free_result bread flags endb block m r \<longleftrightarrow>
     (case r of
        Inl (err, m') \<Rightarrow> sum_only m m' \<and> (summary_true m \<longrightarrow> summary_true m') \<and>
          (err = dskFulErr \<and> {block..<endb} \<subseteq> taken_blocks m flags \<or> err \<noteq> noErr \<and> err \<in> range bread)
      | Inr (b, bitMask, cur, m') \<Rightarrow> sum_only m m' \<and> (summary_true m \<longrightarrow> summary_true m') \<and>
          block \<le> b \<and> b < endb \<and> {block..<b} \<subseteq> taken_blocks m flags \<and> b \<notin> taken_blocks m flags \<and>
          bit_at m flags b cur bitMask)"

lemma find_free_result_Suc:
  assumes "find_free_result bread flags endb (Suc block) m' r" "sum_only m m'" "summary_true m \<longrightarrow> summary_true m'"
    "block \<in> taken_blocks m flags" "block < endb"
  shows "find_free_result bread flags endb block m r"
proof -
  have "{block..<c} \<subseteq> taken_blocks m flags" if "{Suc block..<c} \<subseteq> taken_blocks m flags" for c
  proof
    fix x
    assume "x \<in> {block..<c}"
    then show "x \<in> taken_blocks m flags"
      using that assms(4) by (cases "x = block") auto
  qed
  note ext = this
  have same: "taken_blocks m' flags = taken_blocks m flags" "\<And>b cur w. bit_at m' flags b cur w = bit_at m flags b cur w"
    using sum_only_same(3) [OF assms(2)] bit_at_sum_only [OF assms(2)] by blast+
  show ?thesis
  proof (cases r)
    case (Inl e)
    then show ?thesis
      using assms(1,3) sum_only_trans [OF assms(2)] ext [of endb]
      unfolding find_free_result_def same by (cases e) (simp, blast)
  next
    case (Inr q)
    obtain b w cur m2 where q: "q = (b, w, cur, m2)"
      by (cases q)
    have "block \<le> b" "sum_only m m2"
      using assms(1) sum_only_trans [OF assms(2)] unfolding find_free_result_def Inr q by auto
    then show ?thesis
      using assms(1,3) ext [of b] unfolding find_free_result_def same Inr q by simp
  qed
qed

lemma scanned_Suc:
  assumes "scanned m flags scan block" "block \<in> taken_blocks m flags" "bitmap_ok m"
    "Suc block div (32 * words_per_block m) = block div (32 * words_per_block m)"
  shows "scanned m flags scan (Suc block)"
  using assms by (auto simp: scanned_def less_Suc_eq)

lemma same_piece:
  assumes "bit_at m flags b cur bitMask" "bit_at m flags (Suc b) cur' bitMask'" "blockRef cur' = blockRef cur"
  shows "Suc b div (32 * words_per_block m) = b div (32 * words_per_block m)"
  using assms by (simp add: bit_at_def scan_ok_def)

lemma full_piece:
  assumes "scanned m flags scan block" "block \<in> taken_blocks m flags" "bitmap_ok m" "scan \<noteq> 0"
    "Suc block = Suc ref * (32 * words_per_block m)"
  shows "32 * words_per_block m dvd scan" "run scan (32 * words_per_block m) \<subseteq> taken_blocks m flags" "scan \<le> block"
proof -
  let ?w = "32 * words_per_block m"
  have s: "?w dvd scan" "scan \<le> block" "scan div ?w = block div ?w" "{scan..<block} \<subseteq> taken_blocks m flags"
    using assms(1,4) by (auto simp: scanned_def)
  have w: "0 < ?w"
    using bitmap_okD(2) [OF assms(3)] by simp
  define c where "c = ref * ?w"
  have "Suc block = c + ?w"
    using assms(5) by (simp add: c_def)
  then have "c \<le> block" "block < c + ?w"
    using w by linarith+
  then have "block div ?w = ref"
    unfolding c_def by (intro div_nat_eqI) (simp_all add: mult.commute)
  then have "scan = ref * ?w"
    using s(1,3) by (metis dvd_div_mult_self)
  then have "Suc block = scan + ?w"
    using assms(5) by simp
  then have "run scan ?w \<subseteq> insert block {scan..<block}"
    by auto
  then show "?w dvd scan" "run scan ?w \<subseteq> taken_blocks m flags" "scan \<le> block"
    using s assms(2) by auto
qed

lemma find_any_free_spec:
  assumes ok: "bitmap_ok m" "reservations_ok m" and lim: "endb \<le> totalBlocks m" "endb < 4294967296"
    and gap: "no_gap m flags block" and cur: "block < endb \<Longrightarrow> bit_at m flags block cur bitMask"
    and scan: "scanned m flags scan block"
  shows "\<exists>r. find_any_free bread flags endb block bitMask scan cur m = Some r \<and> find_free_result bread flags endb block m r"
  using assms
proof (induction "endb - block" arbitrary: block bitMask scan cur m rule: less_induct)
  case less
  let ?T = "taken_blocks m flags" and ?w = "words_per_block m"
  note eq = find_any_free.simps [of bread flags endb block bitMask scan cur m]
  note ok = less.prems(1,2) and lim = less.prems(3,4)
  show ?case
  proof (cases "block < endb")
    case False
    then show ?thesis
      unfolding eq by (simp add: find_free_result_def)
  next
    case True
    note cur = less.prems(6) [OF True] and nxt = bit_at_next [OF less.prems(6) [OF True]]
    have suc: "add32 block 1 = Suc block"
      using True lim(2) by (simp add: add32_eq)
    show ?thesis
    proof (cases "block \<in> ?T")
      case False
      then show ?thesis
        unfolding eq using True cur bit_at_test [OF cur] by (simp add: find_free_result_def)
    next
      case taken: True
      then have ne: "and (load_word cur) bitMask \<noteq> 0"
        using bit_at_test [OF cur] by simp
      have gap': "no_gap m flags (Suc block)"
        using less.prems(5) by (auto simp: no_gap_def)
      have go: "\<exists>r. find_any_free bread flags endb block bitMask scan cur m = Some r \<and> find_free_result bread flags endb block m r"
        if "find_any_free bread flags endb block bitMask scan cur m = find_any_free bread flags endb (Suc block) w' scan' cur' m'"
          "sum_only m m'" "summary_true m \<longrightarrow> summary_true m'" "Suc block < endb \<Longrightarrow> bit_at m flags (Suc block) cur' w'"
          "scanned m flags scan' (Suc block)" for w' scan' cur' m'
      proof -
        note s = sum_only_same [OF that(2)]
        have "\<exists>r. find_any_free bread flags endb (Suc block) w' scan' cur' m' = Some r \<and> find_free_result bread flags endb (Suc block) m' r"
        proof (rule less.hyps)
          show "endb - Suc block < endb - block" "bitmap_ok m'" "reservations_ok m'" "endb \<le> totalBlocks m'" "endb < 4294967296"
            using True ok lim s by simp_all
          show "no_gap m' flags (Suc block)" "scanned m' flags scan' (Suc block)"
            using gap' that(5) s by (simp_all add: no_gap_def scanned_def)
          show "bit_at m' flags (Suc block) cur' w'" if "Suc block < endb"
            using \<open>Suc block < endb \<Longrightarrow> bit_at m flags (Suc block) cur' w'\<close> [OF that] bit_at_sum_only [OF \<open>sum_only m m'\<close>] by simp
        qed
        then show ?thesis
          unfolding that(1) using find_free_result_Suc [OF _ that(2,3) taken True] by blast
      qed
      consider "block mod 32 \<noteq> 31" | "block mod 32 = 31" "wordsLeft (step_word cur) \<noteq> 0"
        | "block mod 32 = 31" "wordsLeft (step_word cur) = 0"
        by blast
      then show ?thesis
      proof cases
        case 1
        note n = nxt(1) [OF 1]
        have "find_any_free bread flags endb block bitMask scan cur m =
            find_any_free bread flags endb (Suc block) (drop_bit 1 bitMask) scan cur m"
          unfolding eq suc using True ne n by simp
        moreover have "scanned m flags scan (Suc block)"
          by (rule scanned_Suc [OF less.prems(7) taken ok(1) same_piece [OF cur conjunct2 [OF n]]]) simp
        ultimately show ?thesis
          using n by (intro go [of "drop_bit 1 bitMask" scan cur m]) simp_all
      next
        case 2
        note n = nxt(2) [OF 2(1)] nxt(3) [OF 2]
        have "find_any_free bread flags endb block bitMask scan cur m =
            find_any_free bread flags endb (Suc block) kHighBitInWordMask scan (step_word cur) m"
          unfolding eq suc using True ne n(1) 2 by simp
        moreover have "scanned m flags scan (Suc block)"
          by (rule scanned_Suc [OF less.prems(7) taken ok(1) same_piece [OF cur n(2)]]) (simp add: step_word_def)
        ultimately show ?thesis
          using n(2) by (intro go [of kHighBitInWordMask scan "step_word cur" m]) simp_all
      next
        case 3
        define m' where "m' = note_full_piece scan m"
        note n = nxt(2) [OF 3(1)] nxt(4) [OF 3]
        have only: "sum_only m m'"
          unfolding m'_def by (rule note_full_piece_only)
        note s = sum_only_same [OF only]
        have tru: "summary_true m \<longrightarrow> summary_true m'"
        proof
          assume "summary_true m"
          then show "summary_true m'"
            unfolding m'_def
            using full_piece [OF less.prems(7) taken ok(1) _ n(2)] True lim ok(1)
            by (intro note_full_piece_true [where flags = flags]) (force simp: scanned_def)+
        qed
        have nb: "(if ISSET flags HFS_ALLOC_METAZONE then Suc block else NextBitmapBlock m (Suc block)) = Suc block"
          using gap' by (auto simp: no_gap_def)
        have step: "find_any_free bread flags endb block bitMask scan cur m =
            (if Suc block \<ge> endb then Some (Inl (dskFulErr, m'))
             else case ReadBitmapBlock bread m' (Suc block) flags of
                 Inl err \<Rightarrow> Some (Inl (err, m'))
               | Inr (ref, buf) \<Rightarrow>
                   find_any_free bread flags endb (Suc block) kHighBitInWordMask (Suc block) (piece_start m' ref buf) m')"
          unfolding eq suc Let_def Release_clean m'_def [symmetric] s(8) nb
          using True ne n(1) 3 by simp
        show ?thesis
        proof (cases "Suc block < endb")
          case False
          then have "{block..<endb} = {block}"
            using True by auto
          then show ?thesis
            unfolding step using False only tru taken by (simp add: find_free_result_def)
        next
          case more: True
          show ?thesis
          proof (cases "ReadBitmapBlock bread m' (Suc block) flags")
            case (Inl err)
            then show ?thesis
              unfolding step using more only tru Read_err [OF Inl] by (simp add: find_free_result_def)
          next
            case (Inr r)
            obtain ref buf where r: "r = (ref, buf)"
              by fastforce
            have "find_any_free bread flags endb block bitMask scan cur m =
                find_any_free bread flags endb (Suc block) kHighBitInWordMask (Suc block) (piece_start m' ref buf) m'"
              unfolding step using more Inr r by simp
            moreover have dvd: "32 * words_per_block m dvd Suc block"
              unfolding n(2) by (rule dvd_triv_right)
            moreover have "bit_at m' flags (Suc block) (piece_start m' ref buf) kHighBitInWordMask"
              using bit_at_piece_start [OF _ _ _ Inr [unfolded r]] ok lim more dvd unfolding s by (simp add: bitmap_ok_def)
            ultimately show ?thesis
              using only tru bit_at_sum_only [OF only]
              by (intro go [of kHighBitInWordMask "Suc block" "piece_start m' ref buf" m']) (simp_all add: scanned_def)
          qed
        qed
      qed
    qed
  qed
qed

section \<open>The second loop\<close>

definition find_end_result ::
  "(nat \<Rightarrow> hfs_err) \<Rightarrow> u32 \<Rightarrow> nat \<Rightarrow> nat \<Rightarrow> hfsmount \<Rightarrow> hfs_err \<Rightarrow> hfs_err \<times> nat \<Rightarrow> bool" where
  "find_end_result bread flags endb block m err0 r \<longleftrightarrow>
     (case r of (err, b) \<Rightarrow>
        block \<le> b \<and> b \<le> endb \<and> {block..<b} \<inter> taken_blocks m flags = {} \<and>
        (err = noErr \<or> err = err0 \<or> err \<in> range bread) \<and> (err = noErr \<longrightarrow> b = endb \<or> b \<in> taken_blocks m flags))"

lemma find_end_result_Suc:
  assumes "find_end_result bread flags endb (Suc block) m err' r" "err' = noErr \<or> err' = err0" "block \<notin> taken_blocks m flags"
  shows "find_end_result bread flags endb block m err0 r"
proof -
  have "{block..<b} \<inter> taken_blocks m flags = {}" if "{Suc block..<b} \<inter> taken_blocks m flags = {}" "Suc block \<le> b" for b
  proof -
    have "{block..<b} = insert block {Suc block..<b}"
      using that(2) by auto
    then show ?thesis
      using that(1) assms(3) by simp
  qed
  then show ?thesis
    using assms(1,2) unfolding find_end_result_def by (cases r) (auto simp: Suc_le_eq)
qed

lemma find_any_end_spec:
  assumes ok: "bitmap_ok m" "reservations_ok m" and lim: "endb \<le> totalBlocks m" "endb < 4294967296"
    and gap: "no_gap m flags block" and cur: "bit_at m flags block cur bitMask" and "block < endb"
  shows "\<exists>r. find_any_end bread flags endb err0 block bitMask cur m = Some r \<and> find_end_result bread flags endb block m err0 r"
  using assms(5-)
proof (induction "endb - block" arbitrary: block bitMask cur err0 rule: less_induct)
  case less
  let ?T = "taken_blocks m flags" and ?w = "words_per_block m"
  note eq = find_any_end.simps [of bread flags endb err0 block bitMask cur m]
  note cur = less.prems(2) and nxt = bit_at_next [OF less.prems(2)] and tst = bit_at_test [OF less.prems(2)]
  have suc: "add32 block 1 = Suc block"
    using less.prems(3) lim(2) by (simp add: add32_eq)
  have gap': "no_gap m flags (Suc block)"
    using less.prems(1) by (auto simp: no_gap_def)
  have goal: "\<exists>r. find_any_end bread flags endb err0 block bitMask cur m = Some r \<and> find_end_result bread flags endb block m err0 r"
    if "find_any_end bread flags endb err0 block bitMask cur m = find_any_end bread flags endb err' (Suc block) w' cur' m"
      "err' = noErr \<or> err' = err0" "bit_at m flags (Suc block) cur' w'" "Suc block < endb" "block \<notin> ?T" for err' w' cur'
    using less.hyps [OF _ gap' that(3,4), of err'] find_end_result_Suc [OF _ that(2,5)] that(4) unfolding that(1) by fastforce
  consider "block \<in> ?T" | "block \<notin> ?T" "Suc block = endb"
    | "block \<notin> ?T" "Suc block < endb" "block mod 32 \<noteq> 31"
    | "block \<notin> ?T" "Suc block < endb" "block mod 32 = 31" "wordsLeft (step_word cur) \<noteq> 0"
    | "block \<notin> ?T" "Suc block < endb" "block mod 32 = 31" "wordsLeft (step_word cur) = 0"
    using less.prems(3) by linarith
  then show ?case
  proof cases
    case 1
    then show ?thesis
      unfolding eq using tst less.prems(3) by (simp add: find_end_result_def)
  next
    case 2
    then show ?thesis
      unfolding eq suc using tst by (auto simp: find_end_result_def)
  next
    case 3
    note n = nxt(1) [OF 3(3)]
    have "find_any_end bread flags endb err0 block bitMask cur m =
        find_any_end bread flags endb err0 (Suc block) (drop_bit 1 bitMask) cur m"
      unfolding eq suc Let_def using tst 3 n by simp
    then show ?thesis
      using n 3 by (intro goal [of err0 "drop_bit 1 bitMask" cur]) simp_all
  next
    case 4
    note n = nxt(2) [OF 4(3)] nxt(3) [OF 4(3,4)]
    have "find_any_end bread flags endb err0 block bitMask cur m =
        find_any_end bread flags endb err0 (Suc block) kHighBitInWordMask (step_word cur) m"
      unfolding eq suc Let_def using tst 4 n(1) by simp
    then show ?thesis
      using n(2) 4 by (intro goal [of err0 kHighBitInWordMask "step_word cur"]) simp_all
  next
    case 5
    note n = nxt(2) [OF 5(3)] nxt(4) [OF 5(3,4)]
    have ng: "(\<not> ISSET flags HFS_ALLOC_METAZONE \<and> NextBitmapBlock m (Suc block) \<noteq> Suc block) = False"
      using gap' by (auto simp: no_gap_def)
    have step: "find_any_end bread flags endb err0 block bitMask cur m =
        (case ReadBitmapBlock bread m (Suc block) flags of
           Inl err' \<Rightarrow> Some (err', Suc block)
         | Inr (ref, buf) \<Rightarrow> find_any_end bread flags endb noErr (Suc block) kHighBitInWordMask (piece_start m ref buf) m)"
      unfolding eq suc Let_def ng using tst 5 n(1) by simp
    show ?thesis
    proof (cases "ReadBitmapBlock bread m (Suc block) flags")
      case (Inl err)
      then show ?thesis
        unfolding step using 5 Read_err [OF Inl] by (auto simp: find_end_result_def)
    next
      case (Inr r)
      obtain ref buf where r: "r = (ref, buf)"
        by fastforce
      have "32 * ?w dvd Suc block"
        unfolding n(2) by (rule dvd_triv_right)
      then have "bit_at m flags (Suc block) (piece_start m ref buf) kHighBitInWordMask"
        using bit_at_piece_start [OF ok _ Inr [unfolded r]] ok(1) lim 5(2) by (simp add: bitmap_ok_def)
      then show ?thesis
        using Inr r 5 step by (intro goal [of noErr kHighBitInWordMask "piece_start m ref buf"]) simp_all
    qed
  qed
qed

section \<open>Pending trims as blocks\<close>

text \<open>
  The volume lies inside the device, its block numbers fit into 32 bits, and the journal's trims are whole blocks.
\<close>

definition volume_ok :: "hfsmount \<Rightarrow> bool" where
  "volume_ok m \<longleftrightarrow> bitmap_ok m \<and> reservations_ok m \<and> allocLimit m \<le> totalBlocks m \<and> totalBlocks m < 4294967296 \<and>
     0 < blockSize m \<and> hfsPlusIOPosOffset m + totalBlocks m * blockSize m \<le> hfs_logical_bytes m \<and>
     hfs_metazone_end m + 2 < 4294967296"

definition trims_ok :: "journal \<Rightarrow> hfsmount \<Rightarrow> bool" where
  "trims_ok j m \<longleftrightarrow> jnl_ok j \<and> jnl_aligned (hfsPlusIOPosOffset m) (blockSize m) j"

definition pending_blocks :: "journal \<Rightarrow> hfsmount \<Rightarrow> nat set" where
  "pending_blocks j m = {b. jnl m \<and> hfsPlusIOPosOffset m + b * blockSize m \<in> pending_bytes j}"

lemma sum_only_volume:
  assumes "sum_only m m'"
  shows "volume_ok m' = volume_ok m" "trims_ok j m' = trims_ok j m" "pending_blocks j m' = pending_blocks j m"
    "skip_metazone m' = skip_metazone m" "no_gap m' = no_gap m"
  using assms by (auto simp: sum_only_def volume_ok_def trims_ok_def pending_blocks_def bitmap_ok_def reservations_ok_def
      skip_metazone_def no_gap_def NextBitmapBlock_def fun_eq_iff)

lemma CheckUnmappedBytes_spec:
  assumes "volume_ok m" "trims_ok j m" "0 < n" "b + n \<le> totalBlocks m"
  shows "case CheckUnmappedBytes j m b n of (err, r) \<Rightarrow> err = noErr \<and>
    (case r of
       None \<Rightarrow> run b n \<inter> pending_blocks j m = {}
     | Some c \<Rightarrow> b < c \<and> c \<le> b + n \<and> c - 1 \<in> pending_blocks j m)"
proof (cases "jnl m")
  case False
  then show ?thesis
    by (simp add: CheckUnmappedBytes_def pending_blocks_def)
next
  case True
  let ?io = "hfsPlusIOPosOffset m" and ?bs = "blockSize m"
  have v: "0 < ?bs" "?io + totalBlocks m * ?bs \<le> hfs_logical_bytes m" "totalBlocks m < 4294967296"
    and j: "jnl_ok j" "jnl_aligned ?io ?bs j"
    using assms(1,2) by (auto simp: volume_ok_def trims_ok_def)
  have "(b + n) * ?bs \<le> totalBlocks m * ?bs"
    using assms(4) by (rule mult_le_mono1)
  then have "b * ?bs + n * ?bs + ?io \<le> hfs_logical_bytes m" "0 < n * ?bs"
    using v(1,2) assms(3) by (simp_all add: add_mult_distrib)
  then have fit: "b * ?bs + ?io < hfs_logical_bytes m" "\<not> ?bs * n > hfs_logical_bytes m - (b * ?bs + ?io)"
    using mult.commute [of ?bs n] by linarith+
  have eq: "CheckUnmappedBytes j m b n = (noErr,
      case journal_trim_extent_overlap j (?io + b * ?bs) (n * ?bs) of
        None \<Rightarrow> None | Some fin \<Rightarrow> Some ((fin - ?io) div ?bs mod 4294967296))"
    using True fit by (simp add: CheckUnmappedBytes_def Let_def add.commute mult.commute)
  show ?thesis
  proof (cases "journal_trim_extent_overlap j (?io + b * ?bs) (n * ?bs)")
    case None
    then have out: "pending_bytes j \<inter> {?io + b * ?bs..<?io + b * ?bs + n * ?bs} = {}"
      using journal_trim_extent_overlap_spec [OF j(1), of "n * ?bs" "?io + b * ?bs"] assms(3) v(1) by simp
    have "?io + c * ?bs \<in> {?io + b * ?bs..<?io + b * ?bs + n * ?bs}" if "c \<in> run b n" for c
      unfolding blk_range_iff [OF v(1)] using that v(1) by simp
    then have "run b n \<inter> pending_blocks j m = {}"
      using out unfolding pending_blocks_def by blast
    then show ?thesis
      by (simp add: eq None)
  next
    case (Some fin)
    obtain c where c: "fin = ?io + c * ?bs" "b < c" "c \<le> b + n" "?io + (c - 1) * ?bs \<in> pending_bytes j"
      using journal_overlap_blocks [OF j v(1) assms(3) Some] by blast
    have "(fin - ?io) div ?bs mod 4294967296 = c"
      using c(1,3) assms(4) v(1,3) by simp
    then show ?thesis
      using c True by (simp add: eq Some pending_blocks_def)
  qed
qed

lemma CheckUnmappedBytes_one:
  assumes "volume_ok m" "trims_ok j m" "b < totalBlocks m"
  shows "fst (CheckUnmappedBytes j m b 1) = noErr"
    "case snd (CheckUnmappedBytes j m b 1) of None \<Rightarrow> b \<notin> pending_blocks j m | Some c \<Rightarrow> c = Suc b \<and> b \<in> pending_blocks j m"
proof -
  obtain err r where e: "CheckUnmappedBytes j m b 1 = (err, r)"
    by fastforce
  have sp: "err = noErr" "case r of None \<Rightarrow> run b 1 \<inter> pending_blocks j m = {}
      | Some c \<Rightarrow> b < c \<and> c \<le> b + 1 \<and> c - 1 \<in> pending_blocks j m"
    using CheckUnmappedBytes_spec [OF assms(1,2), of 1 b] assms(3) unfolding e by simp_all
  show "fst (CheckUnmappedBytes j m b 1) = noErr"
    using sp(1) e by simp
  show "case snd (CheckUnmappedBytes j m b 1) of None \<Rightarrow> b \<notin> pending_blocks j m | Some c \<Rightarrow> c = Suc b \<and> b \<in> pending_blocks j m"
  proof (cases r)
    case None
    then show ?thesis
      using sp(2) e by (simp add: run_def)
  next
    case (Some c)
    then have "c = Suc b"
      using sp(2) by simp
    then show ?thesis
      using sp(2) e Some by simp
  qed
qed

section \<open>What the search finds\<close>

definition avoided_blocks :: "journal \<Rightarrow> hfsmount \<Rightarrow> u32 \<Rightarrow> nat set" where
  "avoided_blocks j m flags = (if ISSET flags HFS_ALLOC_FLUSHTXN then {} else pending_blocks j m)"

definition found_any :: "journal \<Rightarrow> hfsmount \<Rightarrow> u32 \<Rightarrow> nat \<Rightarrow> nat \<Rightarrow> nat \<Rightarrow> HFSPlusExtentDescriptor \<Rightarrow> bool" where
  "found_any j m flags start endb maxBlocks ext \<longleftrightarrow>
     start \<le> startBlock ext \<and> 0 < blockCount ext \<and> blockCount ext \<le> maxBlocks \<and> startBlock ext + blockCount ext \<le> endb \<and>
     run (startBlock ext) (blockCount ext) \<inter> taken_blocks m flags = {} \<and> startBlock ext \<notin> avoided_blocks j m flags \<and>
     (\<not> ISSET flags HFS_ALLOC_METAZONE \<and> ISSET (hfs_flags m) HFS_METADATA_ZONE \<longrightarrow> hfs_metazone_end m < startBlock ext)"

definition find_any_result ::
  "(nat \<Rightarrow> hfs_err) \<Rightarrow> journal \<Rightarrow> hfsmount \<Rightarrow> nat \<Rightarrow> nat \<Rightarrow> nat \<Rightarrow> u32 \<Rightarrow> hfs_err \<times> HFSPlusExtentDescriptor \<times> hfsmount \<Rightarrow> bool" where
  "find_any_result bread j m start endb maxBlocks flags r \<longleftrightarrow>
     (case r of (err, ext, m') \<Rightarrow> sum_only m m' \<and> (summary_true m \<longrightarrow> summary_true m') \<and>
        (err = noErr \<and> found_any j m flags start endb maxBlocks ext \<or>
         err = dskFulErr \<and>
           (\<forall>start'. skip_metazone m (ISSET flags HFS_ALLOC_METAZONE) start endb = Some start' \<longrightarrow>
              {start'..<endb} \<subseteq> taken_blocks m flags \<union> avoided_blocks j m flags) \<or>
         err \<noteq> noErr \<and> err \<in> range bread))"

lemma skip_metazone_spec:
  assumes "volume_ok m" "skip_metazone m (ISSET flags HFS_ALLOC_METAZONE) start endb = Some start'"
  shows "start \<le> start'" "no_gap m flags start'"
    "\<not> ISSET flags HFS_ALLOC_METAZONE \<and> ISSET (hfs_flags m) HFS_METADATA_ZONE \<longrightarrow> hfs_metazone_end m < start'"
    "start \<noteq> start' \<longrightarrow> start' < endb"
    "start' \<le> b \<longrightarrow> skip_metazone m (ISSET flags HFS_ALLOC_METAZONE) b endb = Some b"
  using assms
  by (auto simp: skip_metazone_def volume_ok_def add32_eq no_gap_def NextBitmapBlock_def ISSET_def split: if_splits)

text \<open>The restart behind a block whose trim is pending, and the end of the search.\<close>

lemma find_any_result_restart:
  assumes "find_any_result bread j m' (Suc b) endb maxBlocks' flags r" "sum_only m m'" "summary_true m \<longrightarrow> summary_true m'"
    "skip_metazone m (ISSET flags HFS_ALLOC_METAZONE) start endb = Some start'" "volume_ok m"
    "start' \<le> b" "{start'..<b} \<subseteq> taken_blocks m flags" "b \<in> avoided_blocks j m flags" "maxBlocks' \<le> maxBlocks"
  shows "find_any_result bread j m start endb maxBlocks flags r"
proof -
  note k = skip_metazone_spec [OF assms(5,4)]
  have same: "taken_blocks m' flags = taken_blocks m flags" "avoided_blocks j m' flags = avoided_blocks j m flags"
    "skip_metazone m' = skip_metazone m" "hfs_flags m' = hfs_flags m" "hfs_metazone_end m' = hfs_metazone_end m"
    using sum_only_same [OF assms(2)] sum_only_volume [OF assms(2)] by (simp_all add: avoided_blocks_def)
  have "{start'..<endb} \<subseteq> {start'..<b} \<union> {b} \<union> {Suc b..<endb}"
    by auto
  then have full: "{start'..<endb} \<subseteq> taken_blocks m flags \<union> avoided_blocks j m flags"
    if "{Suc b..<endb} \<subseteq> taken_blocks m flags \<union> avoided_blocks j m flags"
    using that assms(7,8) by blast
  obtain err ext m2 where r: "r = (err, ext, m2)"
    by (cases r)
  have "sum_only m m2" "summary_true m \<longrightarrow> summary_true m2"
    using assms(1,3) sum_only_trans [OF assms(2)] unfolding r find_any_result_def by auto
  moreover have "found_any j m flags start endb maxBlocks ext" if "found_any j m' flags (Suc b) endb maxBlocks' ext"
    using that k(1) assms(6,9) unfolding found_any_def same by auto
  moreover have "skip_metazone m (ISSET flags HFS_ALLOC_METAZONE) (Suc b) endb = Some (Suc b)"
    using k(5) [of "Suc b"] assms(6) by simp
  ultimately show ?thesis
    using assms(1,4) full unfolding find_any_result_def r same by auto
qed

lemma find_any_found:
  assumes vol: "volume_ok m" and lim: "endb \<le> allocLimit m"
    and skip: "skip_metazone m (ISSET flags HFS_ALLOC_METAZONE) start endb = Some start'"
    and only: "sum_only m m'" "summary_true m \<longrightarrow> summary_true m'" and mx: "0 < maxBlocks'" "maxBlocks' \<le> maxBlocks" "maxBlocks' \<le> endb"
    and b: "start' \<le> b" "b < endb" "b \<notin> taken_blocks m flags" "bit_at m flags b cur w" "b \<notin> avoided_blocks j m flags"
  shows "\<exists>r. Option.bind (find_any_end bread flags (if b < sub32 endb maxBlocks' then add32 b maxBlocks' else endb) noErr b w cur m')
      (\<lambda>(err', block'). Some (find_any_exit m' err' b block')) = Some r \<and>
    find_any_result bread j m start endb maxBlocks flags r"
proof -
  note k = skip_metazone_spec [OF vol skip] and s = sum_only_same [OF only(1)] sum_only_volume [OF only(1)]
  have v: "bitmap_ok m" "reservations_ok m" "allocLimit m \<le> totalBlocks m" "totalBlocks m < 4294967296"
    using vol by (simp_all add: volume_ok_def)
  define e where "e = (if b < sub32 endb maxBlocks' then add32 b maxBlocks' else endb)"
  have e: "b < e" "e \<le> endb" "e \<le> b + maxBlocks'"
    using mx(1,3) b(2) lim v(3,4) by (auto simp: e_def sub32_eq add32_eq split: if_splits)
  obtain err c where r: "find_any_end bread flags e noErr b w cur m' = Some (err, c)"
    "find_end_result bread flags e b m' noErr (err, c)"
    using find_any_end_spec [of m' e flags b cur w bread noErr] v lim e k(2) b(1,4) s bit_at_sum_only [OF only(1)]
    by (force simp: no_gap_def)
  have c: "b \<le> c" "c \<le> e" "{b..<c} \<inter> taken_blocks m flags = {}" "err = noErr \<or> err \<in> range bread"
    "err = noErr \<longrightarrow> c = e \<or> c \<in> taken_blocks m flags"
    using r(2) s by (auto simp: find_end_result_def)
  show ?thesis
  proof (cases "err = noErr")
    case True
    then have "b < c"
      using c(1,5) e(1) b(3) by (cases "c = b") auto
    then have "find_any_exit m' err b c = (noErr, mk_extent b (c - b), m')"
      using True c(2) e(2) lim v(3,4) s by (simp add: find_any_exit_def sub32_eq add32_eq Let_def)
    moreover have "run b (c - b) = {b..<c}"
      using \<open>b < c\<close> by (simp add: run_def)
    ultimately show ?thesis
      using r(1) \<open>b < c\<close> c e b k mx(2) only unfolding e_def [symmetric]
      by (auto simp: find_any_result_def found_any_def)
  next
    case False
    then show ?thesis
      using r(1) c(4) only unfolding e_def [symmetric] by (simp add: find_any_result_def find_any_exit_def)
  qed
qed

lemma BlockFindAnyBitmap_spec:
  assumes vol: "volume_ok m" "trims_ok j m" and lim: "endb \<le> allocLimit m" and mx: "start < endb \<Longrightarrow> 0 < maxBlocks"
  shows "\<exists>r. BlockFindAnyBitmap bread j m start endb maxBlocks flags = Some r \<and>
    find_any_result bread j m start endb maxBlocks flags r"
  using assms
proof (induction "endb - start" arbitrary: start maxBlocks m rule: less_induct)
  case less
  note vol = less.prems(1,2) and lim = less.prems(3)
  note eq = BlockFindAnyBitmap.simps [of bread j m start endb maxBlocks flags]
  have v: "bitmap_ok m" "reservations_ok m" "allocLimit m \<le> totalBlocks m" "totalBlocks m < 4294967296"
    using vol(1) by (simp_all add: volume_ok_def)
  show ?case
  proof (cases "skip_metazone m (ISSET flags HFS_ALLOC_METAZONE) start endb")
    case None
    then show ?thesis
      by (simp add: eq find_any_exit_def find_any_result_def)
  next
    case (Some start')
    note k = skip_metazone_spec [OF vol(1) Some]
    define mx where "mx = (if maxBlocks > sub32 endb start' then sub32 endb start' else maxBlocks)"
    have mx: "mx \<le> maxBlocks" "start' < endb \<Longrightarrow> 0 < mx \<and> mx \<le> endb"
      using k(1) less.prems(4) lim v(3,4) by (auto simp: mx_def sub32_eq)
    show ?thesis
    proof (cases "ReadBitmapBlock bread m start' flags")
      case (Inl err)
      then show ?thesis
        using Some Read_err [OF Inl] by (simp add: eq find_any_exit_def find_any_result_def)
    next
      case (Inr q)
      obtain ref buf where q: "q = (ref, buf)"
        by fastforce
      let ?cur = "cursor_at m start' ref buf" and ?w = "drop_bit (start' mod 32) kHighBitInWordMask"
      have cur: "bit_at m flags start' ?cur ?w" if "start' < endb"
        using bit_at_fresh [OF v(1,2) _ Inr [unfolded q]] that lim v(1,3) by (simp add: bitmap_ok_def)
      obtain r where r: "find_any_free bread flags endb start' ?w 0 ?cur m = Some r" "find_free_result bread flags endb start' m r"
        using find_any_free_spec [OF v(1,2) _ _ k(2) cur, of endb 0 bread] lim v(3,4) by (auto simp: scanned_def)
      show ?thesis
      proof (cases r)
        case (Inl e)
        then show ?thesis
          using Some Inr q r by (cases e) (auto simp: eq find_any_exit_def find_any_result_def find_free_result_def)
      next
        case r': (Inr p)
        obtain b w cur m' where p: "p = (b, w, cur, m')"
          by (cases p)
        have b: "sum_only m m'" "summary_true m \<longrightarrow> summary_true m'" "start' \<le> b" "b < endb"
          "{start'..<b} \<subseteq> taken_blocks m flags" "b \<notin> taken_blocks m flags" "bit_at m flags b cur w"
          using r(2) unfolding r' p by (simp_all add: find_free_result_def)
        note s = sum_only_same [OF b(1)] sum_only_volume [OF b(1)]
        define chk where "chk = (if jnl m' \<and> \<not> ISSET flags HFS_ALLOC_FLUSHTXN then CheckUnmappedBytes j m' b 1 else (noErr, None))"
        have chk: "fst chk = noErr" "case snd chk of None \<Rightarrow> b \<notin> avoided_blocks j m flags
            | Some c \<Rightarrow> c = Suc b \<and> b \<in> avoided_blocks j m flags"
          using CheckUnmappedBytes_one [OF vol, of b] b(4) lim v(3)
          by (auto simp: chk_def s avoided_blocks_def pending_blocks_def split: option.splits)
        have step: "BlockFindAnyBitmap bread j m start endb maxBlocks flags =
            (case snd chk of
               Some nextblk \<Rightarrow> BlockFindAnyBitmap bread j m' nextblk endb mx flags
             | None \<Rightarrow> Option.bind (find_any_end bread flags (if b < sub32 endb mx then add32 b mx else endb) noErr b w cur m')
                 (\<lambda>(err', block'). Some (find_any_exit m' err' b block')))"
        proof -
          obtain nx where "chk = (noErr, nx)"
            using chk(1) by (cases chk) simp
          then show ?thesis
            unfolding eq Some option.case Let_def mx_def [symmetric] Inr q sum.case prod.case r(1) r' p
            by (simp add: chk_def [symmetric] split: option.splits)
        qed
        show ?thesis
        proof (cases "snd chk")
          case None
          then have na: "b \<notin> avoided_blocks j m flags"
            using chk(2) by simp
          have "0 < mx" "mx \<le> endb"
            using mx(2) b(3,4) by simp_all
          then show ?thesis
            unfolding step None option.case
            using find_any_found [OF vol(1) lim Some b(1,2) _ mx(1) _ b(3,4,6,7) na] by blast
        next
          case (Some c)
          then have c: "c = Suc b" "b \<in> avoided_blocks j m flags"
            using chk(2) by simp_all
          have "\<exists>r. BlockFindAnyBitmap bread j m' (Suc b) endb mx flags = Some r \<and> find_any_result bread j m' (Suc b) endb mx flags r"
            using b(3,4) k(1) vol lim mx s by (intro less.hyps) auto
          then show ?thesis
            unfolding step Some option.case c(1)
            using find_any_result_restart [OF _ b(1,2) \<open>skip_metazone m _ start endb = Some start'\<close> vol(1) b(3,5) c(2) mx(1)] by blast
        qed
      qed
    qed
  qed
qed

section \<open>With the summary table\<close>

definition find_any_complete :: "journal \<Rightarrow> hfsmount \<Rightarrow> nat \<Rightarrow> nat \<Rightarrow> u32 \<Rightarrow> bool" where
  "find_any_complete j m start endb flags \<longleftrightarrow>
     (\<forall>start'. skip_metazone m (ISSET flags HFS_ALLOC_METAZONE) start endb = Some start' \<longrightarrow>
        {start'..<endb} \<subseteq> taken_blocks m 0 \<union> avoided_blocks j m flags)"

lemma find_any_complete_from:
  assumes "volume_ok m" "start \<le> b" "{start..<b} \<subseteq> taken_blocks m 0" "find_any_complete j m b endb flags"
  shows "find_any_complete j m start endb flags"
  unfolding find_any_complete_def
proof (intro allI impI)
  fix start'
  assume k: "skip_metazone m (ISSET flags HFS_ALLOC_METAZONE) start endb = Some start'"
  note s = skip_metazone_spec [OF assms(1) k]
  have "add32 (hfs_metazone_end m) 1 = Suc (hfs_metazone_end m)"
    using assms(1) by (simp add: volume_ok_def add32_eq)
  then have "skip_metazone m (ISSET flags HFS_ALLOC_METAZONE) b endb = Some (max b start')"
    using k s(1) s(5) [of b] assms(2) by (auto simp: skip_metazone_def max_def split: if_splits)
  then have "{max b start'..<endb} \<subseteq> taken_blocks m 0 \<union> avoided_blocks j m flags"
    using assms(4) by (simp add: find_any_complete_def)
  moreover have "{start'..<endb} \<subseteq> {start..<b} \<union> {max b start'..<endb}"
    using s(1) by auto
  ultimately show "{start'..<endb} \<subseteq> taken_blocks m 0 \<union> avoided_blocks j m flags"
    using assms(3) by blast
qed

lemma BlockFindAny_spec:
  assumes vol: "volume_ok m" "trims_ok j m" and lim: "endb \<le> allocLimit m" "start < totalBlocks m" "0 < maxBlocks"
    and tru: "summary_true m"
  shows "\<exists>err ext m'. BlockFindAny bread j m start endb maxBlocks flags trust actual = Some (err, ext, m') \<and>
    sum_only m m' \<and> summary_true m' \<and>
    (err = noErr \<and> found_any j m flags start endb maxBlocks ext \<or>
     err = dskFulErr \<and> find_any_complete j m start endb flags \<or> err \<noteq> noErr \<and> err \<in> range bread)"
proof -
  have search: "\<exists>err ext m'. BlockFindAnyBitmap bread j m b endb maxBlocks flags = Some (err, ext, m') \<and>
      sum_only m m' \<and> summary_true m' \<and>
      (err = noErr \<and> found_any j m flags start endb maxBlocks ext \<or>
       err = dskFulErr \<and> find_any_complete j m start endb flags \<or> err \<noteq> noErr \<and> err \<in> range bread)"
    if "start \<le> b" "{start..<b} \<subseteq> taken_blocks m 0" for b
  proof -
    obtain err ext m' where r: "BlockFindAnyBitmap bread j m b endb maxBlocks flags = Some (err, ext, m')"
      "find_any_result bread j m b endb maxBlocks flags (err, ext, m')"
      using BlockFindAnyBitmap_spec [OF vol lim(1), of b maxBlocks bread flags] lim(3) by (metis prod_cases3)
    have "found_any j m flags start endb maxBlocks ext" if "found_any j m flags b endb maxBlocks ext"
      using that \<open>start \<le> b\<close> by (auto simp: found_any_def)
    moreover have "find_any_complete j m start endb flags"
      if "\<forall>start'. skip_metazone m (ISSET flags HFS_ALLOC_METAZONE) b endb = Some start' \<longrightarrow>
          {start'..<endb} \<subseteq> taken_blocks m flags \<union> avoided_blocks j m flags"
    proof (rule find_any_complete_from [OF vol(1) \<open>start \<le> b\<close> \<open>{start..<b} \<subseteq> taken_blocks m 0\<close>])
      show "find_any_complete j m b endb flags"
        using that taken_blocks_mono [of m flags] unfolding find_any_complete_def by blast
    qed
    ultimately show ?thesis
      using r tru unfolding find_any_result_def by auto
  qed
  show ?thesis
  proof (cases "hfs_has_summary m")
    case False
    then show ?thesis
      using search [of start] by (simp add: BlockFindAny_def)
  next
    case True
    have ok: "summary_ok m" and full: "\<And>c. c < totalBlocks m \<Longrightarrow> summary_bit m (c div bits_per_iosize m) \<Longrightarrow> c \<in> taken_blocks m 0"
      using tru True by (auto simp: summary_true_def)
    obtain e b where eb: "hfs_find_summary_free m start 0 = (e, b)"
      by fastforce
    note sp = hfs_find_summary_free_spec [OF ok lim(2), of 0, unfolded eb prod.case]
    have lt: "allocLimit m \<le> totalBlocks m"
      using vol(1) by (simp add: volume_ok_def)
    from sp show ?thesis
    proof
      assume f: "e = noErr \<and> start \<le> b \<and> b < totalBlocks m \<and> \<not> summary_bit m (b div bits_per_iosize m) \<and>
        (\<forall>c. start \<le> c \<and> c < b \<longrightarrow> summary_bit m (c div bits_per_iosize m))"
      then have "{start..<b} \<subseteq> taken_blocks m 0"
        using full by force
      then show ?thesis
        using search [of b] f True by (simp add: BlockFindAny_def eb)
    next
      assume f: "e = ENOSPC \<and> b = 0 \<and> (\<forall>c. start \<le> c \<and> c < allocLimit m \<longrightarrow> summary_bit m (c div bits_per_iosize m))"
      then have "{start..<endb} \<subseteq> taken_blocks m 0"
        using full lt lim(1) by force
      then have "find_any_complete j m start endb flags"
        using skip_metazone_spec(1) [OF vol(1)] unfolding find_any_complete_def by fastforce
      then show ?thesis
        using search [of start] f True tru by (cases trust) (simp_all add: BlockFindAny_def eb)
    qed
  qed
qed

section \<open>Properties\<close>

text \<open>A journaled volume of 64 blocks with the pending trims of \<open>two_trims\<close>: blocks 0 and 3 to 5.\<close>

definition trim_mount :: hfsmount where
  "trim_mount = (small_mount (replicate 2 0))\<lparr>jnl := True\<rparr>"

lemma trim_mount_ok:
  "volume_ok trim_mount" "trims_ok two_trims trim_mount" "summary_true trim_mount" "totalBlocks trim_mount = 64"
  "allocLimit trim_mount = 64"
proof -
  have "bitmap_ok trim_mount" "reservations_ok trim_mount"
    using small_mount_ok [of "replicate 2 0"]
    by (simp_all add: trim_mount_def bitmap_ok_def reservations_ok_def entries_ok_def)
  then show "volume_ok trim_mount"
    by (simp add: volume_ok_def) (simp add: trim_mount_def small_mount_def plain_mount_def)
  have "blk_aligned 0 4096 {0..<4096}" "blk_aligned 0 4096 {12288..<24576}" "blk_aligned 0 4096 {16384..<20480}"
    using blk_aligned_range [of 4096 0 0 1] blk_aligned_range [of 4096 0 3 3] blk_aligned_range [of 4096 0 4 1] by simp_all
  then have "jnl_aligned 0 4096 two_trims"
    using blk_aligned_Un [of 0 4096 "{0..<4096}" "{12288..<24576}"]
    by (simp add: jnl_aligned_def two_trims_def async_bytes_def trim_bytes_def trim_used_def)
  then show "trims_ok two_trims trim_mount"
    using two_trims_ok by (simp add: trims_ok_def trim_mount_def small_mount_def plain_mount_def)
  show "summary_true trim_mount" "totalBlocks trim_mount = 64" "allocLimit trim_mount = 64"
    by (simp_all add: summary_true_def trim_mount_def small_mount_def plain_mount_def ISSET_def)
qed





end
