(* ===== verification/Free_Extent_Cache.thy ===== *)
theory Free_Extent_Cache
  imports Volume_Mount
begin

text \<open>
  The cache of known free extents of \<^verbatim>\<open>core/VolumeAllocation.c\<close>: the array \<open>vcbFreeExt\<close> of
  \<open>kMaxFreeExtents\<close> extents of which the first \<open>vcbFreeExtCnt\<close> are in use, sorted by
  decreasing size (by increasing offset on sparse devices).  The list operations move array
  elements the way \<open>memmove\<close> does; the refinement lemmas show them to be removal from and
  ordered insertion into the list of used entries, and the invariant and coverage lemmas are
  proved over that list.
\<close>

section \<open>Operations\<close>

definition ResetVCBFreeExtCache :: "hfsmount \<Rightarrow> hfsmount" where
  "ResetVCBFreeExtCache m =
     m\<lparr>vcbFreeExtCnt := 0, vcbFreeExt := replicate kMaxFreeExtents (mk_extent 0 0)\<rparr>"

definition remove_free_extent_list :: "hfsmount \<Rightarrow> int \<Rightarrow> hfsmount" where
  "remove_free_extent_list m index =
     (if index < 0 \<or> index \<ge> int (vcbFreeExtCnt m) then m
      else
        let shift_count = int (vcbFreeExtCnt m) - index - 1;
            i = nat index;
            ext = (if shift_count > 0
                   then memmove i (i + 1) (nat shift_count) (vcbFreeExt m) else vcbFreeExt m)
        in m\<lparr>vcbFreeExt := ext, vcbFreeExtCnt := vcbFreeExtCnt m - 1\<rparr>)"

text \<open>The index at which the insertion loop stops, counted over the used entries.\<close>

fun add_free_extent_index :: "bool \<Rightarrow> nat \<Rightarrow> nat \<Rightarrow> HFSPlusExtentDescriptor list \<Rightarrow> nat" where
  "add_free_extent_index sparse start count [] = 0"
| "add_free_extent_index sparse start count (e # es) =
     (if (if sparse then start < startBlock e else count > blockCount e) then 0
      else Suc (add_free_extent_index sparse start count es))"

definition add_free_extent_list :: "hfsmount \<Rightarrow> nat \<Rightarrow> nat \<Rightarrow> nat \<times> hfsmount" where
  "add_free_extent_list m start count =
     (let i = add_free_extent_index (ISSET (hfs_flags m) HFS_HAS_SPARSE_DEVICE) start count
                (take (vcbFreeExtCnt m) (vcbFreeExt m))
      in if i = kMaxFreeExtents then (i, m)
         else
           let cnt = (if vcbFreeExtCnt m < kMaxFreeExtents then vcbFreeExtCnt m + 1
                      else vcbFreeExtCnt m);
               shift_count = int cnt - int i - 1;
               ext = (if shift_count > 0
                      then memmove (i + 1) i (nat shift_count) (vcbFreeExt m) else vcbFreeExt m)
           in (i, m\<lparr>vcbFreeExtCnt := cnt, vcbFreeExt := ext[i := mk_extent start count]\<rparr>))"

text \<open>
  The C array has \<open>kMaxFreeExtents\<close> elements and the count never exceeds it; the loop below is
  defined on such mounts.
\<close>

definition fec_array :: "hfsmount \<Rightarrow> bool" where
  "fec_array m \<longleftrightarrow> length (vcbFreeExt m) = kMaxFreeExtents \<and> vcbFreeExtCnt m \<le> kMaxFreeExtents"

definition fec_entries :: "hfsmount \<Rightarrow> HFSPlusExtentDescriptor list" where
  "fec_entries m = take (vcbFreeExtCnt m) (vcbFreeExt m)"

lemma fec_array_length: "fec_array m \<Longrightarrow> length (fec_entries m) = vcbFreeExtCnt m"
  by (simp add: fec_array_def fec_entries_def)

lemma fec_entries_nth: "i < vcbFreeExtCnt m \<Longrightarrow> fec_entries m ! i = vcbFreeExt m ! i"
  by (simp add: fec_entries_def)

section \<open>Refinement to lists\<close>

definition list_remove :: "nat \<Rightarrow> 'a list \<Rightarrow> 'a list" where
  "list_remove i xs = take i xs @ drop (Suc i) xs"

definition list_insert :: "nat \<Rightarrow> 'a \<Rightarrow> 'a list \<Rightarrow> 'a list" where
  "list_insert i x xs = take i xs @ x # drop i xs"

lemma remove_free_extent_list_refines:
  assumes "fec_array m" "i < vcbFreeExtCnt m"
  shows "fec_array (remove_free_extent_list m (int i))"
    and "fec_entries (remove_free_extent_list m (int i)) = list_remove i (fec_entries m)"
    and "vcbFreeExtCnt (remove_free_extent_list m (int i)) = vcbFreeExtCnt m - 1"
proof -
  obtain k where c: "vcbFreeExtCnt m = Suc (i + k)"
    using assms(2) less_iff_Suc_add by blast
  have l: "length (vcbFreeExt m) = kMaxFreeExtents" "Suc (i + k) \<le> kMaxFreeExtents"
    using assms(1) c by (auto simp: fec_array_def)
  have s: "nat (int (Suc (i + k)) - int i - 1) = k" "int (Suc (i + k)) - int i - 1 > 0 \<longleftrightarrow> k > 0"
    by auto
  have cl: "take (i + k) (memmove i (Suc i) k (vcbFreeExt m)) =
      take i (vcbFreeExt m) @ drop (Suc i) (take (Suc (i + k)) (vcbFreeExt m))"
    using memmove_close [of i "Suc (i + k)" "vcbFreeExt m"] l by simp
  show "fec_array (remove_free_extent_list m (int i))"
    using l by (simp add: fec_array_def remove_free_extent_list_def c Let_def)
  show "vcbFreeExtCnt (remove_free_extent_list m (int i)) = vcbFreeExtCnt m - 1"
    by (simp add: remove_free_extent_list_def c Let_def)
  show "fec_entries (remove_free_extent_list m (int i)) = list_remove i (fec_entries m)"
    using l cl
    by (cases "k = 0") (simp_all add: fec_entries_def remove_free_extent_list_def c Let_def list_remove_def)
qed

definition fec_insert :: "bool \<Rightarrow> nat \<Rightarrow> nat \<Rightarrow> HFSPlusExtentDescriptor list \<Rightarrow> HFSPlusExtentDescriptor list" where
  "fec_insert sparse start count xs =
     take kMaxFreeExtents
       (list_insert (add_free_extent_index sparse start count xs) (mk_extent start count) xs)"

abbreviation fec_sparse :: "hfsmount \<Rightarrow> bool" where
  "fec_sparse m \<equiv> ISSET (hfs_flags m) HFS_HAS_SPARSE_DEVICE"

lemma add_free_extent_index_le: "add_free_extent_index sparse start count xs \<le> length xs"
  by (induction xs) auto

lemma list_insert_full: "i \<le> n \<Longrightarrow> n = length xs \<Longrightarrow> take n (list_insert i x xs) = (if i = n then xs else list_insert i x (take (n - 1) xs))"
  by (cases n) (auto simp: list_insert_def take_Cons' min_def Suc_diff_le drop_take)

lemma memmove_shift:
  "(if int c - int i - 1 > 0 then memmove (i + 1) i (nat (int c - int i - 1)) a else a) =
   memmove (Suc i) i (c - 1 - i) a"
proof -
  have "nat (int c - int i - 1) = c - 1 - i" and "int c - int i - 1 > 0 \<longleftrightarrow> c - 1 - i \<noteq> 0"
    by linarith+
  then show ?thesis
    by (simp only: memmove_0 Suc_eq_plus1 [symmetric] split: if_split) (metis memmove_0)
qed

lemma add_free_extent_list_refines:
  assumes "fec_array m"
  shows "fec_array (snd (add_free_extent_list m s c))"
    and "fec_entries (snd (add_free_extent_list m s c)) = fec_insert (fec_sparse m) s c (fec_entries m)"
    and "fst (add_free_extent_list m s c) = add_free_extent_index (fec_sparse m) s c (fec_entries m)"
    and "vcbFreeExtCnt (snd (add_free_extent_list m s c)) \<le> Suc (vcbFreeExtCnt m)"
proof -
  define i where "i = add_free_extent_index (fec_sparse m) s c (fec_entries m)"
  define cnt where "cnt = vcbFreeExtCnt m"
  have i: "i \<le> cnt" and cnt: "cnt \<le> kMaxFreeExtents" and len: "length (vcbFreeExt m) = kMaxFreeExtents"
    using add_free_extent_index_le [of "fec_sparse m" s c "fec_entries m"] assms
    by (simp_all add: fec_array_length i_def cnt_def fec_array_def)
  have eq: "add_free_extent_list m s c = (if i = kMaxFreeExtents then (i, m) else
      if cnt < kMaxFreeExtents
      then (i, m\<lparr>vcbFreeExtCnt := Suc cnt,
              vcbFreeExt := (memmove (Suc i) i (cnt - i) (vcbFreeExt m))[i := mk_extent s c]\<rparr>)
      else (i, m\<lparr>vcbFreeExtCnt := cnt,
              vcbFreeExt := (memmove (Suc i) i (cnt - 1 - i) (vcbFreeExt m))[i := mk_extent s c]\<rparr>))"
  proof -
    have idx: "add_free_extent_index (fec_sparse m) s c (take cnt (vcbFreeExt m)) = i"
      by (simp add: i_def cnt_def fec_entries_def)
    show ?thesis
      unfolding add_free_extent_list_def cnt_def [symmetric] Let_def idx memmove_shift
      by simp
  qed
  show "fec_array (snd (add_free_extent_list m s c))"
    using i cnt len by (simp add: eq fec_array_def cnt_def)
  show "fec_entries (snd (add_free_extent_list m s c)) = fec_insert (fec_sparse m) s c (fec_entries m)"
  proof (cases "cnt < kMaxFreeExtents")
    case True
    then have "fec_entries (snd (add_free_extent_list m s c)) = list_insert i (mk_extent s c) (fec_entries m)"
      using i memmove_open [of i cnt "vcbFreeExt m" "mk_extent s c"]
      by (simp add: eq fec_entries_def len cnt_def list_insert_def)
    then show ?thesis
      using True i assms by (simp add: fec_insert_def i_def [symmetric] list_insert_def fec_array_length cnt_def)
  next
    case False
    with cnt have c: "cnt = kMaxFreeExtents" by simp
    have ent: "fec_entries m = vcbFreeExt m"
      using len c by (simp add: fec_entries_def cnt_def)
    have "fec_entries (snd (add_free_extent_list m s c)) =
        (if i = kMaxFreeExtents then fec_entries m
         else take kMaxFreeExtents ((memmove (Suc i) i (kMaxFreeExtents - 1 - i) (vcbFreeExt m))[i := mk_extent s c]))"
      by (simp add: eq fec_entries_def c [unfolded cnt_def] cnt_def)
    also have "\<dots> = (if i = kMaxFreeExtents then fec_entries m
         else list_insert i (mk_extent s c) (take (kMaxFreeExtents - 1) (fec_entries m)))"
      using i c memmove_open [of i "kMaxFreeExtents - 1" "vcbFreeExt m" "mk_extent s c"] len
      by (auto simp: ent list_insert_def)
    also have "\<dots> = take kMaxFreeExtents (list_insert i (mk_extent s c) (fec_entries m))"
      using i c len by (subst list_insert_full) (simp_all add: ent)
    finally show ?thesis
      by (simp add: fec_insert_def i_def [symmetric])
  qed
  show "fst (add_free_extent_list m s c) = add_free_extent_index (fec_sparse m) s c (fec_entries m)"
    by (simp add: eq i_def [symmetric])
  show "vcbFreeExtCnt (snd (add_free_extent_list m s c)) \<le> Suc (vcbFreeExtCnt m)"
    by (simp add: eq cnt_def)
qed

lemma add_free_extent_list_frame:
  "hfs_flags (snd (add_free_extent_list m s c)) = hfs_flags m"
  "allocLimit (snd (add_free_extent_list m s c)) = allocLimit m"
  by (simp_all add: add_free_extent_list_def Let_def)

lemma remove_free_extent_list_frame:
  "hfs_flags (remove_free_extent_list m i) = hfs_flags m"
  "allocLimit (remove_free_extent_list m i) = allocLimit m"
  by (simp_all add: remove_free_extent_list_def Let_def)

lemmas fec_frame = add_free_extent_list_frame remove_free_extent_list_frame

section \<open>The removal loop\<close>

text \<open>The number of blocks the cache holds; it bounds the removal loop.\<close>

abbreviation ext_sum :: "HFSPlusExtentDescriptor list \<Rightarrow> nat" where
  "ext_sum xs \<equiv> sum_list (map blockCount xs)"

lemma ext_sum_remove:
  "i < length xs \<Longrightarrow> ext_sum (list_remove i xs) + blockCount (xs ! i) = ext_sum xs"
  by (subst (3) id_take_nth_drop [of i xs]) (simp_all add: list_remove_def)

lemma ext_sum_take: "ext_sum (take n xs) \<le> ext_sum xs"
  by (metis append_take_drop_id le_add1 map_append sum_list_append)

lemma ext_sum_split: "ext_sum (take i xs) + ext_sum (drop i xs) = ext_sum xs"
  by (simp only: sum_list_append [symmetric] map_append [symmetric] append_take_drop_id)

lemma ext_sum_insert: "ext_sum (fec_insert sp s c xs) \<le> ext_sum xs + c"
proof -
  have "ext_sum (list_insert i (mk_extent s c) xs) = ext_sum xs + c" for i
    using ext_sum_split [of i xs] by (simp add: list_insert_def)
  then show ?thesis
    unfolding fec_insert_def using ext_sum_take by metis
qed

definition fec_measure :: "hfsmount \<Rightarrow> nat" where
  "fec_measure m = ext_sum (fec_entries m) + vcbFreeExtCnt m"

lemma fec_measure_remove:
  assumes "fec_array m" "i < vcbFreeExtCnt m"
  shows "fec_measure (remove_free_extent_list m (int i)) + blockCount (vcbFreeExt m ! i) + 1 = fec_measure m"
  using assms ext_sum_remove [of i "fec_entries m"]
  by (simp add: fec_measure_def remove_free_extent_list_refines fec_array_length fec_entries_nth)

lemma fec_measure_replace:
  assumes "fec_array m" "i < vcbFreeExtCnt m" "c < blockCount (vcbFreeExt m ! i)"
  shows "fec_measure (snd (add_free_extent_list (remove_free_extent_list m (int i)) s c)) < fec_measure m"
proof -
  let ?r = "remove_free_extent_list m (int i)"
  have "ext_sum (fec_entries (snd (add_free_extent_list ?r s c))) \<le> ext_sum (fec_entries ?r) + c"
    using assms by (simp add: add_free_extent_list_refines remove_free_extent_list_refines ext_sum_insert)
  moreover have "vcbFreeExtCnt (snd (add_free_extent_list ?r s c)) \<le> Suc (vcbFreeExtCnt ?r)"
    using assms by (simp add: add_free_extent_list_refines(4) remove_free_extent_list_refines(1))
  ultimately show ?thesis
    using fec_measure_remove [OF assms(1,2)] assms(3) by (simp add: fec_measure_def)
qed

lemma sub32_tail_less:
  assumes "cs < start" "start < add32 cs cc"
  shows "sub32 start cs < cc"
  using assms add32_le [of cs cc] add32_less [of cs cc] sub32_eq [of cs start] by linarith

lemma sub32_head_less:
  assumes "cs < e" "e < add32 cs cc"
  shows "sub32 (add32 cs cc) e < cc"
  using assms add32_le [of cs cc] add32_less [of cs cc] sub32_eq [of e "add32 cs cc"] by linarith

text \<open>
  The body of the loop of \<open>remove_free_extent_cache\<close>.  \<open>--i\<close> followed by the loop's \<open>++i\<close> leaves
  \<open>i\<close> as it was, also for \<open>i = 0\<close>, where the unsigned index wraps around and back.
\<close>

function remove_free_extent_loop :: "nat \<Rightarrow> nat \<Rightarrow> nat \<Rightarrow> hfsmount \<Rightarrow> hfsmount" where
  "remove_free_extent_loop start endBlock i m =
     (if i < vcbFreeExtCnt m \<and> fec_array m then
        let currentStart = startBlock (vcbFreeExt m ! i);
            currentEnd = add32 currentStart (blockCount (vcbFreeExt m ! i))
        in if currentEnd \<le> start \<or> currentStart \<ge> endBlock
           then remove_free_extent_loop start endBlock (i + 1) m
           else if start \<le> currentStart \<and> endBlock \<ge> currentEnd
           then remove_free_extent_loop start endBlock i (remove_free_extent_list m (int i))
           else if start > currentStart \<and> endBlock < currentEnd
           then
             let m1 = remove_free_extent_list m (int i);
                 m2 = snd (add_free_extent_list m1 currentStart (sub32 start currentStart))
             in snd (add_free_extent_list m2 endBlock (sub32 currentEnd endBlock))
           else
             let m1 = remove_free_extent_list m (int i);
                 r = (if start > currentStart
                      then add_free_extent_list m1 currentStart (sub32 start currentStart)
                      else add_free_extent_list m1 endBlock (sub32 currentEnd endBlock))
             in if fst r > i then remove_free_extent_loop start endBlock i (snd r)
                else remove_free_extent_loop start endBlock (i + 1) (snd r)
      else m)"
  by pat_completeness auto
termination
proof (relation "measures [\<lambda>(s, e, i, m). fec_measure m, \<lambda>(s, e, i, m). vcbFreeExtCnt m - i]", goal_cases)
  case (3 start endBlock i m)
  then show ?case
    using fec_measure_remove [of m i] by auto
next
  case (4 start endBlock i m cs ce m1 r)
  then have "fec_measure (snd r) < fec_measure m"
    by (auto intro!: fec_measure_replace sub32_tail_less sub32_head_less)
  then show ?case
    by simp
next
  case (5 start endBlock i m cs ce m1 r)
  then have "fec_measure (snd r) < fec_measure m"
    by (auto intro!: fec_measure_replace sub32_tail_less sub32_head_less)
  then show ?case
    by simp
qed auto

declare remove_free_extent_loop.simps [simp del]

definition remove_free_extent_cache :: "hfsmount \<Rightarrow> nat \<Rightarrow> nat \<Rightarrow> hfsmount" where
  "remove_free_extent_cache m start count = remove_free_extent_loop start (add32 start count) 0 m"

section \<open>Searching the cache\<close>

text \<open>
  \<open>BlockFindKnown\<close> offers the first entry of the cache, clipped to \<open>maxBlocks\<close>: the error code,
  the extent (left as it was when the cache is empty) and the mount, which is marked inconsistent
  when the entry lies beyond the allocation limit.
\<close>

definition BlockFindKnown ::
  "hfsmount \<Rightarrow> nat \<Rightarrow> HFSPlusExtentDescriptor \<Rightarrow> hfs_err \<times> HFSPlusExtentDescriptor \<times> hfsmount" where
  "BlockFindKnown m maxBlocks actual =
     (if vcbFreeExtCnt m = 0 \<or> blockCount (vcbFreeExt m ! 0) = 0 then (dskFulErr, actual, m)
      else
        let start = startBlock (vcbFreeExt m ! 0);
            foundBlocks = (if blockCount (vcbFreeExt m ! 0) > maxBlocks then maxBlocks
                           else blockCount (vcbFreeExt m ! 0))
        in if add32 start foundBlocks > allocLimit m
           then (EIO, mk_extent start foundBlocks, hfs_mark_inconsistent m)
           else (noErr, mk_extent start foundBlocks, m))"

section \<open>The merging loop\<close>

text \<open>
  The pass of \<open>add_free_extent_cache\<close> that takes the extents that overlap or touch the new one
  out of the cache and merges them into it.
\<close>

function add_free_extent_merge :: "nat \<Rightarrow> nat \<Rightarrow> nat \<Rightarrow> hfsmount \<Rightarrow> nat \<times> nat \<times> hfsmount" where
  "add_free_extent_merge start endBlock i m =
     (if i < vcbFreeExtCnt m then
        let e = vcbFreeExt m ! i;
            currentEnd = add32 (startBlock e) (blockCount e)
        in if startBlock e > endBlock \<or> currentEnd < start
           then add_free_extent_merge start endBlock (i + 1) m
           else add_free_extent_merge
                  (if startBlock e < start then startBlock e else start)
                  (if currentEnd > endBlock then currentEnd else endBlock)
                  i (remove_free_extent_list m (int i))
      else (start, endBlock, m))"
  by pat_completeness auto
termination
  by (relation "measure (\<lambda>(s, e, i, m). vcbFreeExtCnt m - i)")
     (auto simp: remove_free_extent_list_def Let_def)

declare add_free_extent_merge.simps [simp del]

definition add_free_extent_cache :: "hfsmount \<Rightarrow> nat \<Rightarrow> nat \<Rightarrow> bool \<times> hfsmount" where
  "add_free_extent_cache m start count =
     (if start \<ge> allocLimit m then (False, m)
      else
        let count' = (if add32 start count > allocLimit m then sub32 (allocLimit m) start else count);
            (start', endBlock', m') = add_free_extent_merge start (add32 start count') 0 m
        in (False, snd (add_free_extent_list m' start' (sub32 endBlock' start'))))"

section \<open>Invariant\<close>

text \<open>
  The entries lie below \<open>allocLimit\<close>, no two of them overlap or touch, and they are sorted as
  the insertion loop expects.
\<close>

definition ext_sep :: "HFSPlusExtentDescriptor \<Rightarrow> HFSPlusExtentDescriptor \<Rightarrow> bool" where
  "ext_sep a b \<longleftrightarrow> startBlock a + blockCount a < startBlock b \<or> startBlock b + blockCount b < startBlock a"

definition ext_le :: "bool \<Rightarrow> HFSPlusExtentDescriptor \<Rightarrow> HFSPlusExtentDescriptor \<Rightarrow> bool" where
  "ext_le sparse a b \<longleftrightarrow> (if sparse then startBlock a \<le> startBlock b else blockCount b \<le> blockCount a)"

definition fec_list_ok :: "nat \<Rightarrow> bool \<Rightarrow> HFSPlusExtentDescriptor list \<Rightarrow> bool" where
  "fec_list_ok limit sparse xs \<longleftrightarrow>
     (\<forall>e\<in>set xs. startBlock e + blockCount e \<le> limit) \<and> sorted_wrt ext_sep xs \<and> sorted_wrt (ext_le sparse) xs"

definition fec_ok :: "hfsmount \<Rightarrow> bool" where
  "fec_ok m \<longleftrightarrow> fec_array m \<and> allocLimit m < 4294967296 \<and>
     fec_list_ok (allocLimit m) (fec_sparse m) (fec_entries m)"

definition ext_run :: "HFSPlusExtentDescriptor \<Rightarrow> nat set" where
  "ext_run e = run (startBlock e) (blockCount e)"

definition fec_blocks :: "hfsmount \<Rightarrow> nat set" where
  "fec_blocks m = (\<Union>e\<in>set (fec_entries m). ext_run e)"

lemma ext_sep_sym: "ext_sep a b \<Longrightarrow> ext_sep b a"
  by (auto simp: ext_sep_def)

lemma ext_sep_irrefl [simp]: "\<not> ext_sep a a"
  by (auto simp: ext_sep_def)

lemma ext_le_trans: "ext_le sp a b \<Longrightarrow> ext_le sp b c \<Longrightarrow> ext_le sp a c"
  by (auto simp: ext_le_def split: if_splits)

lemma ext_sep_run: "ext_sep a b \<Longrightarrow> ext_run a \<inter> ext_run b = {}"
  by (auto simp: ext_sep_def ext_run_def)

lemma sorted_wrt_list_remove: "sorted_wrt P xs \<Longrightarrow> sorted_wrt P (list_remove i xs)"
proof -
  assume "sorted_wrt P xs"
  then have s: "sorted_wrt P (take i xs @ drop i xs)"
    by simp
  have "set (drop (Suc i) xs) \<subseteq> set (drop i xs)"
    by (simp add: set_drop_subset_set_drop)
  moreover have "sorted_wrt P (drop (Suc i) xs)"
    using \<open>sorted_wrt P xs\<close> by (rule sorted_wrt_drop)
  ultimately show ?thesis
    using s by (auto simp: list_remove_def sorted_wrt_append simp del: append_take_drop_id)
qed

lemma set_list_insert: "set (list_insert i x xs) = insert x (set xs)"
  by (metis append_take_drop_id list_insert_def set_append list.simps(15) Un_insert_right)

lemma sorted_wrt_sep_distinct: "sorted_wrt ext_sep xs \<Longrightarrow> distinct xs"
  by (induction xs) auto

lemma set_list_remove:
  assumes "sorted_wrt ext_sep xs" "i < length xs"
  shows "set (list_remove i xs) = set xs - {xs ! i}" and "\<And>e. e \<in> set (list_remove i xs) \<Longrightarrow> ext_sep e (xs ! i)"
proof -
  have x: "xs = take i xs @ xs ! i # drop (Suc i) xs"
    using assms(2) by (rule id_take_nth_drop)
  then have d: "sorted_wrt ext_sep (take i xs @ xs ! i # drop (Suc i) xs)"
    using assms(1) by simp
  then have "distinct (take i xs @ xs ! i # drop (Suc i) xs)"
    by (rule sorted_wrt_sep_distinct)
  moreover have "set xs = set (take i xs) \<union> {xs ! i} \<union> set (drop (Suc i) xs)"
    by (subst x) auto
  ultimately show "set (list_remove i xs) = set xs - {xs ! i}"
    by (auto simp: list_remove_def simp del: append_take_drop_id)
  show "ext_sep e (xs ! i)" if "e \<in> set (list_remove i xs)" for e
    using that d by (auto simp: list_remove_def sorted_wrt_append intro: ext_sep_sym)
qed

lemma sorted_insert_index:
  "sorted_wrt (ext_le sp) xs \<Longrightarrow>
   sorted_wrt (ext_le sp) (list_insert (add_free_extent_index sp s c xs) (mk_extent s c) xs)"
proof (induction xs)
  case Nil
  then show ?case by (simp add: list_insert_def)
next
  case (Cons y ys)
  let ?e = "mk_extent s c"
  show ?case
  proof (cases "if sp then s < startBlock y else c > blockCount y")
    case True
    then have "ext_le sp ?e y"
      by (auto simp: ext_le_def split: if_splits)
    with Cons.prems True show ?thesis
      by (auto simp: list_insert_def intro: ext_le_trans)
  next
    case False
    then have "ext_le sp y ?e"
      by (auto simp: ext_le_def split: if_splits)
    with Cons.prems Cons.IH False show ?thesis
      using set_list_insert [of "add_free_extent_index sp s c ys" ?e ys]
      by (auto simp: list_insert_def)
  qed
qed

lemma sorted_wrt_sep_insert:
  assumes "sorted_wrt ext_sep xs" "\<forall>x\<in>set xs. ext_sep x e"
  shows "sorted_wrt ext_sep (list_insert i e xs)"
proof -
  have "sorted_wrt ext_sep (take i xs @ drop i xs)"
    using assms(1) by simp
  moreover have "\<forall>x\<in>set (take i xs). ext_sep x e" "\<forall>x\<in>set (drop i xs). ext_sep e x"
    using assms(2) by (auto dest: in_set_takeD in_set_dropD intro: ext_sep_sym)
  ultimately show ?thesis
    by (auto simp: list_insert_def sorted_wrt_append simp del: append_take_drop_id)
qed

lemma fec_insert_ok:
  assumes "fec_list_ok limit sp xs" "\<forall>x\<in>set xs. ext_sep x (mk_extent s c)" "s + c \<le> limit"
  shows "fec_list_ok limit sp (fec_insert sp s c xs)"
    and "set (fec_insert sp s c xs) \<subseteq> insert (mk_extent s c) (set xs)"
    and "length xs < kMaxFreeExtents \<Longrightarrow> set (fec_insert sp s c xs) = insert (mk_extent s c) (set xs)"
    and "length (fec_insert sp s c xs) = min kMaxFreeExtents (Suc (length xs))"
proof -
  let ?l = "list_insert (add_free_extent_index sp s c xs) (mk_extent s c) xs"
  have l: "length ?l = Suc (length xs)"
    using add_free_extent_index_le [of sp s c xs] by (simp add: list_insert_def)
  have t: "set (fec_insert sp s c xs) \<subseteq> set ?l"
    by (simp add: fec_insert_def set_take_subset)
  show sub: "set (fec_insert sp s c xs) \<subseteq> insert (mk_extent s c) (set xs)"
    using t by (simp add: set_list_insert)
  have "sorted_wrt ext_sep ?l" "sorted_wrt (ext_le sp) ?l"
    using assms by (auto simp: fec_list_ok_def intro: sorted_wrt_sep_insert sorted_insert_index)
  then show "fec_list_ok limit sp (fec_insert sp s c xs)"
    using assms sub by (auto simp: fec_list_ok_def fec_insert_def intro: sorted_wrt_take)
  show "set (fec_insert sp s c xs) = insert (mk_extent s c) (set xs)" if "length xs < kMaxFreeExtents"
    using that l by (simp add: fec_insert_def set_list_insert)
  show "length (fec_insert sp s c xs) = min kMaxFreeExtents (Suc (length xs))"
    using l by (simp add: fec_insert_def)
qed

lemma fec_list_remove_ok: "fec_list_ok limit sp xs \<Longrightarrow> fec_list_ok limit sp (list_remove i xs)"
  by (auto simp: fec_list_ok_def intro: sorted_wrt_list_remove)
     (auto simp: list_remove_def dest: in_set_takeD in_set_dropD)

section \<open>Steps on the mount\<close>

lemma fec_entry_mem: "fec_array m \<Longrightarrow> i < vcbFreeExtCnt m \<Longrightarrow> vcbFreeExt m ! i \<in> set (fec_entries m)"
  by (metis fec_array_length fec_entries_nth nth_mem)

lemma fec_ok_bound: "fec_ok m \<Longrightarrow> x \<in> set (fec_entries m) \<Longrightarrow> startBlock x + blockCount x \<le> allocLimit m"
  by (simp add: fec_ok_def fec_list_ok_def)

lemma fec_ok_end:
  "fec_ok m \<Longrightarrow> x \<in> set (fec_entries m) \<Longrightarrow> add32 (startBlock x) (blockCount x) = startBlock x + blockCount x"
  using fec_ok_bound [of m x] by (intro add32_eq) (simp add: fec_ok_def)

lemma fec_remove_entry:
  assumes "fec_ok m" "i < vcbFreeExtCnt m"
  defines "m' \<equiv> remove_free_extent_list m (int i)"
  shows "fec_ok m'" "vcbFreeExtCnt m' = vcbFreeExtCnt m - 1" "fec_entries m' = list_remove i (fec_entries m)"
    "set (fec_entries m') = set (fec_entries m) - {vcbFreeExt m ! i}"
    "\<And>e. e \<in> set (fec_entries m') \<Longrightarrow> ext_sep e (vcbFreeExt m ! i)"
proof -
  have a: "fec_array m" and s: "sorted_wrt ext_sep (fec_entries m)"
    using assms(1) by (auto simp: fec_ok_def fec_list_ok_def)
  then have i: "i < length (fec_entries m)" and n: "fec_entries m ! i = vcbFreeExt m ! i"
    using assms(2) by (simp_all add: fec_array_length fec_entries_nth)
  show e: "fec_entries m' = list_remove i (fec_entries m)"
    and "vcbFreeExtCnt m' = vcbFreeExtCnt m - 1"
    using remove_free_extent_list_refines [OF a assms(2)] by (simp_all add: m'_def)
  show "set (fec_entries m') = set (fec_entries m) - {vcbFreeExt m ! i}"
    using set_list_remove(1) [OF s i] n e by simp
  show "ext_sep x (vcbFreeExt m ! i)" if "x \<in> set (fec_entries m')" for x
    using set_list_remove(2) [OF s i, of x] that n e by simp
  show "fec_ok m'"
    using assms(1) remove_free_extent_list_refines(1) [OF a assms(2)] e
    by (simp add: fec_ok_def m'_def fec_frame fec_list_remove_ok)
qed

lemma fec_add_entry:
  assumes "fec_ok m" "\<forall>x\<in>set (fec_entries m). ext_sep x (mk_extent s c)" "s + c \<le> allocLimit m"
  defines "m' \<equiv> snd (add_free_extent_list m s c)"
  shows "fec_ok m'" "set (fec_entries m') \<subseteq> insert (mk_extent s c) (set (fec_entries m))"
    "vcbFreeExtCnt m < kMaxFreeExtents \<Longrightarrow> set (fec_entries m') = insert (mk_extent s c) (set (fec_entries m))"
    "fec_entries m' = fec_insert (fec_sparse m) s c (fec_entries m)"
    "vcbFreeExtCnt m' = min kMaxFreeExtents (Suc (vcbFreeExtCnt m))"
proof -
  have a: "fec_array m" and l: "fec_list_ok (allocLimit m) (fec_sparse m) (fec_entries m)"
    using assms(1) by (auto simp: fec_ok_def)
  note i = fec_insert_ok [OF l assms(2,3)]
  show e: "fec_entries m' = fec_insert (fec_sparse m) s c (fec_entries m)"
    using add_free_extent_list_refines(2) [OF a] by (simp add: m'_def)
  have a': "fec_array m'"
    using add_free_extent_list_refines(1) [OF a] by (simp add: m'_def)
  show "fec_ok m'"
    using assms(1) a' i(1) e by (simp add: fec_ok_def m'_def fec_frame)
  show "set (fec_entries m') \<subseteq> insert (mk_extent s c) (set (fec_entries m))"
    using i(2) e by simp
  show "set (fec_entries m') = insert (mk_extent s c) (set (fec_entries m))"
    if "vcbFreeExtCnt m < kMaxFreeExtents"
    using i(3) e that a by (simp add: fec_array_length)
  show "vcbFreeExtCnt m' = min kMaxFreeExtents (Suc (vcbFreeExtCnt m))"
    using i(4) e a a' by (metis fec_array_length)
qed

text \<open>A part of a cached extent, away from the rest of the cache.\<close>

definition ext_part :: "nat \<Rightarrow> nat \<Rightarrow> HFSPlusExtentDescriptor \<Rightarrow> bool" where
  "ext_part s c x \<longleftrightarrow> startBlock x \<le> s \<and> s + c \<le> startBlock x + blockCount x"

lemma ext_part_sep: "ext_part s c x \<Longrightarrow> ext_sep e x \<Longrightarrow> ext_sep e (mk_extent s c)"
  by (auto simp: ext_part_def ext_sep_def)

lemma take_list_insert_before: "i \<le> ins \<Longrightarrow> ins \<le> length ys \<Longrightarrow> take i (list_insert ins x ys) = take i ys"
  by (simp add: list_insert_def min_def)

lemma take_list_insert_after:
  assumes "ins \<le> i" "ins \<le> length ys"
  shows "set (take (Suc i) (list_insert ins x ys)) \<subseteq> insert x (set (take i ys))"
proof -
  have "take (Suc i) (list_insert ins x ys) = take ins ys @ x # take (i - ins) (drop ins ys)"
    using assms by (simp add: list_insert_def min_def Suc_diff_le)
  moreover have "take ins ys @ take (i - ins) (drop ins ys) = take i ys"
    using assms by (metis le_add_diff_inverse take_add)
  ultimately show ?thesis
    by (metis Un_insert_right list.simps(15) order_refl set_append)
qed

lemma fec_replace_entry:
  assumes "fec_ok m" "i < vcbFreeExtCnt m" "ext_part s c (vcbFreeExt m ! i)"
  defines "r \<equiv> add_free_extent_list (remove_free_extent_list m (int i)) s c"
  shows "fec_ok (snd r)"
    "set (fec_entries (snd r)) = insert (mk_extent s c) (set (fec_entries m) - {vcbFreeExt m ! i})"
    "vcbFreeExtCnt (snd r) = vcbFreeExtCnt m"
    "i < fst r \<Longrightarrow> set (take i (fec_entries (snd r))) = set (take i (fec_entries m))"
    "fst r \<le> i \<Longrightarrow> set (take (Suc i) (fec_entries (snd r))) \<subseteq> insert (mk_extent s c) (set (take i (fec_entries m)))"
proof -
  let ?m = "remove_free_extent_list m (int i)"
  note rm = fec_remove_entry [OF assms(1,2)]
  have bound: "s + c \<le> allocLimit ?m"
    using fec_ok_bound [OF assms(1) fec_entry_mem [of m i]] assms(1-3)
    by (auto simp: fec_frame ext_part_def fec_ok_def)
  have sep: "\<forall>x\<in>set (fec_entries ?m). ext_sep x (mk_extent s c)"
    using rm(5) assms(3) by (auto intro: ext_part_sep)
  note ad = fec_add_entry [OF rm(1) sep bound]
  have cnt: "vcbFreeExtCnt m \<le> kMaxFreeExtents" and arr: "fec_array ?m" "fec_array m"
    using assms(1) rm(1) by (auto simp: fec_ok_def fec_array_def)
  show "fec_ok (snd r)" "vcbFreeExtCnt (snd r) = vcbFreeExtCnt m"
    using ad(1,5) rm(2) assms(2) cnt by (simp_all add: r_def)
  show "set (fec_entries (snd r)) = insert (mk_extent s c) (set (fec_entries m) - {vcbFreeExt m ! i})"
    using ad(3) rm(2,4) assms(2) cnt by (simp add: r_def)
  have ins: "fst r = add_free_extent_index (fec_sparse ?m) s c (fec_entries ?m)"
    using add_free_extent_list_refines(3) [OF arr(1)] by (simp add: r_def)
  then have len: "fst r \<le> length (fec_entries ?m)"
    using add_free_extent_index_le by simp
  have ent: "fec_entries (snd r) = take kMaxFreeExtents (list_insert (fst r) (mk_extent s c) (fec_entries ?m))"
    using ad(4) by (simp add: r_def [symmetric] fec_insert_def ins)
  have i: "i < kMaxFreeExtents" and tk: "take i (fec_entries ?m) = take i (fec_entries m)"
    using assms(2) cnt by (simp_all add: rm(3) list_remove_def fec_array_length [OF arr(2)])
  show "set (take i (fec_entries (snd r))) = set (take i (fec_entries m))" if "i < fst r"
    using take_list_insert_before [of i "fst r" "fec_entries ?m"] that len i
    by (simp add: ent tk min_def)
  show "set (take (Suc i) (fec_entries (snd r))) \<subseteq> insert (mk_extent s c) (set (take i (fec_entries m)))"
    if "fst r \<le> i"
    using take_list_insert_after [OF that len] i by (simp add: ent tk [symmetric] min_def)
qed

section \<open>Removing an extent\<close>

definition fec_splits :: "hfsmount \<Rightarrow> nat \<Rightarrow> nat \<Rightarrow> bool" where
  "fec_splits m s e \<longleftrightarrow> (\<exists>x\<in>set (fec_entries m). startBlock x < s \<and> e < startBlock x + blockCount x)"

definition fec_remove_result :: "nat \<Rightarrow> nat \<Rightarrow> hfsmount \<Rightarrow> hfsmount \<Rightarrow> bool" where
  "fec_remove_result s e m m' \<longleftrightarrow>
     fec_ok m' \<and> fec_blocks m' \<subseteq> fec_blocks m - {s..<e} \<and>
     (vcbFreeExtCnt m < kMaxFreeExtents \<or> \<not> fec_splits m s e \<longrightarrow> fec_blocks m' = fec_blocks m - {s..<e})"

abbreviation ext_clear :: "nat \<Rightarrow> nat \<Rightarrow> HFSPlusExtentDescriptor \<Rightarrow> bool" where
  "ext_clear s e x \<equiv> startBlock x + blockCount x \<le> s \<or> e \<le> startBlock x"

lemma fec_remove_done:
  assumes "fec_ok m" "\<forall>x\<in>set (fec_entries m). ext_clear s e x"
  shows "fec_remove_result s e m m"
proof -
  have "fec_blocks m \<inter> {s..<e} = {}"
    using assms(2) by (fastforce simp: fec_blocks_def ext_run_def)
  then show ?thesis
    using assms(1) by (auto simp: fec_remove_result_def)
qed

lemma fec_blocks_change:
  assumes "x \<in> set (fec_entries m)" "ext_run x' - R = ext_run x - R"
    "set (fec_entries m') = insert x' (set (fec_entries m) - {x})"
  shows "fec_blocks m' - R = fec_blocks m - R"
proof -
  have "fec_blocks m = (\<Union>y\<in>set (fec_entries m) - {x}. ext_run y) \<union> ext_run x"
    using assms(1) by (auto simp: fec_blocks_def)
  moreover have "fec_blocks m' = (\<Union>y\<in>set (fec_entries m) - {x}. ext_run y) \<union> ext_run x'"
    by (auto simp: fec_blocks_def assms(3))
  ultimately show ?thesis
    using assms(2) by (simp add: Un_Diff)
qed

lemma fec_blocks_drop:
  assumes "x \<in> set (fec_entries m)" "ext_run x \<subseteq> R"
    "set (fec_entries m') = set (fec_entries m) - {x}"
  shows "fec_blocks m' - R = fec_blocks m - R"
proof -
  have "fec_blocks m = (\<Union>y\<in>set (fec_entries m) - {x}. ext_run y) \<union> ext_run x"
    using assms(1) by (auto simp: fec_blocks_def)
  then show ?thesis
    using assms(2,3) by (auto simp: fec_blocks_def)
qed

lemma fec_remove_result_trans:
  assumes "fec_remove_result s e m1 m'" "fec_blocks m1 - {s..<e} = fec_blocks m - {s..<e}"
    "vcbFreeExtCnt m1 \<le> vcbFreeExtCnt m" "fec_splits m1 s e \<Longrightarrow> fec_splits m s e"
  shows "fec_remove_result s e m m'"
  using assms by (auto simp: fec_remove_result_def)

lemma fec_remove_split:
  assumes ok: "fec_ok m" and i: "i < vcbFreeExtCnt m" and x: "x = vcbFreeExt m ! i"
    and se: "startBlock x < s" "s < e" "e < startBlock x + blockCount x"
  shows "fec_remove_result s e m
    (snd (add_free_extent_list
       (snd (add_free_extent_list (remove_free_extent_list m (int i)) (startBlock x) (s - startBlock x)))
       e (startBlock x + blockCount x - e)))"
proof -
  let ?hd = "mk_extent (startBlock x) (s - startBlock x)"
  let ?tl = "mk_extent e (startBlock x + blockCount x - e)"
  let ?m1 = "snd (add_free_extent_list (remove_free_extent_list m (int i)) (startBlock x) (s - startBlock x))"
  let ?m2 = "snd (add_free_extent_list ?m1 e (startBlock x + blockCount x - e))"
  have mem: "x \<in> set (fec_entries m)"
    using fec_entry_mem [of m i] ok i x by (simp add: fec_ok_def)
  have p: "ext_part (startBlock x) (s - startBlock x) (vcbFreeExt m ! i)"
    using se x by (simp add: ext_part_def)
  note r = fec_replace_entry [OF ok i p]
  have sep: "\<forall>y\<in>set (fec_entries ?m1). ext_sep y ?tl"
  proof
    fix y assume "y \<in> set (fec_entries ?m1)"
    then have "y = ?hd \<or> y \<in> set (fec_entries m) - {x}"
      using r(2) x by auto
    then show "ext_sep y ?tl"
    proof
      assume "y = ?hd"
      then show ?thesis using se by (simp add: ext_sep_def)
    next
      assume "y \<in> set (fec_entries m) - {x}"
      then have "ext_sep y x"
        using fec_remove_entry(4,5) [OF ok i] x by auto
      then show ?thesis
        using se by (intro ext_part_sep [of _ _ x]) (auto simp: ext_part_def)
    qed
  qed
  have "e + (startBlock x + blockCount x - e) \<le> allocLimit ?m1"
    using fec_ok_bound [OF ok mem] se by (simp add: fec_frame)
  note a = fec_add_entry [OF r(1) sep this]
  have runs: "ext_run ?hd \<union> ext_run ?tl = ext_run x - {s..<e}"
    using se by (auto simp: ext_run_def)
  have rest: "fec_blocks m = (\<Union>y\<in>set (fec_entries m) - {x}. ext_run y) \<union> ext_run x"
    using mem by (auto simp: fec_blocks_def)
  have disj: "(\<Union>y\<in>set (fec_entries m) - {x}. ext_run y) \<inter> {s..<e} = {}"
  proof -
    have "ext_run y \<inter> ext_run x = {}" if "y \<in> set (fec_entries m) - {x}" for y
      using that fec_remove_entry(4) [OF ok i] fec_remove_entry(5) [OF ok i, of y] x
      by (intro ext_sep_run) auto
    moreover have "{s..<e} \<subseteq> ext_run x"
      using se by (auto simp: ext_run_def)
    ultimately show ?thesis by blast
  qed
  have all: "fec_blocks m - {s..<e} = (\<Union>y\<in>set (fec_entries m) - {x}. ext_run y) \<union> ext_run ?hd \<union> ext_run ?tl"
    using disj rest runs by auto
  have sub: "fec_blocks ?m2 \<subseteq> (\<Union>y\<in>set (fec_entries m) - {x}. ext_run y) \<union> ext_run ?hd \<union> ext_run ?tl"
    using a(2) r(2) x by (auto simp: fec_blocks_def)
  have eq: "fec_blocks ?m2 = (\<Union>y\<in>set (fec_entries m) - {x}. ext_run y) \<union> ext_run ?hd \<union> ext_run ?tl"
    if "vcbFreeExtCnt m < kMaxFreeExtents"
    using a(3) r(2,3) x that by (auto simp: fec_blocks_def)
  have "fec_splits m s e"
    using mem se by (auto simp: fec_splits_def)
  then show ?thesis
    using a(1) sub eq by (auto simp: fec_remove_result_def all)
qed

lemma fec_remove_partial:
  assumes ok: "fec_ok m" and i: "i < vcbFreeExtCnt m" and x: "x = vcbFreeExt m ! i"
    and part: "ext_part s' c' x" and clear: "ext_clear s e (mk_extent s' c')"
    and run: "ext_run (mk_extent s' c') = ext_run x - {s..<e}" and se: "s < e"
    and rest: "fec_remove_result s e (snd (add_free_extent_list (remove_free_extent_list m (int i)) s' c')) m'"
  shows "fec_remove_result s e m m'"
proof (rule fec_remove_result_trans [OF rest])
  let ?r = "add_free_extent_list (remove_free_extent_list m (int i)) s' c'"
  note r = fec_replace_entry [OF ok i part [unfolded x]]
  have mem: "x \<in> set (fec_entries m)"
    using fec_entry_mem [of m i] ok i x by (simp add: fec_ok_def)
  show "fec_blocks (snd ?r) - {s..<e} = fec_blocks m - {s..<e}"
    using run by (intro fec_blocks_change [OF mem _ r(2) [folded x]]) auto
  show "vcbFreeExtCnt (snd ?r) \<le> vcbFreeExtCnt m"
    using r(3) by simp
  show "fec_splits m s e" if "fec_splits (snd ?r) s e"
    using that r(2) clear se by (auto simp: fec_splits_def)
qed

lemma fec_remove_contained:
  assumes ok: "fec_ok m" and i: "i < vcbFreeExtCnt m" and x: "x = vcbFreeExt m ! i"
    and sub: "ext_run x \<subseteq> {s..<e}"
    and rest: "fec_remove_result s e (remove_free_extent_list m (int i)) m'"
  shows "fec_remove_result s e m m'"
proof (rule fec_remove_result_trans [OF rest])
  note r = fec_remove_entry [OF ok i]
  have mem: "x \<in> set (fec_entries m)"
    using fec_entry_mem [of m i] ok i x by (simp add: fec_ok_def)
  show "fec_blocks (remove_free_extent_list m (int i)) - {s..<e} = fec_blocks m - {s..<e}"
    using fec_blocks_drop [OF mem sub] r(4) x by simp
  show "vcbFreeExtCnt (remove_free_extent_list m (int i)) \<le> vcbFreeExtCnt m"
    using r(2) by simp
  show "fec_splits m s e" if "fec_splits (remove_free_extent_list m (int i)) s e"
    using that r(4) by (auto simp: fec_splits_def)
qed

lemma take_Suc_ball:
  "i < length xs \<Longrightarrow> (\<forall>x\<in>set (take (Suc i) xs). P x) \<longleftrightarrow> (\<forall>x\<in>set (take i xs). P x) \<and> P (xs ! i)"
  by (auto simp: take_Suc_conv_app_nth)

lemma remove_free_extent_loop_result:
  assumes "fec_ok m" "s < e" "e < 4294967296" "\<forall>x\<in>set (take i (fec_entries m)). ext_clear s e x"
  shows "fec_remove_result s e m (remove_free_extent_loop s e i m)"
  using assms
proof (induction s e i m rule: remove_free_extent_loop.induct)
  case (1 s e i m)
  note IH = "1.IH" and ok = "1.prems"(1) and se = "1.prems"(2,3) and seen = "1.prems"(4)
  have arr: "fec_array m"
    using ok by (simp add: fec_ok_def)
  show ?case
  proof (cases "i < vcbFreeExtCnt m")
    case False
    then have "take i (fec_entries m) = fec_entries m"
      using arr by (simp add: fec_array_length)
    with seen ok False show ?thesis
      by (subst remove_free_extent_loop.simps) (auto intro: fec_remove_done)
  next
    case i: True
    define x where "x = vcbFreeExt m ! i"
    define cs where "cs = startBlock x"
    define ce where "ce = startBlock x + blockCount x"
    have mem: "x \<in> set (fec_entries m)"
      using fec_entry_mem [OF arr i] by (simp add: x_def)
    have ce: "add32 cs (blockCount x) = ce"
      using fec_ok_end [OF ok mem] by (simp add: ce_def cs_def)
    have ce_less: "ce < 4294967296"
      using fec_ok_bound [OF ok mem] ok by (simp add: ce_def fec_ok_def)
    have c: "i < vcbFreeExtCnt m \<and> fec_array m"
      using i arr by simp
    have nth: "fec_entries m ! i = x" "i < length (fec_entries m)"
      using i arr by (simp_all add: fec_entries_nth fec_array_length x_def)
    note step = remove_free_extent_loop.simps [of s e i m] and defs = x_def [symmetric] cs_def [symmetric] ce
    note IH' = IH [OF c refl refl, folded x_def cs_def, unfolded ce]
    consider (skip) "ce \<le> s \<or> cs \<ge> e"
      | (inside) "\<not> (ce \<le> s \<or> cs \<ge> e)" "s \<le> cs \<and> e \<ge> ce"
      | (split) "\<not> (ce \<le> s \<or> cs \<ge> e)" "\<not> (s \<le> cs \<and> e \<ge> ce)" "s > cs \<and> e < ce"
      | (partial) "\<not> (ce \<le> s \<or> cs \<ge> e)" "\<not> (s \<le> cs \<and> e \<ge> ce)" "\<not> (s > cs \<and> e < ce)"
      by blast
    then show ?thesis
    proof cases
      case skip
      then have "\<forall>y\<in>set (take (i + 1) (fec_entries m)). ext_clear s e y"
        using seen take_Suc_ball [OF nth(2)] by (simp add: nth cs_def ce_def)
      then show ?thesis
        using step IH'(1) [OF skip ok se] skip c by (simp add: Let_def defs)
    next
      case inside
      note r = fec_remove_entry [OF ok i]
      have "take i (fec_entries (remove_free_extent_list m (int i))) = take i (fec_entries m)"
        using nth(2) by (simp add: r(3) list_remove_def)
      then have "fec_remove_result s e (remove_free_extent_list m (int i))
          (remove_free_extent_loop s e i (remove_free_extent_list m (int i)))"
        using IH'(2) [OF inside r(1) se] seen by simp
      moreover have "ext_run x \<subseteq> {s..<e}"
        using inside(2) by (auto simp: ext_run_def cs_def ce_def)
      ultimately show ?thesis
        using step inside c fec_remove_contained [OF ok i x_def] by (simp add: Let_def defs)
    next
      case split
      have "sub32 s cs = s - cs" "sub32 ce e = ce - e"
        using split se ce_less by (simp_all add: sub32_eq)
      then show ?thesis
        using step split c fec_remove_split [OF ok i x_def, of s e] se
        by (simp add: Let_def defs) (simp add: cs_def ce_def)
    next
      case partial
      define s' where "s' = (if s > cs then cs else e)"
      define c' where "c' = (if s > cs then sub32 s cs else sub32 ce e)"
      define r where "r = add_free_extent_list (remove_free_extent_list m (int i)) s' c'"
      have r_if: "(if s > cs then add_free_extent_list (remove_free_extent_list m (int i)) cs (sub32 s cs)
          else add_free_extent_list (remove_free_extent_list m (int i)) e (sub32 ce e)) = r"
        by (simp add: r_def s'_def c'_def)
      have c'_eq: "c' = (if s > cs then s - cs else ce - e)"
        using partial se ce_less by (auto simp: c'_def sub32_eq)
      have part: "ext_part s' c' x"
        using partial se by (auto simp: ext_part_def s'_def c'_eq cs_def ce_def)
      have clear: "ext_clear s e (mk_extent s' c')"
        using partial se by (auto simp: s'_def c'_eq)
      have run: "ext_run (mk_extent s' c') = ext_run x - {s..<e}"
        using partial se by (auto simp: ext_run_def s'_def c'_eq cs_def ce_def)
      note rep = fec_replace_entry [OF ok i part [unfolded x_def], folded r_def]
      have "fec_remove_result s e (snd r) (if fst r > i then remove_free_extent_loop s e i (snd r)
          else remove_free_extent_loop s e (i + 1) (snd r))"
      proof (cases "fst r > i")
        case True
        then show ?thesis
          using IH'(3) [OF partial refl r_if [symmetric] True rep(1) se] rep(4) seen by simp
      next
        case False
        then have "\<forall>y\<in>set (take (i + 1) (fec_entries (snd r))). ext_clear s e y"
          using rep(5) seen clear by auto
        then show ?thesis
          using IH'(4) [OF partial refl r_if [symmetric] False rep(1) se] False by simp
      qed
      then have "fec_remove_result s e m (if fst r > i then remove_free_extent_loop s e i (snd r)
          else remove_free_extent_loop s e (i + 1) (snd r))"
        by (rule fec_remove_partial [OF ok i x_def part clear run se(1), folded r_def])
      then show ?thesis
        using partial c by (subst step) (simp only: Let_def defs r_if if_True if_False simp_thms)
    qed
  qed
qed

section \<open>Adding an extent\<close>

abbreviation ext_away :: "nat \<Rightarrow> nat \<Rightarrow> HFSPlusExtentDescriptor \<Rightarrow> bool" where
  "ext_away s e x \<equiv> startBlock x + blockCount x < s \<or> e < startBlock x"

text \<open>What a merging pass that started with the range from \<open>s\<close> to \<open>e\<close> on the mount \<open>m\<close> returns.\<close>

definition fec_merge_result :: "nat \<Rightarrow> nat \<Rightarrow> hfsmount \<Rightarrow> nat \<times> nat \<times> hfsmount \<Rightarrow> bool" where
  "fec_merge_result s e m r \<longleftrightarrow>
     (case r of (s', e', m') \<Rightarrow>
        fec_ok m' \<and> allocLimit m' = allocLimit m \<and> s' \<le> s \<and> e \<le> e' \<and> e' \<le> allocLimit m \<and>
        vcbFreeExtCnt m' \<le> vcbFreeExtCnt m \<and> (\<forall>x\<in>set (fec_entries m'). ext_away s' e' x) \<and>
        fec_blocks m' \<union> {s'..<e'} = fec_blocks m \<union> {s..<e})"

lemma fec_merge_step:
  assumes "fec_ok m" "i < vcbFreeExtCnt m" "x = vcbFreeExt m ! i" "s \<le> e" "\<not> ext_away s e x"
    "fec_merge_result (min s (startBlock x)) (max e (startBlock x + blockCount x))
       (remove_free_extent_list m (int i)) r"
  shows "fec_merge_result s e m r"
proof -
  let ?m = "remove_free_extent_list m (int i)"
  note rm = fec_remove_entry [OF assms(1,2), folded assms(3)]
  have mem: "x \<in> set (fec_entries m)"
    using fec_entry_mem [of m i] assms(1-3) by (simp add: fec_ok_def)
  have "fec_blocks m = fec_blocks ?m \<union> ext_run x"
    using mem by (auto simp: fec_blocks_def rm(4))
  moreover have "{min s (startBlock x)..<max e (startBlock x + blockCount x)} = {s..<e} \<union> ext_run x"
    using assms(4,5) by (auto simp: ext_run_def)
  ultimately have "fec_blocks ?m \<union> {min s (startBlock x)..<max e (startBlock x + blockCount x)} =
      fec_blocks m \<union> {s..<e}"
    by blast
  then show ?thesis
    using assms(6) rm(2) by (auto simp: fec_merge_result_def fec_frame split: prod.splits)
qed

lemma add_free_extent_merge_result:
  assumes "fec_ok m" "s \<le> e" "e \<le> allocLimit m" "\<forall>x\<in>set (take i (fec_entries m)). ext_away s e x"
  shows "fec_merge_result s e m (add_free_extent_merge s e i m)"
  using assms
proof (induction s e i m rule: add_free_extent_merge.induct)
  case (1 s e i m)
  note ok = "1.prems"(1) and se = "1.prems"(2,3) and seen = "1.prems"(4)
  have arr: "fec_array m"
    using ok by (simp add: fec_ok_def)
  show ?case
  proof (cases "i < vcbFreeExtCnt m")
    case False
    then have "take i (fec_entries m) = fec_entries m"
      using arr by (simp add: fec_array_length)
    with False seen ok se show ?thesis
      by (subst add_free_extent_merge.simps) (simp add: fec_merge_result_def)
  next
    case i: True
    define x where "x = vcbFreeExt m ! i"
    have mem: "x \<in> set (fec_entries m)"
      using fec_entry_mem [OF arr i] by (simp add: x_def)
    have ce: "add32 (startBlock x) (blockCount x) = startBlock x + blockCount x"
      using fec_ok_end [OF ok mem] .
    have nth: "fec_entries m ! i = x" "i < length (fec_entries m)"
      using i arr by (simp_all add: fec_entries_nth fec_array_length x_def)
    have mm: "(if startBlock x < s then startBlock x else s) = min s (startBlock x)"
      "(if startBlock x + blockCount x > e then startBlock x + blockCount x else e) = max e (startBlock x + blockCount x)"
      by auto
    note IH = "1.IH" [OF i refl refl, folded x_def, unfolded ce mm]
      and step = add_free_extent_merge.simps [of s e i m, unfolded Let_def x_def [symmetric] ce mm]
    show ?thesis
    proof (cases "ext_away s e x")
      case True
      then have "\<forall>y\<in>set (take (i + 1) (fec_entries m)). ext_away s e y"
        using seen take_Suc_ball [OF nth(2)] by (simp add: nth)
      then show ?thesis
        using IH(1) [OF _ ok se] True i by (subst step) auto
    next
      case False
      let ?m = "remove_free_extent_list m (int i)"
      note rm = fec_remove_entry [OF ok i, folded x_def]
      have take: "take i (fec_entries ?m) = take i (fec_entries m)"
        using nth(2) by (simp add: rm(3) list_remove_def)
      have away: "\<forall>y\<in>set (take i (fec_entries ?m)). ext_away (min s (startBlock x)) (max e (startBlock x + blockCount x)) y"
      proof
        fix y assume y: "y \<in> set (take i (fec_entries ?m))"
        then have "ext_sep y x"
          by (blast intro: rm(5) dest: in_set_takeD)
        moreover have "ext_away s e y"
          using y seen take by simp
        ultimately show "ext_away (min s (startBlock x)) (max e (startBlock x + blockCount x)) y"
          using False by (auto simp: ext_sep_def)
      qed
      have "startBlock x + blockCount x \<le> allocLimit ?m"
        using fec_ok_bound [OF ok mem] by (simp add: fec_frame)
      then have "fec_merge_result (min s (startBlock x)) (max e (startBlock x + blockCount x)) ?m
          (add_free_extent_merge (min s (startBlock x)) (max e (startBlock x + blockCount x)) i ?m)"
        using IH(2) [OF _ rm(1)] False se away by (simp add: fec_frame)
      then have "fec_merge_result s e m
          (add_free_extent_merge (min s (startBlock x)) (max e (startBlock x + blockCount x)) i ?m)"
        by (rule fec_merge_step [OF ok i x_def se(1) False])
      then show ?thesis
        using False i by (subst step) auto
    qed
  qed
qed

definition fec_clip :: "hfsmount \<Rightarrow> nat \<Rightarrow> nat \<Rightarrow> nat set" where
  "fec_clip m s c = run s c \<inter> {..<allocLimit m}"

lemma add_free_extent_cache_result:
  assumes ok: "fec_ok m" and sc: "s + c < 4294967296"
  defines "m' \<equiv> snd (add_free_extent_cache m s c)"
  shows "fec_ok m'" "fec_blocks m' \<subseteq> fec_blocks m \<union> fec_clip m s c"
    "vcbFreeExtCnt m < kMaxFreeExtents \<Longrightarrow> fec_blocks m' = fec_blocks m \<union> fec_clip m s c"
proof -
  define e where "e = min (s + c) (allocLimit m)"
  have al: "allocLimit m < 4294967296"
    using ok by (simp add: fec_ok_def)
  have "fec_ok m' \<and> fec_blocks m' \<subseteq> fec_blocks m \<union> fec_clip m s c \<and>
    (vcbFreeExtCnt m < kMaxFreeExtents \<longrightarrow> fec_blocks m' = fec_blocks m \<union> fec_clip m s c)"
  proof (cases "s \<ge> allocLimit m")
    case True
    then have "fec_clip m s c = {}"
      by (auto simp: fec_clip_def)
    with True ok show ?thesis
      by (simp add: m'_def add_free_extent_cache_def)
  next
    case False
    then have clip: "fec_clip m s c = {s..<e}" and se: "s \<le> e" "e \<le> allocLimit m"
      by (auto simp: fec_clip_def e_def)
    have e: "add32 s (if add32 s c > allocLimit m then sub32 (allocLimit m) s else c) = e"
      using False sc al by (auto simp: e_def add32_eq sub32_eq)
    obtain s1 e1 m1 where mg: "add_free_extent_merge s e 0 m = (s1, e1, m1)"
      by (metis prod_cases3)
    then have r: "fec_merge_result s e m (s1, e1, m1)"
      using add_free_extent_merge_result [OF ok se, of 0] by simp
    then have s1: "s1 \<le> e1" "e1 < 4294967296" "e1 \<le> allocLimit m1" and ok1: "fec_ok m1"
      using se al by (auto simp: fec_merge_result_def)
    then have sub: "sub32 e1 s1 = e1 - s1"
      by (simp add: sub32_eq)
    have m': "m' = snd (add_free_extent_list m1 s1 (e1 - s1))"
      using False e by (simp add: m'_def add_free_extent_cache_def mg sub)
    have sep: "\<forall>x\<in>set (fec_entries m1). ext_sep x (mk_extent s1 (e1 - s1))"
      using r s1 by (auto simp: fec_merge_result_def ext_sep_def)
    have bound: "s1 + (e1 - s1) \<le> allocLimit m1"
      using s1 by simp
    note a = fec_add_entry [OF ok1 sep bound, folded m']
    have run: "ext_run (mk_extent s1 (e1 - s1)) = {s1..<e1}"
      using s1 by (auto simp: ext_run_def)
    have "fec_blocks m' \<subseteq> fec_blocks m1 \<union> {s1..<e1}"
      using a(2) run by (auto simp: fec_blocks_def)
    moreover have "fec_blocks m' = fec_blocks m1 \<union> {s1..<e1}" if "vcbFreeExtCnt m1 < kMaxFreeExtents"
      using a(3) run that by (auto simp: fec_blocks_def)
    ultimately show ?thesis
      using a(1) r by (auto simp: fec_merge_result_def clip)
  qed
  then show "fec_ok m'" "fec_blocks m' \<subseteq> fec_blocks m \<union> fec_clip m s c"
    "vcbFreeExtCnt m < kMaxFreeExtents \<Longrightarrow> fec_blocks m' = fec_blocks m \<union> fec_clip m s c"
    by auto
qed

lemma remove_free_extent_cache_result:
  assumes "fec_ok m" "0 < c" "s + c < 4294967296"
  shows "fec_remove_result s (s + c) m (remove_free_extent_cache m s c)"
  using remove_free_extent_loop_result [OF assms(1), of s "s + c" 0] assms
  by (simp add: remove_free_extent_cache_def add32_eq)

section \<open>What the cache operations leave alone\<close>

definition fec_only :: "hfsmount \<Rightarrow> hfsmount \<Rightarrow> bool" where
  "fec_only m m' \<longleftrightarrow> (\<exists>c e. m' = m\<lparr>vcbFreeExtCnt := c, vcbFreeExt := e\<rparr>)"

lemma fec_only_refl [simp]: "fec_only m m"
  unfolding fec_only_def by (rule exI [of _ "vcbFreeExtCnt m"], rule exI [of _ "vcbFreeExt m"]) simp

lemma fec_only_trans: "fec_only m m1 \<Longrightarrow> fec_only m1 m2 \<Longrightarrow> fec_only m m2"
  unfolding fec_only_def by (elim exE) (simp, blast)

lemma remove_free_extent_list_only: "fec_only m (remove_free_extent_list m i)"
proof -
  have "fec_only m (m\<lparr>vcbFreeExt := e, vcbFreeExtCnt := c\<rparr>)" for e c
    unfolding fec_only_def by (rule exI [of _ c], rule exI [of _ e]) simp
  then show ?thesis
    by (simp add: remove_free_extent_list_def Let_def)
qed

lemma add_free_extent_list_only: "fec_only m (snd (add_free_extent_list m s c))"
proof -
  have "fec_only m (m\<lparr>vcbFreeExtCnt := n, vcbFreeExt := e\<rparr>)" for e n
    unfolding fec_only_def by blast
  then show ?thesis
    by (simp add: add_free_extent_list_def Let_def)
qed

lemma add_free_extent_merge_only: "fec_only m (snd (snd (add_free_extent_merge s e i m)))"
proof (induction s e i m rule: add_free_extent_merge.induct)
  case (1 s e i m)
  note IH = "1.IH" [OF _ refl refl]
  show ?case
    unfolding add_free_extent_merge.simps [of s e i m] Let_def
    using IH(1) fec_only_trans [OF remove_free_extent_list_only IH(2)] by (simp del: One_nat_def)
qed

lemma add_free_extent_cache_only: "fec_only m (snd (add_free_extent_cache m s c))"
proof -
  have "fec_only m (snd (add_free_extent_list m' a b))" if "add_free_extent_merge s' e' 0 m = (x, y, m')" for s' e' x y m' a b
    using add_free_extent_merge_only [of m s' e' 0] add_free_extent_list_only fec_only_trans that by (metis snd_conv)
  then show ?thesis
    by (auto simp: add_free_extent_cache_def Let_def split: prod.splits)
qed

lemma add_free_extent_cache_False: "fst (add_free_extent_cache m s c) = False"
  by (simp add: add_free_extent_cache_def Let_def split: prod.splits)

lemma remove_free_extent_loop_only: "fec_only m (remove_free_extent_loop s e i m)"
proof (induction s e i m rule: remove_free_extent_loop.induct)
  case (1 s e i m)
  note rm = remove_free_extent_list_only [of m "int i"]
  have ad: "fec_only m (snd (add_free_extent_list (remove_free_extent_list m (int i)) a b))" for a b
    using fec_only_trans [OF rm add_free_extent_list_only] .
  then have ad2: "fec_only m (snd (add_free_extent_list (snd (add_free_extent_list (remove_free_extent_list m (int i)) a b)) c d))" for a b c d
    using fec_only_trans [OF _ add_free_extent_list_only] by blast
  define cs ce where "cs = startBlock (vcbFreeExt m ! i)" and "ce = add32 cs (blockCount (vcbFreeExt m ! i))"
  define r where "r = (if cs < s then add_free_extent_list (remove_free_extent_list m (int i)) cs (sub32 s cs)
      else add_free_extent_list (remove_free_extent_list m (int i)) e (sub32 ce e))"
  note step = remove_free_extent_loop.simps [of s e i m, unfolded Let_def, folded cs_def, folded ce_def, folded r_def]
  have r: "fec_only m (snd r)"
    using ad by (simp add: r_def)
  consider "\<not> (i < vcbFreeExtCnt m \<and> fec_array m)"
    | "i < vcbFreeExtCnt m \<and> fec_array m" "ce \<le> s \<or> e \<le> cs"
    | "i < vcbFreeExtCnt m \<and> fec_array m" "\<not> (ce \<le> s \<or> e \<le> cs)" "s \<le> cs \<and> ce \<le> e"
    | "i < vcbFreeExtCnt m \<and> fec_array m" "\<not> (ce \<le> s \<or> e \<le> cs)" "\<not> (s \<le> cs \<and> ce \<le> e)" "cs < s \<and> e < ce"
    | "i < vcbFreeExtCnt m \<and> fec_array m" "\<not> (ce \<le> s \<or> e \<le> cs)" "\<not> (s \<le> cs \<and> ce \<le> e)" "\<not> (cs < s \<and> e < ce)"
    by blast
  then show ?case
  proof cases
    case 1
    then show ?thesis
      unfolding step by (simp only: if_False fec_only_refl)
  next
    case 2
    then show ?thesis
      using "1.IH"(1) [OF 2(1) cs_def ce_def 2(2)] unfolding step by (simp only: if_True simp_thms)
  next
    case 3
    then show ?thesis
      using fec_only_trans [OF rm "1.IH"(2) [OF 3(1) cs_def ce_def 3(2,3)]] unfolding step by (simp only: if_True if_False simp_thms)
  next
    case 4
    then show ?thesis
      unfolding step using ad2 by (simp only: if_True if_False simp_thms)
  next
    case 5
    then show ?thesis
      using fec_only_trans [OF r "1.IH"(3) [OF 5(1) cs_def ce_def 5(2-4) refl r_def]]
        fec_only_trans [OF r "1.IH"(4) [OF 5(1) cs_def ce_def 5(2-4) refl r_def]] unfolding step
      by (cases "i < fst r") (simp_all only: if_True if_False simp_thms)
  qed
qed

lemma remove_free_extent_cache_only: "fec_only m (remove_free_extent_cache m s c)"
  by (simp add: remove_free_extent_cache_def remove_free_extent_loop_only)

section \<open>What the search of the cache finds\<close>

lemma BlockFindKnown_spec:
  assumes "fec_ok m" "0 < maxBlocks"
  shows "case BlockFindKnown m maxBlocks old of (err, ext, m') \<Rightarrow> m' = m \<and>
    ((err = noErr \<and> ext_run ext \<noteq> {} \<and> blockCount ext \<le> maxBlocks \<and> ext_run ext \<subseteq> fec_blocks m \<and>
     (\<not> fec_sparse m \<longrightarrow> (\<forall>e\<in>set (fec_entries m). min maxBlocks (blockCount e) \<le> blockCount ext))) \<or>
    (err = dskFulErr \<and> ext = old \<and> (fec_sparse m \<or> fec_blocks m = {})))"
proof -
  have arr: "fec_array m" and srt: "sorted_wrt (ext_le (fec_sparse m)) (fec_entries m)"
    using assms(1) by (auto simp: fec_ok_def fec_list_ok_def)
  show ?thesis
  proof (cases "vcbFreeExtCnt m = 0")
    case True
    then show ?thesis
      by (simp add: BlockFindKnown_def fec_blocks_def fec_entries_def)
  next
    case False
    define x where "x = vcbFreeExt m ! 0"
    obtain xs where xs: "fec_entries m = x # xs"
      using False arr fec_array_length [OF arr] fec_entries_nth [of 0 m]
      by (cases "fec_entries m") (auto simp: x_def)
    have max: "blockCount e \<le> blockCount x" if "\<not> fec_sparse m" "e \<in> set (fec_entries m)" for e
      using that srt by (auto simp: xs ext_le_def)
    have bound: "startBlock x + blockCount x \<le> allocLimit m" "allocLimit m < 4294967296"
      using fec_ok_bound [OF assms(1), of x] assms(1) by (simp_all add: xs fec_ok_def)
    show ?thesis
    proof (cases "blockCount x = 0")
      case True
      then have "fec_sparse m \<or> fec_blocks m = {}"
        using max by (force simp: fec_blocks_def ext_run_def)
      with True show ?thesis
        by (simp add: BlockFindKnown_def x_def)
    next
      case pos: False
      define n where "n = min maxBlocks (blockCount x)"
      have n: "(if blockCount x > maxBlocks then maxBlocks else blockCount x) = n"
        by (simp add: n_def)
      have "add32 (startBlock x) n \<le> allocLimit m"
        using bound add32_eq [of "startBlock x" n] by (simp add: n_def)
      then have eq: "BlockFindKnown m maxBlocks old = (noErr, mk_extent (startBlock x) n, m)"
        using False pos unfolding BlockFindKnown_def x_def [symmetric] n by simp
      have "0 < n" "n \<le> maxBlocks" "n \<le> blockCount x"
        using pos assms(2) by (simp_all add: n_def)
      then have "ext_run (mk_extent (startBlock x) n) \<noteq> {}" "ext_run (mk_extent (startBlock x) n) \<subseteq> ext_run x"
        by (auto simp: ext_run_def run_def)
      then show ?thesis
        using max \<open>n \<le> maxBlocks\<close> by (fastforce simp: eq fec_blocks_def xs n_def)
    qed
  qed
qed

section \<open>Properties\<close>

text \<open>
  C15.  Adding a free extent to a well-formed cache keeps the cache well formed (at most ten
  entries below the allocation limit, pairwise apart, in order), never makes it claim a block that
  neither the cache nor the part of the extent below the allocation limit has, and while the cache
  has a free slot it claims exactly those.
\<close>

theorem add_free_extent_cache_correct:
  assumes "fec_ok m" "s + c < 4294967296"
  shows "fec_ok (snd (add_free_extent_cache m s c)) \<and>
    fec_blocks (snd (add_free_extent_cache m s c)) \<subseteq> fec_blocks m \<union> fec_clip m s c \<and>
    (vcbFreeExtCnt m < kMaxFreeExtents \<longrightarrow>
       fec_blocks (snd (add_free_extent_cache m s c)) = fec_blocks m \<union> fec_clip m s c)"
  using add_free_extent_cache_result [OF assms] by simp

definition cached_mount :: "hfsmount" where
  "cached_mount = (plain_mount 100 8 [])\<lparr>vcbFreeExtCnt := 2,
     vcbFreeExt := [mk_extent 10 20, mk_extent 50 5] @ replicate 8 (mk_extent 0 0)\<rparr>"

lemma cached_mount_ok: "fec_ok cached_mount"
  by (simp add: cached_mount_def plain_mount_def fec_ok_def fec_array_def kMaxFreeExtents_def
      fec_list_ok_def fec_entries_def ext_sep_def ext_le_def ISSET_def)

theorem add_free_extent_cache_correct_witness:
  "fec_ok (snd (add_free_extent_cache cached_mount 30 20)) \<and>
   fec_blocks (snd (add_free_extent_cache cached_mount 30 20)) = fec_blocks cached_mount \<union> {30..<50}"
proof -
  have "vcbFreeExtCnt cached_mount < kMaxFreeExtents" "fec_clip cached_mount 30 20 = {30..<50}"
    by (auto simp: cached_mount_def kMaxFreeExtents_def fec_clip_def plain_mount_def)
  then show ?thesis
    using add_free_extent_cache_correct [OF cached_mount_ok, of 30 20] by simp
qed

text \<open>
  C16.  Removing an extent from a well-formed cache keeps it well formed and leaves no block of the
  extent in it; it keeps every other block, except that splitting an entry of a full cache may
  push the entry that sorts last out of it.
\<close>

theorem remove_free_extent_cache_correct:
  assumes "fec_ok m" "0 < c" "s + c < 4294967296"
  shows "fec_ok (remove_free_extent_cache m s c) \<and>
    fec_blocks (remove_free_extent_cache m s c) \<subseteq> fec_blocks m - run s c \<and>
    (vcbFreeExtCnt m < kMaxFreeExtents \<or> \<not> fec_splits m s (s + c) \<longrightarrow>
       fec_blocks (remove_free_extent_cache m s c) = fec_blocks m - run s c)"
  using remove_free_extent_cache_result [OF assms] by (simp add: fec_remove_result_def run_def)

theorem remove_free_extent_cache_correct_witness:
  "fec_blocks (remove_free_extent_cache cached_mount 12 41) = fec_blocks cached_mount - run 12 41"
proof -
  have "vcbFreeExtCnt cached_mount < kMaxFreeExtents"
    by (simp add: cached_mount_def kMaxFreeExtents_def)
  then show ?thesis
    using remove_free_extent_cache_correct [OF cached_mount_ok, of 41 12] by simp
qed



end
