(* ===== verification/Find_Contiguous.thy ===== *)
theory Find_Contiguous
  imports Find_Any Free_Extent_Cache
begin

text \<open>
  The search for a run of free blocks of \<^verbatim>\<open>core/VolumeAllocation.c\<close>: \<open>BlockFindContiguous\<close>, with the callers
  \<open>BlockFindContig\<close> and \<open>hfs_alloc_try_hard\<close>.  The search walks the bitmap word by word with the cursors of
  \<open>Bitmap_Mark\<close>; the labels \<open>LoopExit\<close> and \<open>ErrorExit\<close> of the C code are constructors of the results of its inner
  loops.  On the way it enters the free runs that are too short into the free extent cache.
\<close>

section \<open>Inner loops\<close>

datatype 'a contig_out =
    ErrorExit hfs_err hfsmount
  | LoopExit hfsmount
  | Found 'a

text \<open>The loops over the bits of one word: the mask and the block where they stop.\<close>

function skip_used_bits :: "u32 \<Rightarrow> u32 \<Rightarrow> nat \<Rightarrow> u32 \<times> nat" where
  "skip_used_bits tempWord bitMask currentBlock =
     (if and tempWord bitMask \<noteq> 0 then skip_used_bits tempWord (drop_bit 1 bitMask) (add32 currentBlock 1)
      else (bitMask, currentBlock))"
  by pat_completeness auto
termination
proof (relation "measure (\<lambda>(w, bitMask, c). unat bitMask)", goal_cases)
  case (2 w bitMask c)
  then have "bitMask \<noteq> 0"
    by auto
  then show ?case
    by (simp add: drop_bit_eq_div unat_div unat_gt_0)
qed simp

function skip_free_bits :: "u32 \<Rightarrow> u32 \<Rightarrow> nat \<Rightarrow> u32 \<times> nat" where
  "skip_free_bits tempWord bitMask currentBlock =
     (if bitMask \<noteq> 0 \<and> and tempWord bitMask = 0 then skip_free_bits tempWord (drop_bit 1 bitMask) (add32 currentBlock 1)
      else (bitMask, currentBlock))"
  by pat_completeness auto
termination
  by (relation "measure (\<lambda>(w, bitMask, c). unat bitMask)") (auto simp: drop_bit_eq_div unat_div unat_gt_0)

declare skip_used_bits.simps [simp del] skip_free_bits.simps [simp del]

text \<open>Where the search goes on when a piece is used up: the block and the cursor on its piece.\<close>

definition contig_next_piece ::
  "(nat \<Rightarrow> hfs_err) \<Rightarrow> u32 \<Rightarrow> bool \<Rightarrow> bool \<Rightarrow> nat \<Rightarrow> nat \<Rightarrow> bitmap_cursor \<Rightarrow> nat \<Rightarrow> hfsmount \<Rightarrow>
   (nat \<times> bitmap_cursor \<times> hfsmount) contig_out" where
  "contig_next_piece bread flags useMetaZone trustSummary stopBlock summary_block_scan cur currentBlock m =
     (let m' = ReleaseBitmapBlock (note_full_piece summary_block_scan m) (blockRef cur) (buffer cur) False;
          currentBlock1 = (if useMetaZone then currentBlock else NextBitmapBlock m' currentBlock)
      in if \<not> useMetaZone \<and> currentBlock1 \<ge> stopBlock then LoopExit m'
         else
           case (if trustSummary \<and> hfs_has_summary m' then hfs_find_summary_free m' currentBlock1 0
                 else (noErr, currentBlock1)) of
             (err, suggestion) \<Rightarrow>
               if err \<noteq> noErr \<and> err \<noteq> ENOSPC then ErrorExit err m'
               else if trustSummary \<and> hfs_has_summary m' \<and> (err = ENOSPC \<or> suggestion \<ge> stopBlock) then LoopExit m'
               else
                 case ReadBitmapBlock bread m' suggestion flags of
                   Inl err' \<Rightarrow> ErrorExit err' m'
                 | Inr (ref, buf) \<Rightarrow> Found (suggestion, piece_start m' ref buf, m'))"

text \<open>Inner loop 1: the first free block, a word at a time; \<open>Found\<close> may be at or behind \<open>stopBlock\<close>.\<close>

partial_function (option) contig_unused_words ::
  "(nat \<Rightarrow> hfs_err) \<Rightarrow> u32 \<Rightarrow> bool \<Rightarrow> bool \<Rightarrow> nat \<Rightarrow> nat \<Rightarrow> bitmap_cursor \<Rightarrow> nat \<Rightarrow> hfsmount \<Rightarrow>
   (nat \<times> bitmap_cursor \<times> hfsmount) contig_out option" where
  "contig_unused_words bread flags useMetaZone trustSummary stopBlock summary_block_scan cur currentBlock m =
     (if currentBlock < stopBlock then
        case (if wordsLeft cur = 0
              then contig_next_piece bread flags useMetaZone trustSummary stopBlock summary_block_scan cur currentBlock m
              else Found (currentBlock, cur, m)) of
          ErrorExit err m' \<Rightarrow> Some (ErrorExit err m')
        | LoopExit m' \<Rightarrow> Some (LoopExit m')
        | Found (currentBlock', cur', m') \<Rightarrow>
            if load_word cur' + 1 \<noteq> 0
            then Some (Found (snd (skip_used_bits (load_word cur') kHighBitInWordMask currentBlock'), cur', m'))
            else contig_unused_words bread flags useMetaZone trustSummary stopBlock
                   (if wordsLeft cur = 0 then currentBlock' else summary_block_scan) (step_word cur')
                   (add32 currentBlock' 32) m'
      else Some (Found (currentBlock, cur, m)))"

definition contig_unused ::
  "(nat \<Rightarrow> hfs_err) \<Rightarrow> u32 \<Rightarrow> bool \<Rightarrow> bool \<Rightarrow> nat \<Rightarrow> bitmap_cursor \<Rightarrow> nat \<Rightarrow> hfsmount \<Rightarrow>
   (nat \<times> bitmap_cursor \<times> hfsmount) contig_out option" where
  "contig_unused bread flags useMetaZone trustSummary stopBlock cur currentBlock m =
     (if currentBlock mod 32 \<noteq> 0 then
        case skip_used_bits (load_word cur) (drop_bit (currentBlock mod 32) kHighBitInWordMask) currentBlock of
          (bitMask, currentBlock') \<Rightarrow>
            if bitMask \<noteq> 0 then Some (Found (currentBlock', cur, m))
            else contig_unused_words bread flags useMetaZone trustSummary stopBlock 0 (step_word cur) currentBlock' m
      else contig_unused_words bread flags useMetaZone trustSummary stopBlock 0 cur currentBlock m)"

text \<open>
  Inner loop 2: the end of the free run.  In a word that is not zero the C loop stops at a used bit before the mask
  is gone, so \<open>skip_free_bits\<close> serves there too.
\<close>

partial_function (option) contig_used_words ::
  "(nat \<Rightarrow> hfs_err) \<Rightarrow> u32 \<Rightarrow> bool \<Rightarrow> nat \<Rightarrow> nat \<Rightarrow> nat \<Rightarrow> bitmap_cursor \<Rightarrow> nat \<Rightarrow> hfsmount \<Rightarrow>
   (nat \<times> bitmap_cursor) contig_out option" where
  "contig_used_words bread flags useMetaZone endingBlock maxBlocks firstBlock cur currentBlock m =
     (if currentBlock < endingBlock then
        case (if wordsLeft cur = 0 then
                if \<not> useMetaZone \<and> NextBitmapBlock m currentBlock \<noteq> currentBlock then LoopExit m
                else case ReadBitmapBlock bread m currentBlock flags of
                       Inl err \<Rightarrow> ErrorExit err m
                     | Inr (ref, buf) \<Rightarrow> Found (piece_start m ref buf)
              else Found cur) of
          ErrorExit err m' \<Rightarrow> Some (ErrorExit err m')
        | LoopExit m' \<Rightarrow> Some (LoopExit m')
        | Found cur' \<Rightarrow>
            if load_word cur' \<noteq> 0
            then Some (Found (snd (skip_free_bits (load_word cur') kHighBitInWordMask currentBlock), cur'))
            else if sub32 (add32 currentBlock 32) firstBlock \<ge> maxBlocks
            then Some (Found (add32 currentBlock 32, step_word cur'))
            else contig_used_words bread flags useMetaZone endingBlock maxBlocks firstBlock (step_word cur')
                   (add32 currentBlock 32) m
      else Some (Found (currentBlock, cur)))"

definition contig_used ::
  "(nat \<Rightarrow> hfs_err) \<Rightarrow> u32 \<Rightarrow> bool \<Rightarrow> nat \<Rightarrow> nat \<Rightarrow> nat \<Rightarrow> bitmap_cursor \<Rightarrow> hfsmount \<Rightarrow>
   (nat \<times> bitmap_cursor) contig_out option" where
  "contig_used bread flags useMetaZone endingBlock maxBlocks firstBlock cur m =
     (if firstBlock mod 32 \<noteq> 0 then
        case skip_free_bits (load_word cur) (drop_bit (firstBlock mod 32) kHighBitInWordMask) firstBlock of
          (bitMask, currentBlock) \<Rightarrow>
            if bitMask \<noteq> 0 then Some (Found (currentBlock, cur))
            else contig_used_words bread flags useMetaZone endingBlock maxBlocks firstBlock (step_word cur) currentBlock m
      else contig_used_words bread flags useMetaZone endingBlock maxBlocks firstBlock cur firstBlock m)"

section \<open>The search\<close>

text \<open>A free run that is too short goes into the free extent cache, unless its trim is pending.\<close>

definition contig_cache :: "journal \<Rightarrow> u32 \<Rightarrow> nat \<Rightarrow> nat \<Rightarrow> hfsmount \<Rightarrow> bool \<Rightarrow> nat \<times> nat \<times> bool \<times> hfsmount" where
  "contig_cache j flags firstBlock foundBlocks m updated =
     (let (first, found) =
            (if ISSET flags HFS_ALLOC_IGNORE_TENTATIVE then
               let free_extent = foldl rl_subtract
                     (rl_make (int firstBlock) (int (sub32 (add32 firstBlock foundBlocks) 1)))
                     (hfs_reserved_ranges m HFS_TENTATIVE_BLOCKS)
               in (nat (rl_start free_extent), nat (rl_len free_extent))
             else (firstBlock, foundBlocks))
      in if found \<noteq> 0 then
           if \<not> jnl m \<or> fst (CheckUnmappedBytes j m first found) \<noteq> noErr \<or> snd (CheckUnmappedBytes j m first found) = None
           then case add_free_extent_cache m first found of (updated', m') \<Rightarrow> (first, found, updated', m')
           else (first, found, updated, m)
         else (first, found, updated, m))"

text \<open>What is left to be seen of the free blocks that the counters promise.\<close>

definition contig_remaining :: "nat \<Rightarrow> nat \<Rightarrow> nat" where
  "contig_remaining remaining foundBlocks =
     (if remaining \<noteq> 0 then if foundBlocks > remaining then UINT32_MAX else sub32 remaining foundBlocks else remaining)"

text \<open>On a sparse device the allocation pointers move down to the smallest cached block.\<close>

definition contig_sparse :: "bool \<Rightarrow> hfsmount \<Rightarrow> hfsmount" where
  "contig_sparse updated m =
     (if updated \<and> ISSET (hfs_flags m) HFS_HAS_SPARSE_DEVICE then
        let min_start = foldl (\<lambda>a e. if startBlock e < a then startBlock e else a) (totalBlocks m)
              (take (vcbFreeExtCnt m) (vcbFreeExt m))
        in if min_start \<noteq> totalBlocks m then
             m\<lparr>nextAllocation := (if min_start < nextAllocation m then min_start else nextAllocation m),
               sparseAllocation := (if min_start < sparseAllocation m then min_start else sparseAllocation m)\<rparr>
           else m
      else m)"

text \<open>The main loop; the result is the first block and length found, or an error exit.\<close>

partial_function (option) contig_loop ::
  "(nat \<Rightarrow> hfs_err) \<Rightarrow> journal \<Rightarrow> u32 \<Rightarrow> bool \<Rightarrow> bool \<Rightarrow> nat \<Rightarrow> nat \<Rightarrow> nat \<Rightarrow> nat \<Rightarrow>
   nat \<Rightarrow> nat \<Rightarrow> HFSPlusExtentDescriptor \<Rightarrow> bool \<Rightarrow> bitmap_cursor \<Rightarrow> nat \<Rightarrow> hfsmount \<Rightarrow>
   (nat \<times> nat \<times> HFSPlusExtentDescriptor \<times> bool \<times> hfsmount) contig_out option" where
  "contig_loop bread j flags useMetaZone trustSummary endingBlock stopBlock minBlocks maxBlocks
       remaining firstBlock best updated cur currentBlock m =
     Option.bind (contig_unused bread flags useMetaZone trustSummary stopBlock cur currentBlock m)
       (\<lambda>r. case r of
          ErrorExit err m' \<Rightarrow> Some (ErrorExit err (contig_sparse updated m'))
        | LoopExit m' \<Rightarrow> Some (Found (firstBlock, 0, best, updated, m'))
        | Found (first, cur1, m1) \<Rightarrow>
            if first \<ge> stopBlock then Some (Found (firstBlock, 0, best, updated, m1))
            else
              Option.bind (contig_used bread flags useMetaZone endingBlock maxBlocks first cur1 m1)
                (\<lambda>r2. case r2 of
                   ErrorExit err m' \<Rightarrow> Some (ErrorExit err (contig_sparse updated m'))
                 | LoopExit m' \<Rightarrow> Some (Found (first, 0, best, updated, m'))
                 | Found (currentBlock', cur2) \<Rightarrow>
                     let currentBlock2 = (if currentBlock' > endingBlock then endingBlock else currentBlock');
                         foundBlocks = (if sub32 currentBlock2 first > maxBlocks then maxBlocks
                                        else sub32 currentBlock2 first);
                         remaining' = contig_remaining remaining foundBlocks;
                         best' = (if ISSET flags HFS_ALLOC_TRY_HARD \<and> foundBlocks > blockCount best
                                  then mk_extent first foundBlocks else best)
                     in if (if ISSET flags HFS_ALLOC_TRY_HARD
                            then foundBlocks \<ge> maxBlocks \<or> blockCount best' \<ge> remaining'
                            else foundBlocks \<ge> minBlocks)
                        then Some (Found (first, foundBlocks, best', updated, m1))
                        else
                          case contig_cache j flags first foundBlocks m1 updated of
                            (first', found', updated', m2) \<Rightarrow>
                              if currentBlock2 < stopBlock then
                                contig_loop bread j flags useMetaZone trustSummary endingBlock stopBlock minBlocks maxBlocks
                                  remaining' first' best' updated' cur2 currentBlock2 m2
                              else Some (Found (first', found', best', updated', m2))))"

definition contig_exit ::
  "u32 \<Rightarrow> nat \<Rightarrow> (nat \<times> nat \<times> HFSPlusExtentDescriptor \<times> bool \<times> hfsmount) contig_out \<Rightarrow>
   hfs_err \<times> HFSPlusExtentDescriptor \<times> hfsmount" where
  "contig_exit flags minBlocks r =
     (case r of
        ErrorExit err m \<Rightarrow> (err, mk_extent 0 0, m)
      | LoopExit m \<Rightarrow> (dskFulErr, mk_extent 0 0, m)
      | Found (first, found, best, updated, m) \<Rightarrow>
          let (firstBlock, foundBlocks) = (if ISSET flags HFS_ALLOC_TRY_HARD then (startBlock best, blockCount best)
                                           else (first, found))
          in if foundBlocks < minBlocks then (dskFulErr, mk_extent 0 0, contig_sparse updated m)
             else if add32 firstBlock foundBlocks > allocLimit m then (hfs_panic, mk_extent firstBlock foundBlocks, m)
             else (noErr, mk_extent firstBlock foundBlocks, contig_sparse updated m))"

definition contig_cursor :: "hfsmount \<Rightarrow> nat \<Rightarrow> nat \<Rightarrow> u32 list \<Rightarrow> bitmap_cursor" where
  "contig_cursor m block ref buf =
     (let wordIndex = and (block div 32) (words_per_block m - 1)
      in \<lparr>blockRef = ref, buffer = buf, currentWord = wordIndex, wordsLeft = words_per_block m - wordIndex\<rparr>)"

definition BlockFindContiguous ::
  "(nat \<Rightarrow> hfs_err) \<Rightarrow> journal \<Rightarrow> hfsmount \<Rightarrow> nat \<Rightarrow> nat \<Rightarrow> nat \<Rightarrow> nat \<Rightarrow> bool \<Rightarrow> bool \<Rightarrow> u32 \<Rightarrow>
   (hfs_err \<times> HFSPlusExtentDescriptor \<times> hfsmount) option" where
  "BlockFindContiguous bread j m start endingBlock minBlocks maxBlocks useMetaZone trustSummary flags =
     (case skip_metazone m useMetaZone start endingBlock of
        None \<Rightarrow> Some (dskFulErr, mk_extent 0 0, m)
      | Some startingBlock \<Rightarrow>
          if sub32 endingBlock startingBlock < minBlocks then Some (dskFulErr, mk_extent 0 0, m)
          else
            let stopBlock = add32 (sub32 endingBlock minBlocks) 1;
                currentBlock = (if useMetaZone then startingBlock else NextBitmapBlock m startingBlock)
            in case (if trustSummary \<and> hfs_has_summary m then hfs_find_summary_free m currentBlock 0
                     else (noErr, currentBlock)) of
                 (err, suggestion) \<Rightarrow>
                   if err \<noteq> noErr \<and> err \<noteq> ENOSPC then Some (err, mk_extent 0 0, m)
                   else if trustSummary \<and> hfs_has_summary m \<and> (err = ENOSPC \<or> suggestion \<ge> stopBlock)
                   then Some (dskFulErr, mk_extent 0 0, m)
                   else
                     case ReadBitmapBlock bread m suggestion flags of
                       Inl err' \<Rightarrow> Some (err', mk_extent 0 0, m)
                     | Inr (ref, buf) \<Rightarrow>
                         let remaining = sub32 (sub32 (freeBlocks m) (lockedBlocks m))
                               (if ISSET flags HFS_ALLOC_IGNORE_TENTATIVE then 0 else tentativeBlocks m)
                         in Option.bind
                              (contig_loop bread j flags useMetaZone trustSummary endingBlock stopBlock minBlocks maxBlocks
                                 remaining 0 (mk_extent 0 0) False (contig_cursor m suggestion ref buf) suggestion m)
                              (\<lambda>r. Some (contig_exit flags minBlocks r)))"

section \<open>Callers\<close>

definition extents_overlap :: "nat \<Rightarrow> nat \<Rightarrow> nat \<Rightarrow> nat \<Rightarrow> bool" where
  "extents_overlap start1 len1 start2 len2 \<longleftrightarrow> \<not> (add32 start1 len1 \<le> start2 \<or> add32 start2 len2 \<le> start1)"

text \<open>The two searches of one round of \<open>BlockFindContig\<close>: from the current start, then the rest.\<close>

definition contig_round ::
  "(nat \<Rightarrow> hfs_err) \<Rightarrow> journal \<Rightarrow> hfsmount \<Rightarrow> nat \<Rightarrow> nat \<Rightarrow> nat \<Rightarrow> u32 \<Rightarrow>
   (hfs_err \<times> HFSPlusExtentDescriptor \<times> hfsmount) option" where
  "contig_round bread j m currentStart minBlocks maxBlocks flags =
     Option.bind
       (BlockFindContiguous bread j m currentStart (allocLimit m) minBlocks maxBlocks (ISSET flags HFS_ALLOC_METAZONE) True flags)
       (\<lambda>(retval, ext, m1).
          if retval = dskFulErr \<and> currentStart \<noteq> 0 then
            BlockFindContiguous bread j m1 1 (if ISSET (hfs_flags m1) HFS_SUMMARY_TABLE then allocLimit m1 else currentStart)
              minBlocks maxBlocks (ISSET flags HFS_ALLOC_METAZONE) False flags
          else Some (retval, ext, m1))"

partial_function (option) contig_rounds ::
  "(nat \<Rightarrow> hfs_err) \<Rightarrow> journal \<Rightarrow> hfsmount \<Rightarrow> nat \<Rightarrow> nat \<Rightarrow> nat \<Rightarrow> u32 \<Rightarrow> nat \<Rightarrow> nat \<Rightarrow>
   (hfs_err \<times> HFSPlusExtentDescriptor \<times> hfsmount) option" where
  "contig_rounds bread j m currentStart minBlocks maxBlocks flags collision_start collision_count =
     Option.bind (contig_round bread j m currentStart minBlocks maxBlocks flags)
       (\<lambda>(retval, ext, m1).
          if retval \<noteq> noErr then Some (retval, ext, m1)
          else if collision_start \<noteq> 0 \<and>
            extents_overlap (startBlock ext) (blockCount ext) collision_start collision_count then
            if ISSET flags HFS_ALLOC_FLUSHTXN then Some (noErr, mk_extent collision_start collision_count, m1)
            else Some (dskFulErr, ext, m1)
          else
            case (if jnl m1 \<and> fst (CheckUnmappedBytes j m1 (startBlock ext) (blockCount ext)) = noErr
                  then snd (CheckUnmappedBytes j m1 (startBlock ext) (blockCount ext)) else None) of
              Some nextStart \<Rightarrow>
                if collision_start = 0
                then contig_rounds bread j m1 nextStart minBlocks maxBlocks flags (startBlock ext) (blockCount ext)
                else contig_rounds bread j m1 nextStart minBlocks maxBlocks flags collision_start collision_count
            | None \<Rightarrow>
                if startBlock ext = 0 \<and> blockCount ext = 0
                then contig_rounds bread j m1 currentStart minBlocks maxBlocks flags collision_start collision_count
                else Some (noErr, ext, m1))"

definition BlockFindContig ::
  "(nat \<Rightarrow> hfs_err) \<Rightarrow> journal \<Rightarrow> hfsmount \<Rightarrow> nat \<Rightarrow> nat \<Rightarrow> nat \<Rightarrow> u32 \<Rightarrow> HFSPlusExtentDescriptor \<Rightarrow>
   (hfs_err \<times> HFSPlusExtentDescriptor \<times> hfsmount) option" where
  "BlockFindContig bread j m startingBlock minBlocks maxBlocks flags actual =
     Option.bind (contig_rounds bread j m startingBlock minBlocks maxBlocks flags 0 0)
       (\<lambda>(retval, ext, m'). Some (retval, if retval = noErr then ext else actual, m'))"

definition hfs_alloc_try_hard ::
  "(nat \<Rightarrow> hfs_err) \<Rightarrow> journal \<Rightarrow> hfsmount \<Rightarrow> HFSPlusExtentDescriptor \<Rightarrow> nat \<Rightarrow> u32 \<Rightarrow>
   (hfs_err \<times> HFSPlusExtentDescriptor \<times> hfsmount) option" where
  "hfs_alloc_try_hard bread j m extent max_blocks flags =
     (let min_blocks = blockCount extent
      in Option.bind
           (if startBlock extent > 0 \<and> startBlock extent < allocLimit m \<and>
               sub32 (allocLimit m) (startBlock extent) > max_blocks
            then BlockFindContiguous bread j m (startBlock extent) (add32 (startBlock extent) max_blocks)
                   max_blocks max_blocks True True flags
            else Some (dskFulErr, extent, m))
           (\<lambda>(err, ext1, m1).
              if err \<noteq> dskFulErr then Some (err, ext1, m1)
              else
                case BlockFindKnown m1 max_blocks ext1 of
                  (err2, ext2, m2) \<Rightarrow>
                    if err2 = noErr \<and> blockCount ext2 \<ge> max_blocks then Some (noErr, ext2, m2)
                    else if err2 \<noteq> noErr \<and> err2 \<noteq> dskFulErr then Some (err2, ext2, m2)
                    else BlockFindContiguous bread j m2 1 (allocLimit m2) min_blocks max_blocks True True flags))"

section \<open>Bits of one word\<close>

lemma skip_used_spec:
  assumes "bit_at m flags b cur bitMask" "32 * (b div 32) + 32 < 4294967296"
  shows "case skip_used_bits (load_word cur) bitMask b of (w, c) \<Rightarrow>
    b \<le> c \<and> {b..<c} \<subseteq> taken_blocks m flags \<and>
    (if w = 0 then c = 32 * (b div 32) + 32 else bit_at m flags c cur w \<and> c div 32 = b div 32 \<and> c \<notin> taken_blocks m flags)"
  using assms
proof (induction "31 - b mod 32" arbitrary: b bitMask rule: less_induct)
  case less
  note tst = bit_at_test [OF less.prems(1)] and eq = skip_used_bits.simps [of "load_word cur" bitMask b]
  have ne: "bitMask \<noteq> 0"
    using less.prems(1) by (simp add: bit_at_def high_bit_gone)
  have mod: "b mod 32 < 32" "b = 32 * (b div 32) + b mod 32"
    by simp_all
  then have suc: "add32 b 1 = Suc b"
    using less.prems(2) by (simp add: add32_eq)
  consider "b \<notin> taken_blocks m flags" | "b \<in> taken_blocks m flags" "b mod 32 \<noteq> 31" | "b \<in> taken_blocks m flags" "b mod 32 = 31"
    by blast
  then show ?case
  proof cases
    case 1
    then show ?thesis
      using less.prems(1) tst ne by (simp add: eq)
  next
    case 2
    note n = bit_at_next(1) [OF less.prems(1) 2(2)]
    note s = Suc_position(1) [OF 2(2)]
    obtain w c where wc: "skip_used_bits (load_word cur) (drop_bit 1 bitMask) (Suc b) = (w, c)"
      by fastforce
    have "31 - Suc b mod 32 < 31 - b mod 32"
      using 2(2) mod(1) s by simp
    then have IH: "Suc b \<le> c" "{Suc b..<c} \<subseteq> taken_blocks m flags"
      "if w = 0 then c = 32 * (b div 32) + 32 else bit_at m flags c cur w \<and> c div 32 = b div 32 \<and> c \<notin> taken_blocks m flags"
      using less.hyps [of "Suc b" "drop_bit 1 bitMask"] n s less.prems(2) wc by simp_all
    have "{b..<c} = insert b {Suc b..<c}"
      using IH(1) by auto
    then have "{b..<c} \<subseteq> taken_blocks m flags" "b \<le> c"
      using IH(1,2) 2(1) by auto
    then show ?thesis
      unfolding eq suc using 2(1) tst wc IH(3) by simp
  next
    case 3
    note n = bit_at_next(2) [OF less.prems(1) 3(2)]
    have "Suc b = 32 * (b div 32) + 32"
      using 3(2) mod(2) by linarith
    moreover have "skip_used_bits (load_word cur) 0 c = (0, c)" for c
      by (subst skip_used_bits.simps) simp
    ultimately show ?thesis
      unfolding eq suc using 3(1) tst n by auto
  qed
qed

lemma skip_free_spec:
  assumes "bit_at m flags b cur bitMask" "32 * (b div 32) + 32 < 4294967296"
  shows "case skip_free_bits (load_word cur) bitMask b of (w, c) \<Rightarrow>
    b \<le> c \<and> {b..<c} \<inter> taken_blocks m flags = {} \<and>
    (if w = 0 then c = 32 * (b div 32) + 32 else bit_at m flags c cur w \<and> c div 32 = b div 32 \<and> c \<in> taken_blocks m flags)"
  using assms
proof (induction "31 - b mod 32" arbitrary: b bitMask rule: less_induct)
  case less
  note tst = bit_at_test [OF less.prems(1)] and eq = skip_free_bits.simps [of "load_word cur" bitMask b]
  have ne: "bitMask \<noteq> 0"
    using less.prems(1) by (simp add: bit_at_def high_bit_gone)
  have mod: "b mod 32 < 32" "b = 32 * (b div 32) + b mod 32"
    by simp_all
  then have suc: "add32 b 1 = Suc b"
    using less.prems(2) by (simp add: add32_eq)
  consider "b \<in> taken_blocks m flags" | "b \<notin> taken_blocks m flags" "b mod 32 \<noteq> 31" | "b \<notin> taken_blocks m flags" "b mod 32 = 31"
    by blast
  then show ?case
  proof cases
    case 1
    then show ?thesis
      using less.prems(1) tst ne by (simp add: eq)
  next
    case 2
    note n = bit_at_next(1) [OF less.prems(1) 2(2)]
    note s = Suc_position(1) [OF 2(2)]
    obtain w c where wc: "skip_free_bits (load_word cur) (drop_bit 1 bitMask) (Suc b) = (w, c)"
      by fastforce
    have "31 - Suc b mod 32 < 31 - b mod 32"
      using 2(2) mod(1) s by simp
    then have IH: "Suc b \<le> c" "{Suc b..<c} \<inter> taken_blocks m flags = {}"
      "if w = 0 then c = 32 * (b div 32) + 32 else bit_at m flags c cur w \<and> c div 32 = b div 32 \<and> c \<in> taken_blocks m flags"
      using less.hyps [of "Suc b" "drop_bit 1 bitMask"] n s less.prems(2) wc by simp_all
    have "{b..<c} = insert b {Suc b..<c}"
      using IH(1) by auto
    then have "{b..<c} \<inter> taken_blocks m flags = {}" "b \<le> c"
      using IH(1,2) 2(1) by auto
    then show ?thesis
      unfolding eq suc using 2(1) tst ne wc IH(3) by simp
  next
    case 3
    note n = bit_at_next(2) [OF less.prems(1) 3(2)]
    have "Suc b = 32 * (b div 32) + 32"
      using 3(2) mod(2) by linarith
    moreover have "skip_free_bits (load_word cur) 0 c = (0, c)" for c
      by (subst skip_free_bits.simps) simp
    moreover have "{b..<Suc b} = {b}"
      by auto
    ultimately show ?thesis
      unfolding eq suc using 3(1) tst ne n by auto
  qed
qed

section \<open>Positions between words\<close>

text \<open>A cursor that belongs to a block, or that has used up its piece when the block starts the next one.\<close>

definition pos_ok :: "hfsmount \<Rightarrow> u32 \<Rightarrow> nat \<Rightarrow> bitmap_cursor \<Rightarrow> bool" where
  "pos_ok m flags b cur \<longleftrightarrow>
     (if wordsLeft cur = 0 then 32 * words_per_block m dvd b else scan_ok m flags b cur \<and> cur_pos m cur = b div 32)"

lemma pos_bit:
  "pos_ok m flags b cur \<Longrightarrow> wordsLeft cur \<noteq> 0 \<Longrightarrow> bit_at m flags b cur (drop_bit (b mod 32) kHighBitInWordMask)"
  by (simp add: pos_ok_def bit_at_def)

lemma bit_pos: "bit_at m flags b cur w \<Longrightarrow> pos_ok m flags b cur \<and> wordsLeft cur \<noteq> 0"
  by (simp add: pos_ok_def bit_at_def)

lemma pos_step:
  assumes "bit_at m flags b cur w"
  shows "pos_ok m flags (32 * (b div 32) + 32) (step_word cur)"
proof -
  define c where "c = 32 * (b div 32) + 31"
  have c: "c div 32 = b div 32" "c mod 32 = 31" "Suc c = 32 * (b div 32) + 32"
    by (simp_all add: c_def)
  have "bit_at m flags c cur (drop_bit (c mod 32) kHighBitInWordMask)"
    using assms scan_ok_piece [of m flags b cur c] by (simp add: bit_at_def c)
  note n = bit_at_next(3,4) [OF this c(2)]
  show ?thesis
  proof (cases "wordsLeft (step_word cur) = 0")
    case True
    then have "32 * words_per_block m dvd Suc c"
      using n(2) by (metis dvd_triv_right)
    then show ?thesis
      using True c(3) by (simp add: pos_ok_def)
  next
    case False
    then show ?thesis
      using bit_pos [OF n(1)] c(3) by simp
  qed
qed

lemma word_blocks_inject: "word_blocks i w = word_blocks i v \<Longrightarrow> w = v"
proof (rule bit_word_eqI)
  fix n
  assume eq: "word_blocks i w = word_blocks i v" and "n < LENGTH(32)"
  then have n: "n < 32"
    by simp
  define k where "k = 31 - n"
  define b where "b = 32 * i + k"
  have k: "k < 32" "31 - k = n"
    using n by (auto simp: k_def)
  then have "b div 32 = i" "31 - b mod 32 = n"
    by (simp_all add: b_def)
  then have "bit w n \<longleftrightarrow> b \<in> word_blocks i w" "bit v n \<longleftrightarrow> b \<in> word_blocks i v"
    by (simp_all add: word_blocks_def)
  then show "bit w n = bit v n"
    using eq by simp
qed

lemma whole_word:
  assumes "bit_at m flags b cur w" "32 dvd b"
  shows "load_word cur + 1 = 0 \<longleftrightarrow> run b 32 \<subseteq> taken_blocks m flags"
    "load_word cur = 0 \<longleftrightarrow> run b 32 \<inter> taken_blocks m flags = {}"
proof -
  have c: "scan_ok m flags b cur" "0 < wordsLeft cur" "cur_pos m cur = b div 32" "32 * (b div 32) = b"
    using assms by (simp_all add: bit_at_def)
  have wb: "word_blocks (b div 32) (load_word cur) = taken_blocks m flags \<inter> run b 32"
    using scan_word(1) [OF c(1,2)] c(3,4) by simp
  have all: "word_blocks (b div 32) kAllBitsSetInWord = run b 32"
    using word_blocks_all [of "b div 32"] c(4) by simp
  have "kAllBitsSetInWord = - 1"
    by (simp add: kAllBitsSetInWord_def)
  then have "load_word cur + 1 = 0 \<longleftrightarrow> load_word cur = kAllBitsSetInWord"
    by (simp only: add_eq_0_iff2)
  also have "\<dots> \<longleftrightarrow> word_blocks (b div 32) (load_word cur) = word_blocks (b div 32) kAllBitsSetInWord"
    using word_blocks_inject by metis
  also have "\<dots> \<longleftrightarrow> run b 32 \<subseteq> taken_blocks m flags"
    unfolding wb all by blast
  finally show "load_word cur + 1 = 0 \<longleftrightarrow> run b 32 \<subseteq> taken_blocks m flags" .
  show "load_word cur = 0 \<longleftrightarrow> run b 32 \<inter> taken_blocks m flags = {}"
    using word_blocks_empty [of "b div 32" "load_word cur"] wb by (simp add: Int_commute)
qed

section \<open>The next piece\<close>

definition mz_clear :: "hfsmount \<Rightarrow> bool \<Rightarrow> nat \<Rightarrow> bool" where
  "mz_clear m useMetaZone block \<longleftrightarrow> useMetaZone \<or> (\<forall>b\<ge>block. NextBitmapBlock m b = b)"

lemma mz_clear_mono: "mz_clear m u b \<Longrightarrow> b \<le> c \<Longrightarrow> mz_clear m u c"
  by (auto simp: mz_clear_def)

text \<open>The summary table leads over full pieces to the start of a piece.\<close>

lemma summary_skip:
  assumes "volume_ok m" "summary_true m" "hfs_has_summary m" "c < totalBlocks m" "hfs_find_summary_free m c 0 = (err, b)"
  shows "err = noErr \<and> c \<le> b \<and> b < totalBlocks m \<and> {c..<b} \<subseteq> taken_blocks m 0 \<and>
      (32 * words_per_block m dvd c \<longrightarrow> 32 * words_per_block m dvd b) \<or>
    err = ENOSPC \<and> {c..<allocLimit m} \<subseteq> taken_blocks m 0"
proof -
  let ?k = "bits_per_iosize m"
  have ok: "summary_ok m" and full: "\<And>c. c < totalBlocks m \<Longrightarrow> summary_bit m (c div ?k) \<Longrightarrow> c \<in> taken_blocks m 0"
    using assms(2,3) by (auto simp: summary_true_def)
  have k: "?k = 32 * words_per_block m" "allocLimit m \<le> totalBlocks m" "0 < ?k"
    using assms(1) bitmap_okD(2,4) [of m] by (auto simp: volume_ok_def)
  have "?k dvd b" if "?k dvd c" "c \<le> b" "\<not> summary_bit m (b div ?k)" "\<forall>x. c \<le> x \<and> x < b \<longrightarrow> summary_bit m (x div ?k)"
  proof (rule ccontr)
    assume nd: "\<not> ?k dvd b"
    then have "c < b"
      using that(1,2) by (cases "c = b") auto
    moreover have "(b - 1) div ?k = b div ?k"
      using nd \<open>c < b\<close> div_Suc [of "b - 1" ?k] by (simp add: dvd_eq_mod_eq_0 split: if_splits)
    ultimately show False
      using that(3) spec [OF that(4), of "b - 1"] by simp
  qed
  then show ?thesis
    using hfs_find_summary_free_spec [OF ok assms(4), of 0] assms(5) full k(1,2) by (auto simp: subset_iff)
qed

definition next_piece_result ::
  "(nat \<Rightarrow> hfs_err) \<Rightarrow> u32 \<Rightarrow> nat \<Rightarrow> nat \<Rightarrow> hfsmount \<Rightarrow> (nat \<times> bitmap_cursor \<times> hfsmount) contig_out \<Rightarrow> bool" where
  "next_piece_result bread flags stop b m r \<longleftrightarrow>
     (case r of
        ErrorExit err m' \<Rightarrow> sum_only m m' \<and> summary_true m' \<and> err \<noteq> noErr \<and> err \<in> range bread
      | LoopExit m' \<Rightarrow> sum_only m m' \<and> summary_true m' \<and> {b..<stop} \<subseteq> taken_blocks m 0
      | Found (c, cur, m') \<Rightarrow> sum_only m m' \<and> summary_true m' \<and> b \<le> c \<and> c < stop \<and> {b..<c} \<subseteq> taken_blocks m 0 \<and>
          32 * words_per_block m dvd c \<and> wordsLeft cur = words_per_block m \<and>
          bit_at m flags c cur kHighBitInWordMask)"

text \<open>The piece that is noted as full was seen from its first word to its last.\<close>

definition piece_seen :: "hfsmount \<Rightarrow> u32 \<Rightarrow> nat \<Rightarrow> bitmap_cursor \<Rightarrow> nat \<Rightarrow> bool" where
  "piece_seen m flags scan cur b \<longleftrightarrow> scan = 0 \<or> 32 * words_per_block m dvd scan \<and> scan < totalBlocks m \<and>
     {scan..<b} \<subseteq> taken_blocks m flags \<and> b + 32 * wordsLeft cur = scan + 32 * words_per_block m"

lemma contig_next_piece_spec:
  assumes vol: "volume_ok m" "summary_true m" and b: "32 * words_per_block m dvd b" "b < stop" "stop \<le> allocLimit m"
    and "mz_clear m useMetaZone b" "piece_seen m flags scan cur b" "wordsLeft cur = 0"
  shows "next_piece_result bread flags stop b m (contig_next_piece bread flags useMetaZone trust stop scan cur b m)"
proof -
  define m' where "m' = note_full_piece scan m"
  have only: "sum_only m m'"
    unfolding m'_def by (rule note_full_piece_only)
  note s = sum_only_same [OF only] sum_only_volume [OF only]
  have v: "bitmap_ok m" "reservations_ok m" "allocLimit m \<le> totalBlocks m"
    using vol(1) by (simp_all add: volume_ok_def)
  have "0 < totalBlocks m"
    using b v(3) by linarith
  then have tru: "summary_true m'"
    unfolding m'_def using assms(7,8) by (intro note_full_piece_true [OF vol(2) v(1), where flags = flags])
      (auto simp: piece_seen_def run_def)
  have nb: "(if useMetaZone then b else NextBitmapBlock m b) = b"
    using assms(6) by (auto simp: mz_clear_def)
  define sg where "sg = (if trust \<and> hfs_has_summary m then hfs_find_summary_free m' b 0 else (noErr, b))"
  have def: "contig_next_piece bread flags useMetaZone trust stop scan cur b m =
      (case sg of (err, suggestion) \<Rightarrow>
         if err \<noteq> noErr \<and> err \<noteq> ENOSPC then ErrorExit err m'
         else if trust \<and> hfs_has_summary m \<and> (err = ENOSPC \<or> suggestion \<ge> stop) then LoopExit m'
         else case ReadBitmapBlock bread m' suggestion flags of
                Inl err' \<Rightarrow> ErrorExit err' m'
              | Inr (ref, buf) \<Rightarrow> Found (suggestion, piece_start m' ref buf, m'))"
    unfolding contig_next_piece_def Let_def Release_clean m'_def [symmetric] s(8,9) nb sg_def [symmetric] using b(2) by simp
  obtain err c where ec: "sg = (err, c)"
    by fastforce
  have sug: "err = noErr \<and> b \<le> c \<and> c < totalBlocks m \<and> {b..<c} \<subseteq> taken_blocks m 0 \<and> 32 * words_per_block m dvd c \<or>
      trust \<and> hfs_has_summary m \<and> err = ENOSPC \<and> {b..<allocLimit m} \<subseteq> taken_blocks m 0"
    using summary_skip [of m' b err c] vol(1) tru b v(3) ec unfolding s sg_def by (auto split: if_splits)
  show ?thesis
  proof (cases "trust \<and> hfs_has_summary m \<and> (err = ENOSPC \<or> c \<ge> stop)")
    case True
    then have "contig_next_piece bread flags useMetaZone trust stop scan cur b m = LoopExit m'"
      unfolding def ec using sug by auto
    moreover have "{b..<stop} \<subseteq> taken_blocks m 0"
      using sug True b(3) by (auto simp: subset_iff)
    ultimately show ?thesis
      using only tru by (simp add: next_piece_result_def)
  next
    case False
    then have c: "err = noErr" "b \<le> c" "c < totalBlocks m" "{b..<c} \<subseteq> taken_blocks m 0" "32 * words_per_block m dvd c" "c < stop"
      using sug ec b(2) by (auto simp: sg_def split: if_splits)
    show ?thesis
    proof (cases "ReadBitmapBlock bread m' c flags")
      case (Inl e)
      then show ?thesis
        unfolding def ec using False c(1) only tru Read_err [OF Inl] by (auto simp: next_piece_result_def)
    next
      case (Inr q)
      obtain ref buf where q: "q = (ref, buf)"
        by fastforce
      have "bit_at m' flags c (piece_start m' ref buf) kHighBitInWordMask"
        using bit_at_piece_start [OF _ _ _ Inr [unfolded q]] v c(3,5) unfolding s by (simp add: bitmap_ok_def)
      then have "bit_at m flags c (piece_start m' ref buf) kHighBitInWordMask"
        unfolding bit_at_sum_only [OF only] .
      moreover have "wordsLeft (piece_start m' ref buf) = words_per_block m"
        by (simp add: piece_start_def s)
      ultimately show ?thesis
        unfolding def ec using False c only tru Inr q by (auto simp: next_piece_result_def)
    qed
  qed
qed

section \<open>The first free block\<close>

definition unused_result ::
  "(nat \<Rightarrow> hfs_err) \<Rightarrow> u32 \<Rightarrow> nat \<Rightarrow> nat \<Rightarrow> hfsmount \<Rightarrow> (nat \<times> bitmap_cursor \<times> hfsmount) contig_out \<Rightarrow> bool" where
  "unused_result bread flags stop b m r \<longleftrightarrow>
     (case r of
        ErrorExit err m' \<Rightarrow> sum_only m m' \<and> summary_true m' \<and> err \<noteq> noErr \<and> err \<in> range bread
      | LoopExit m' \<Rightarrow> sum_only m m' \<and> summary_true m' \<and> {b..<stop} \<subseteq> taken_blocks m 0
      | Found (c, cur, m') \<Rightarrow> sum_only m m' \<and> summary_true m' \<and> b \<le> c \<and> {b..<c} \<subseteq> taken_blocks m 0 \<and>
          (c < stop \<longrightarrow> c \<notin> taken_blocks m flags \<and> pos_ok m flags c cur \<and> wordsLeft cur \<noteq> 0))"

lemma ivl_join: "{a..<b} \<subseteq> S \<Longrightarrow> {b..<c} \<subseteq> S \<Longrightarrow> {a..<c} \<subseteq> S" for a b c :: nat
  by (meson atLeastLessThan_iff not_le_imp_less subset_iff)

lemma ivl_join_free: "{a..<b} \<inter> S = {} \<Longrightarrow> {b..<c} \<inter> S = {} \<Longrightarrow> {a..<c} \<inter> S = {}" for a b c :: nat
  using ivl_join [of a b "- S" c] by blast

lemma pos_ok_sum_only: "sum_only m m' \<Longrightarrow> pos_ok m' flags b cur = pos_ok m flags b cur"
  using sum_only_same [of m m'] by (simp add: pos_ok_def scan_ok_def cur_pos_def)

lemma piece_seen_sum_only: "sum_only m m' \<Longrightarrow> piece_seen m' flags scan cur b = piece_seen m flags scan cur b"
  using sum_only_same [of m m'] by (simp add: piece_seen_def)

lemma mz_clear_sum_only: "sum_only m m' \<Longrightarrow> mz_clear m' u b = mz_clear m u b"
  using sum_only_same [of m m'] by (simp add: mz_clear_def)

lemma unused_result_from:
  assumes r: "unused_result bread flags stop c m' r" and only: "sum_only m m'" and "{b..<c} \<subseteq> taken_blocks m 0" "b \<le> c"
  shows "unused_result bread flags stop b m r"
proof -
  have ext: "{b..<x} \<subseteq> taken_blocks m 0" if "{c..<x} \<subseteq> taken_blocks m 0" for x
    by (rule ivl_join [OF assms(3) that])
  note same = sum_only_same(3) [OF only] pos_ok_sum_only [OF only]
  show ?thesis
    using r ext assms(4) sum_only_trans [OF only] unfolding unused_result_def same
    by (auto split: contig_out.splits prod.splits)
qed

text \<open>What one turn of the word loop has in hand: a word of a piece, or an exit.\<close>

lemma unused_word:
  assumes vol: "volume_ok m" "summary_true m" and b: "32 dvd b" "b < stop" "stop \<le> allocLimit m"
    and at: "pos_ok m flags b cur" "mz_clear m useMetaZone b" "piece_seen m flags scan cur b"
    and r: "r = (if wordsLeft cur = 0 then contig_next_piece bread flags useMetaZone trust stop scan cur b m else Found (b, cur, m))"
  shows "case r of
      ErrorExit err m' \<Rightarrow> unused_result bread flags stop b m (ErrorExit err m')
    | LoopExit m' \<Rightarrow> unused_result bread flags stop b m (LoopExit m')
    | Found (c, cur', m') \<Rightarrow> sum_only m m' \<and> summary_true m' \<and> b \<le> c \<and> c < stop \<and> {b..<c} \<subseteq> taken_blocks m 0 \<and>
        32 dvd c \<and> bit_at m flags c cur' kHighBitInWordMask \<and>
        piece_seen m flags (if wordsLeft cur = 0 then c else scan) cur' c"
proof (cases "wordsLeft cur = 0")
  case True
  then have "32 * words_per_block m dvd b" "allocLimit m \<le> totalBlocks m"
    using at(1) vol(1) by (simp_all add: pos_ok_def volume_ok_def)
  then show ?thesis
    using contig_next_piece_spec [OF vol _ b(2,3) at(2,3) True, of bread trust] b(3) True
    unfolding r next_piece_result_def unused_result_def piece_seen_def
    by (auto split: contig_out.splits prod.splits dest: dvd_mult_left)
next
  case False
  have "b mod 32 = 0"
    using b(1) by presburger
  then show ?thesis
    using pos_bit [OF at(1) False] vol at(3) b(1,2) False by (simp add: r)
qed

lemma unused_word_found:
  assumes "bit_at m flags c cur kHighBitInWordMask" "32 dvd c" "load_word cur + 1 \<noteq> 0" "c + 32 < 4294967296"
    "skip_used_bits (load_word cur) kHighBitInWordMask c = (w, d)"
  shows "c \<le> d" "{c..<d} \<subseteq> taken_blocks m flags" "d \<notin> taken_blocks m flags" "bit_at m flags d cur w"
proof -
  have div: "32 * (c div 32) = c"
    using assms(2) by simp
  have "w \<noteq> 0"
  proof
    assume "w = 0"
    then have "run c 32 \<subseteq> taken_blocks m flags"
      using skip_used_spec [OF assms(1)] assms(4,5) div by (auto simp: run_def)
    then show False
      using whole_word(1) [OF assms(1,2)] assms(3) by simp
  qed
  then show "c \<le> d" "{c..<d} \<subseteq> taken_blocks m flags" "d \<notin> taken_blocks m flags" "bit_at m flags d cur w"
    using skip_used_spec [OF assms(1)] assms(4,5) div by simp_all
qed

lemma contig_unused_words_spec:
  assumes "volume_ok m" "summary_true m" "32 dvd b" "stop \<le> allocLimit m" "totalBlocks m + 32 < 4294967296"
    "pos_ok m flags b cur" "mz_clear m useMetaZone b" "piece_seen m flags scan cur b"
  shows "\<exists>r. contig_unused_words bread flags useMetaZone trust stop scan cur b m = Some r \<and> unused_result bread flags stop b m r"
  using assms
proof (induction "stop - b" arbitrary: b cur m scan rule: less_induct)
  case less
  note eq = contig_unused_words.simps [of bread flags useMetaZone trust stop scan cur b m]
  show ?case
  proof (cases "b < stop")
    case False
    then show ?thesis
      unfolding eq using less.prems(2) by (simp add: unused_result_def)
  next
    case True
    define r where "r = (if wordsLeft cur = 0 then contig_next_piece bread flags useMetaZone trust stop scan cur b m else Found (b, cur, m))"
    note wrd = unused_word [OF less.prems(1,2,3) True less.prems(4,6,7,8) r_def]
    show ?thesis
    proof (cases r)
      case (ErrorExit err m')
      then show ?thesis
        unfolding eq r_def [symmetric] using True wrd by simp
    next
      case (LoopExit m')
      then show ?thesis
        unfolding eq r_def [symmetric] using True wrd by simp
    next
      case (Found q)
      obtain c cur' m' where q: "q = (c, cur', m')"
        by (cases q)
      have only: "sum_only m m'" and tru: "summary_true m'" and c: "b \<le> c" "c < stop" "{b..<c} \<subseteq> taken_blocks m 0" "32 dvd c"
        and bit: "bit_at m flags c cur' kHighBitInWordMask"
        and seen: "piece_seen m flags (if wordsLeft cur = 0 then c else scan) cur' c"
        using wrd unfolding Found q by simp_all
      have lim: "c + 32 < 4294967296" "32 * (c div 32) = c"
        using c less.prems(1,4,5) by (simp_all add: volume_ok_def)
      show ?thesis
      proof (cases "load_word cur' + 1 = 0")
        case False
        obtain w d where d: "skip_used_bits (load_word cur') kHighBitInWordMask c = (w, d)"
          by fastforce
        note f = unused_word_found [OF bit c(4) False lim(1) d]
        have "unused_result bread flags stop c m' (Found (d, cur', m'))"
          using f tru bit_pos [OF f(4)] taken_blocks_mono [of m flags]
          unfolding unused_result_def sum_only_same(3) [OF only] pos_ok_sum_only [OF only] by auto
        then show ?thesis
          unfolding eq r_def [symmetric] Found q using True False d unused_result_from [OF _ only c(3,1)] by simp
      next
        case full: True
        have run: "run c 32 \<subseteq> taken_blocks m flags"
          using whole_word(1) [OF bit c(4)] full by simp
        have wl: "wordsLeft cur' = Suc (wordsLeft (step_word cur'))"
          using bit by (simp add: bit_at_def step_word_def)
        have seen': "piece_seen m flags (if wordsLeft cur = 0 then c else scan) (step_word cur') (c + 32)"
          using seen run wl ivl_join [of scan c "taken_blocks m flags" "c + 32"]
          unfolding piece_seen_def run_def by (auto simp del: atLeastLessThan_iff)
        have "\<exists>r. contig_unused_words bread flags useMetaZone trust stop (if wordsLeft cur = 0 then c else scan)
            (step_word cur') (c + 32) m' = Some r \<and> unused_result bread flags stop (c + 32) m' r"
        proof (rule less.hyps)
          show "stop - (c + 32) < stop - b" "summary_true m'" "32 dvd c + 32"
            using c True tru by simp_all
          show "volume_ok m'" "stop \<le> allocLimit m'" "totalBlocks m' + 32 < 4294967296" "pos_ok m' flags (c + 32) (step_word cur')"
            "mz_clear m' useMetaZone (c + 32)"
            using less.prems(1,4,5) sum_only_volume [OF only] sum_only_same [OF only] pos_step [OF bit] lim(2) c(1)
              mz_clear_mono [OF less.prems(7), of "c + 32"]
            by (simp_all add: pos_ok_sum_only [OF only] mz_clear_sum_only [OF only])
          show "piece_seen m' flags (if wordsLeft cur = 0 then c else scan) (step_word cur') (c + 32)"
            using seen' by (simp add: piece_seen_sum_only [OF only])
        qed
        then obtain r2 where r2: "contig_unused_words bread flags useMetaZone trust stop (if wordsLeft cur = 0 then c else scan)
            (step_word cur') (c + 32) m' = Some r2" "unused_result bread flags stop (c + 32) m' r2"
          by blast
        have "{b..<c + 32} \<subseteq> taken_blocks m 0"
          using ivl_join [OF c(3)] run taken_blocks_mono [of m flags] unfolding run_def by blast
        then show ?thesis
          unfolding eq r_def [symmetric] Found q using True full r2 lim(1) unused_result_from [OF r2(2) only, of b] c(1)
          by (simp add: add32_eq)
      qed
    qed
  qed
qed

lemma pos_ok_odd: "pos_ok m flags b cur \<Longrightarrow> b mod 32 \<noteq> 0 \<Longrightarrow> wordsLeft cur \<noteq> 0"
  using dvd_mult_left [of 32 "words_per_block m" b] by (auto simp: pos_ok_def mod_eq_0_iff_dvd split: if_splits)

lemma word_end_bound: "b < n \<Longrightarrow> n + 32 < 4294967296 \<Longrightarrow> 32 * (b div 32) + 32 < (4294967296::nat)"
  using mult_div_mod_eq [of 32 b] by linarith

lemma contig_unused_spec:
  assumes vol: "volume_ok m" "summary_true m" and lim: "b < stop" "stop \<le> allocLimit m" "totalBlocks m + 32 < 4294967296"
    and at: "pos_ok m flags b cur" "mz_clear m useMetaZone b"
  shows "\<exists>r. contig_unused bread flags useMetaZone trust stop cur b m = Some r \<and> unused_result bread flags stop b m r"
proof -
  have seen: "piece_seen m flags 0 c x" for c x
    by (simp add: piece_seen_def)
  show ?thesis
  proof (cases "b mod 32 = 0")
    case True
    then show ?thesis
      using contig_unused_words_spec [OF vol _ lim(2,3) at seen] by (simp add: contig_unused_def mod_eq_0_iff_dvd)
  next
    case False
    note bit = pos_bit [OF at(1) pos_ok_odd [OF at(1) False]]
    have "32 * (b div 32) + 32 < 4294967296"
      using word_end_bound [of b "totalBlocks m"] lim vol(1) by (simp add: volume_ok_def)
    note sk = skip_used_spec [OF bit this]
    obtain w c where wc: "skip_used_bits (load_word cur) (drop_bit (b mod 32) kHighBitInWordMask) b = (w, c)"
      by fastforce
    have c: "b \<le> c" "{b..<c} \<subseteq> taken_blocks m flags"
      using sk unfolding wc by simp_all
    then have taken: "{b..<c} \<subseteq> taken_blocks m 0"
      using taken_blocks_mono [of m flags] by blast
    show ?thesis
    proof (cases "w = 0")
      case True
      then have "c = 32 * (b div 32) + 32"
        using sk unfolding wc by simp
      then have "pos_ok m flags c (step_word cur)" "32 dvd c"
        using pos_step [OF bit] by simp_all
      then obtain r where "contig_unused_words bread flags useMetaZone trust stop 0 (step_word cur) c m = Some r"
        "unused_result bread flags stop c m r"
        using contig_unused_words_spec [OF vol _ lim(2,3) _ mz_clear_mono [OF at(2) c(1)] seen] by blast
      then show ?thesis
        using False True wc unused_result_from [OF _ sum_only_refl taken c(1)] by (simp add: contig_unused_def)
    next
      case nz: False
      then have "bit_at m flags c cur w" "c \<notin> taken_blocks m flags"
        using sk unfolding wc by simp_all
      then show ?thesis
        using False nz wc c(1) taken vol(2) bit_pos by (simp add: contig_unused_def unused_result_def)
    qed
  qed
qed

section \<open>The end of the free run\<close>

definition used_result ::
  "(nat \<Rightarrow> hfs_err) \<Rightarrow> u32 \<Rightarrow> nat \<Rightarrow> nat \<Rightarrow> nat \<Rightarrow> nat \<Rightarrow> hfsmount \<Rightarrow> (nat \<times> bitmap_cursor) contig_out \<Rightarrow> bool" where
  "used_result bread flags endb maxBlocks first b m r \<longleftrightarrow>
     (case r of
        ErrorExit err m' \<Rightarrow> m' = m \<and> err \<noteq> noErr \<and> err \<in> range bread
      | LoopExit m' \<Rightarrow> False
      | Found (c, cur) \<Rightarrow> b \<le> c \<and> {b..<c} \<inter> taken_blocks m flags = {} \<and>
          (endb \<le> c \<or> c - first \<ge> maxBlocks \<or> c \<in> taken_blocks m flags) \<and> c < endb + 32 \<and>
          (c < endb \<longrightarrow> pos_ok m flags c cur))"

lemma used_result_from:
  "used_result bread flags endb maxBlocks first c m r \<Longrightarrow> {b..<c} \<inter> taken_blocks m flags = {} \<Longrightarrow> b \<le> c \<Longrightarrow>
   used_result bread flags endb maxBlocks first b m r"
  by (auto simp: used_result_def split: contig_out.splits dest: ivl_join_free)

lemma used_word_found:
  assumes "bit_at m flags c cur kHighBitInWordMask" "32 dvd c" "load_word cur \<noteq> 0" "c + 32 < 4294967296"
    "skip_free_bits (load_word cur) kHighBitInWordMask c = (w, d)"
  shows "c \<le> d" "{c..<d} \<inter> taken_blocks m flags = {}" "d \<in> taken_blocks m flags" "bit_at m flags d cur w" "d < c + 32"
proof -
  have div: "32 * (c div 32) = c"
    using assms(2) by simp
  have "w \<noteq> 0"
  proof
    assume "w = 0"
    then have "run c 32 \<inter> taken_blocks m flags = {}"
      using skip_free_spec [OF assms(1)] assms(4,5) div by (auto simp: run_def)
    then show False
      using whole_word(2) [OF assms(1,2)] assms(3) by simp
  qed
  then have d: "c \<le> d" "{c..<d} \<inter> taken_blocks m flags = {}" "d \<in> taken_blocks m flags" "bit_at m flags d cur w" "d div 32 = c div 32"
    using skip_free_spec [OF assms(1)] assms(4,5) div by simp_all
  then show "c \<le> d" "{c..<d} \<inter> taken_blocks m flags = {}" "d \<in> taken_blocks m flags" "bit_at m flags d cur w"
    by simp_all
  show "d < c + 32"
    using d(5) div mult_div_mod_eq [of 32 d] mod_less_divisor [of 32 d] by linarith
qed

lemma used_word:
  assumes vol: "volume_ok m" and b: "32 dvd b" "b < totalBlocks m" and at: "pos_ok m flags b cur" "mz_clear m useMetaZone b"
    and r: "r = (if wordsLeft cur = 0 then
                   if \<not> useMetaZone \<and> NextBitmapBlock m b \<noteq> b then LoopExit m
                   else case ReadBitmapBlock bread m b flags of
                          Inl err \<Rightarrow> ErrorExit err m
                        | Inr (ref, buf) \<Rightarrow> Found (piece_start m ref buf)
                 else Found cur)"
  shows "case r of
      ErrorExit err m' \<Rightarrow> m' = m \<and> err \<noteq> noErr \<and> err \<in> range bread
    | LoopExit m' \<Rightarrow> False
    | Found cur' \<Rightarrow> bit_at m flags b cur' kHighBitInWordMask"
proof (cases "wordsLeft cur = 0")
  case True
  then have dvd: "32 * words_per_block m dvd b"
    using at(1) by (simp add: pos_ok_def)
  have nb: "useMetaZone \<or> NextBitmapBlock m b = b"
    using at(2) by (auto simp: mz_clear_def)
  show ?thesis
  proof (cases "ReadBitmapBlock bread m b flags")
    case (Inl e)
    then show ?thesis
      using True nb Read_err [OF Inl] by (auto simp: r)
  next
    case (Inr q)
    obtain ref buf where q: "q = (ref, buf)"
      by fastforce
    have "bit_at m flags b (piece_start m ref buf) kHighBitInWordMask"
      using bit_at_piece_start [OF _ _ _ Inr [unfolded q]] vol dvd b(2) by (simp add: volume_ok_def bitmap_ok_def)
    then show ?thesis
      using True nb Inr q by (auto simp: r)
  qed
next
  case False
  have "b mod 32 = 0"
    using b(1) by presburger
  then show ?thesis
    using pos_bit [OF at(1) False] False by (simp add: r)
qed

lemma contig_used_words_spec:
  assumes "volume_ok m" "32 dvd b" "endb \<le> totalBlocks m" "totalBlocks m + 32 < 4294967296" "first \<le> b" "b < endb + 32"
    "b < endb \<Longrightarrow> pos_ok m flags b cur" "mz_clear m useMetaZone b"
  shows "\<exists>r. contig_used_words bread flags useMetaZone endb maxBlocks first cur b m = Some r \<and>
    used_result bread flags endb maxBlocks first b m r"
  using assms
proof (induction "endb - b" arbitrary: b cur rule: less_induct)
  case less
  note eq = contig_used_words.simps [of bread flags useMetaZone endb maxBlocks first cur b m]
  show ?case
  proof (cases "b < endb")
    case False
    then show ?thesis
      unfolding eq using less.prems(6) by (simp add: used_result_def)
  next
    case True
    then have bl: "b < totalBlocks m" "b + 32 < 4294967296" "32 * (b div 32) = b"
      using less.prems(2,3,4) by simp_all
    define r where "r = (if wordsLeft cur = 0 then
         if \<not> useMetaZone \<and> NextBitmapBlock m b \<noteq> b then LoopExit m
         else case ReadBitmapBlock bread m b flags of
                Inl err \<Rightarrow> ErrorExit err m
              | Inr (ref, buf) \<Rightarrow> Found (piece_start m ref buf)
       else Found cur)"
    note wrd = used_word [OF less.prems(1,2) bl(1) less.prems(7) [OF True] less.prems(8) r_def]
    show ?thesis
    proof (cases r)
      case (Found cur')
      then have bit: "bit_at m flags b cur' kHighBitInWordMask"
        using wrd by simp
      show ?thesis
      proof (cases "load_word cur' = 0")
        case False
        obtain w d where d: "skip_free_bits (load_word cur') kHighBitInWordMask b = (w, d)"
          by fastforce
        note f = used_word_found [OF bit less.prems(2) False bl(2) d]
        show ?thesis
          unfolding eq r_def [symmetric] Found using True False d f bit_pos [OF f(4)] by (auto simp: used_result_def)
      next
        case free: True
        have run: "{b..<b + 32} \<inter> taken_blocks m flags = {}"
          using whole_word(2) [OF bit less.prems(2)] free by (simp add: run_def)
        have pos: "pos_ok m flags (b + 32) (step_word cur')"
          using pos_step [OF bit] bl(3) by simp
        have a32: "add32 b 32 = b + 32" "sub32 (b + 32) first = b + 32 - first"
          using bl(2) less.prems(5) by (simp_all add: add32_eq sub32_eq)
        show ?thesis
        proof (cases "b + 32 - first \<ge> maxBlocks")
          case enough: True
          then show ?thesis
            unfolding eq r_def [symmetric] Found a32 using True free run pos by (auto simp: used_result_def a32)
        next
          case more: False
          have "\<exists>r. contig_used_words bread flags useMetaZone endb maxBlocks first (step_word cur') (b + 32) m = Some r \<and>
              used_result bread flags endb maxBlocks first (b + 32) m r"
            using less.prems True pos mz_clear_mono [OF less.prems(8)] by (intro less.hyps) simp_all
          then show ?thesis
            unfolding eq r_def [symmetric] Found using True free more used_result_from [OF _ run] by (auto simp: a32)
        qed
      qed
    qed (use wrd True in \<open>simp_all add: eq r_def [symmetric] used_result_def\<close>)
  qed
qed

lemma contig_used_spec:
  assumes vol: "volume_ok m" and lim: "first < endb" "endb \<le> totalBlocks m" "totalBlocks m + 32 < 4294967296"
    and at: "pos_ok m flags first cur" "mz_clear m useMetaZone first"
  shows "\<exists>r. contig_used bread flags useMetaZone endb maxBlocks first cur m = Some r \<and>
    used_result bread flags endb maxBlocks first first m r"
proof (cases "first mod 32 = 0")
  case True
  then show ?thesis
    using contig_used_words_spec [OF vol _ lim(2,3) _ _ at] lim(1) by (simp add: contig_used_def mod_eq_0_iff_dvd)
next
  case False
  note bit = pos_bit [OF at(1) pos_ok_odd [OF at(1) False]]
  have wend: "32 * (first div 32) + 32 < 4294967296"
    using word_end_bound [of first "totalBlocks m"] lim by simp
  note sk = skip_free_spec [OF bit this]
  obtain w c where wc: "skip_free_bits (load_word cur) (drop_bit (first mod 32) kHighBitInWordMask) first = (w, c)"
    by fastforce
  have c: "first \<le> c" "{first..<c} \<inter> taken_blocks m flags = {}"
    using sk unfolding wc by simp_all
  have "c div 32 = first div 32 \<or> c = 32 * (first div 32) + 32"
    using sk unfolding wc by (auto split: if_splits)
  then have near: "c < endb + 32"
    using lim(1) mult_div_mod_eq [of 32 c] mult_div_mod_eq [of 32 first] mod_less_divisor [of 32 c] by linarith
  show ?thesis
  proof (cases "w = 0")
    case True
    then have "c = 32 * (first div 32) + 32"
      using sk unfolding wc by simp
    then have "pos_ok m flags c (step_word cur)" "32 dvd c"
      using pos_step [OF bit] by simp_all
    then obtain r where "contig_used_words bread flags useMetaZone endb maxBlocks first (step_word cur) c m = Some r"
      "used_result bread flags endb maxBlocks first c m r"
      using contig_used_words_spec [OF vol _ lim(2,3) c(1) near _ mz_clear_mono [OF at(2) c(1)]] by blast
    then show ?thesis
      using False True wc used_result_from [OF _ c(2,1)] by (simp add: contig_used_def)
  next
    case nz: False
    then have "bit_at m flags c cur w" "c \<in> taken_blocks m flags"
      using sk unfolding wc by simp_all
    then show ?thesis
      using False nz wc c near bit_pos by (auto simp: contig_used_def used_result_def)
  qed
qed

section \<open>What the search leaves alone\<close>

definition srch_only :: "hfsmount \<Rightarrow> hfsmount \<Rightarrow> bool" where
  "srch_only m m' \<longleftrightarrow> (\<exists>t c e. m' = m\<lparr>hfs_summary_table := t, vcbFreeExtCnt := c, vcbFreeExt := e\<rparr> \<and>
     length t = length (hfs_summary_table m))"

lemma srch_only_trans: "srch_only m m1 \<Longrightarrow> srch_only m1 m2 \<Longrightarrow> srch_only m m2"
  unfolding srch_only_def by (elim exE conjE) (simp, blast)

lemma sum_only_srch: "sum_only m m' \<Longrightarrow> srch_only m m'"
  unfolding sum_only_def srch_only_def
  by (elim exE conjE, rule exI, rule exI [of _ "vcbFreeExtCnt m"], rule exI [of _ "vcbFreeExt m"]) auto

lemma fec_only_srch: "fec_only m m' \<Longrightarrow> srch_only m m'"
  unfolding fec_only_def srch_only_def by (elim exE, rule exI [of _ "hfs_summary_table m"]) auto

lemma srch_only_refl [simp]: "srch_only m m"
  by (rule sum_only_srch) simp

lemma srch_only_same:
  assumes "srch_only m m'"
  shows "volume_ok m' = volume_ok m" "taken_blocks m' flags = taken_blocks m flags" "allocLimit m' = allocLimit m"
    "totalBlocks m' = totalBlocks m" "hfs_flags m' = hfs_flags m" "pos_ok m' flags b cur = pos_ok m flags b cur"
    "mz_clear m' u b = mz_clear m u b" "trims_ok j m' = trims_ok j m" "pending_blocks j m' = pending_blocks j m"
    "jnl m' = jnl m" "skip_metazone m' = skip_metazone m" "hfs_metazone_end m' = hfs_metazone_end m"
proof -
  obtain t c e where m': "m' = m\<lparr>hfs_summary_table := t, vcbFreeExtCnt := c, vcbFreeExt := e\<rparr>"
    using assms unfolding srch_only_def by blast
  have bm: "bitmap_ok m' = bitmap_ok m" "reservations_ok m' = reservations_ok m"
    by (simp_all add: m' bitmap_ok_def reservations_ok_def)
  have nb: "NextBitmapBlock m' = NextBitmapBlock m"
    by (simp add: m' NextBitmapBlock_def fun_eq_iff)
  show tk: "taken_blocks m' flags = taken_blocks m flags"
    by (simp add: m' taken_blocks_def reserved_blocks_def)
  show "volume_ok m' = volume_ok m"
    unfolding volume_ok_def bm by (simp add: m')
  show "allocLimit m' = allocLimit m" "totalBlocks m' = totalBlocks m" "hfs_flags m' = hfs_flags m" "jnl m' = jnl m"
    "hfs_metazone_end m' = hfs_metazone_end m" "trims_ok j m' = trims_ok j m" "pending_blocks j m' = pending_blocks j m"
    "skip_metazone m' = skip_metazone m"
    by (simp_all add: m' trims_ok_def pending_blocks_def skip_metazone_def fun_eq_iff)
  show "mz_clear m' u b = mz_clear m u b"
    by (simp add: mz_clear_def nb)
  show "pos_ok m' flags b cur = pos_ok m flags b cur"
    unfolding pos_ok_def scan_ok_def bm tk by (simp add: m' cur_pos_def)
qed

text \<open>The mount between two searches: the summary table and the free extent cache tell the truth.\<close>

definition search_ok :: "hfsmount \<Rightarrow> bool" where
  "search_ok m \<longleftrightarrow> volume_ok m \<and> summary_true m \<and> fec_ok m \<and> fec_blocks m \<inter> taken_blocks m 0 = {}"

lemma search_ok_sum_only:
  assumes "search_ok m" "sum_only m m'" "summary_true m'"
  shows "search_ok m'"
proof -
  have "fec_ok m' = fec_ok m" "fec_blocks m' = fec_blocks m"
    using assms(2) by (auto simp: sum_only_def fec_ok_def fec_array_def fec_entries_def fec_blocks_def)
  then show ?thesis
    using assms sum_only_volume(1) [OF assms(2)] sum_only_same(3) [OF assms(2)] by (simp add: search_ok_def)
qed

lemma summary_true_fec_only: "fec_only m m' \<Longrightarrow> summary_true m' = summary_true m"
  using srch_only_same(2,4,5) [OF fec_only_srch, of m m']
  by (auto simp: fec_only_def summary_true_def summary_ok_def summary_bit_def)

section \<open>Short runs go into the cache\<close>

lemma rl_subtract_within:
  assumes "rl_start b \<le> rl_end b" "0 \<le> rl_len a"
  shows "0 \<le> rl_len (rl_subtract a b)" "rl_set (rl_subtract a b) \<subseteq> rl_set a - rl_set b" "rl_len (rl_subtract a b) \<le> rl_len a"
    "rl_start a \<le> rl_start (rl_subtract a b)"
  using assms by (auto simp: rl_subtract_def rl_overlap_def rl_set_def rl_len_def)

lemma rl_subtract_all:
  assumes "entries_ok es" "0 \<le> rl_len a"
  shows "0 \<le> rl_len (foldl rl_subtract a es)" "rl_len (foldl rl_subtract a es) \<le> rl_len a"
    "rl_start a \<le> rl_start (foldl rl_subtract a es)"
    "rl_set (foldl rl_subtract a es) \<subseteq> rl_set a - (\<Union>e\<in>set es. rl_set e)"
proof -
  have "0 \<le> rl_len (foldl rl_subtract a es) \<and> rl_len (foldl rl_subtract a es) \<le> rl_len a \<and>
      rl_start a \<le> rl_start (foldl rl_subtract a es) \<and>
      rl_set (foldl rl_subtract a es) \<subseteq> rl_set a - (\<Union>e\<in>set es. rl_set e)"
    using assms
  proof (induction es arbitrary: a)
    case (Cons e es)
    have e: "rl_start e \<le> rl_end e" "entries_ok es"
      using Cons.prems(1) by (auto simp: entries_ok_def)
    note w = rl_subtract_within [OF e(1) Cons.prems(2)]
    show ?case
      using Cons.IH [OF e(2) w(1)] w by auto
  qed (simp add: rl_set_def)
  then show "0 \<le> rl_len (foldl rl_subtract a es)" "rl_len (foldl rl_subtract a es) \<le> rl_len a"
    "rl_start a \<le> rl_start (foldl rl_subtract a es)"
    "rl_set (foldl rl_subtract a es) \<subseteq> rl_set a - (\<Union>e\<in>set es. rl_set e)"
    by blast+
qed

text \<open>
  Whatever the search enters into the cache is free for everybody: tentative reservations that it ignores itself are
  taken out first.
\<close>

lemma contig_cache_spec:
  assumes ok: "search_ok m" "\<not> ISSET flags HFS_ALLOC_IGNORE_RESERVED"
    and ext: "0 < found" "first + found \<le> allocLimit m" "{first..<first + found} \<inter> taken_blocks m flags = {}"
    and r: "contig_cache j flags first found m False = (first', found', updated, m')"
  shows "\<not> updated" "fec_only m m'" "search_ok m'" "found' \<le> found"
proof -
  have al: "allocLimit m < 4294967296"
    using ok(1) by (simp add: search_ok_def fec_ok_def)
  let ?t = "hfs_reserved_ranges m HFS_TENTATIVE_BLOCKS"
  define a where "a = rl_make (int first) (int (sub32 (add32 first found) 1))"
  have aend: "sub32 (add32 first found) 1 = first + found - 1"
    using ext al by (simp add: add32_eq sub32_eq)
  have a: "rl_start a = int first" "rl_len a = int found" "rl_set a = {int first..<int first + int found}"
    using ext(1) unfolding a_def aend by (auto simp: rl_make_def rl_len_def rl_set_def)
  have es: "entries_ok ?t"
    using ok(1) by (simp add: search_ok_def volume_ok_def reservations_ok_def)
  define fe where "fe = (if ISSET flags HFS_ALLOC_IGNORE_TENTATIVE then foldl rl_subtract a ?t else a)"
  have fe: "0 \<le> rl_len fe" "rl_len fe \<le> int found" "int first \<le> rl_start fe" "rl_set fe \<subseteq> rl_set a"
    "ISSET flags HFS_ALLOC_IGNORE_TENTATIVE \<Longrightarrow> rl_set fe \<inter> (\<Union>e\<in>set ?t. rl_set e) = {}"
    using rl_subtract_all [OF es, of a] a(1,2) by (auto simp: fe_def)
  define f n where fn: "f = nat (rl_start fe)" "n = nat (rl_len fe)"
  have n: "n \<le> found" "\<And>x. x \<in> run f n \<Longrightarrow> int x \<in> rl_set fe"
    using fe(1-3) by (auto simp: fn rl_len_def rl_set_def run_def)
  then have sub: "run f n \<subseteq> {first..<first + found}"
    using fe(4) unfolding a(3) by fastforce
  have bound: "f + n \<le> first + found" if "n \<noteq> 0"
    using sub that subsetD [OF sub, of "f + n - 1"] by (auto simp: run_def)
  have free: "run f n \<inter> taken_blocks m 0 = {}"
  proof (rule equals0I)
    fix x
    assume x: "x \<in> run f n \<inter> taken_blocks m 0"
    then have "x \<notin> taken_blocks m flags" "int x \<in> rl_set fe"
      using sub ext(3) n(2) by blast+
    then have "ISSET flags HFS_ALLOC_IGNORE_TENTATIVE" "\<exists>e\<in>set ?t. int x \<in> rl_set e"
      using x ok(2) by (auto simp: taken_blocks_def reserved_blocks_def entry_blocks_def rl_set_def ISSET_def split: if_splits)
    then show False
      using fe(5) \<open>int x \<in> rl_set fe\<close> by blast
  qed
  have eq: "contig_cache j flags first found m False =
      (if n \<noteq> 0 \<and> (\<not> jnl m \<or> fst (CheckUnmappedBytes j m f n) \<noteq> noErr \<or> snd (CheckUnmappedBytes j m f n) = None)
       then (f, n, add_free_extent_cache m f n) else (f, n, False, m))"
    using a(1,2) unfolding contig_cache_def Let_def a_def [symmetric] by (simp add: fn fe_def)
  have fec: "fec_ok m" "fec_blocks m \<inter> taken_blocks m 0 = {}"
    using ok(1) by (simp_all add: search_ok_def)
  have "search_ok (snd (add_free_extent_cache m f n))" if "n \<noteq> 0"
  proof -
    let ?m = "snd (add_free_extent_cache m f n)"
    note o = add_free_extent_cache_only [of m f n]
    have "fec_ok ?m" "fec_blocks ?m \<subseteq> fec_blocks m \<union> run f n"
      using add_free_extent_cache_result [OF fec(1), of f n] bound [OF that] ext(2) al by (auto simp: fec_clip_def)
    then show ?thesis
      using ok(1) free fec(2) srch_only_same(1,2) [OF fec_only_srch [OF o]] summary_true_fec_only [OF o]
      unfolding search_ok_def by auto
  qed
  then show "\<not> updated" "fec_only m m'" "search_ok m'" "found' \<le> found"
    using r ok(1) n(1) add_free_extent_cache_False [of m f n] add_free_extent_cache_only [of m f n]
    unfolding eq by (auto split: if_splits)
qed

section \<open>The main loop\<close>

definition free_run :: "hfsmount \<Rightarrow> u32 \<Rightarrow> nat \<Rightarrow> nat \<Rightarrow> nat \<Rightarrow> HFSPlusExtentDescriptor \<Rightarrow> bool" where
  "free_run m flags start endb maxBlocks ext \<longleftrightarrow>
     start \<le> startBlock ext \<and> 0 < blockCount ext \<and> blockCount ext \<le> maxBlocks \<and> startBlock ext + blockCount ext \<le> endb \<and>
     run (startBlock ext) (blockCount ext) \<inter> taken_blocks m flags = {}"

text \<open>No run of \<open>n\<close> blocks that starts in the range is free.\<close>

definition no_run :: "hfsmount \<Rightarrow> nat \<Rightarrow> nat \<Rightarrow> nat \<Rightarrow> bool" where
  "no_run m n lo hi \<longleftrightarrow> (\<forall>x. lo \<le> x \<and> x < hi \<longrightarrow> run x n \<inter> taken_blocks m 0 \<noteq> {})"

lemma no_run_taken: "{lo..<hi} \<subseteq> taken_blocks m 0 \<Longrightarrow> 0 < n \<Longrightarrow> no_run m n lo hi"
  by (force simp: no_run_def run_def disjoint_iff)

lemma no_run_join: "no_run m n a b \<Longrightarrow> no_run m n b c \<Longrightarrow> no_run m n a c"
  by (auto simp: no_run_def) (meson not_le_imp_less)

lemma no_run_hit: "c \<in> taken_blocks m 0 \<Longrightarrow> c < lo + n \<Longrightarrow> no_run m n lo (Suc c)"
  by (auto simp: no_run_def run_def) (metis IntI add_less_mono1 atLeastLessThan_iff empty_iff le_less_trans linorder_not_less less_Suc_eq_le nat_less_le)

definition loop_result ::
  "(nat \<Rightarrow> hfs_err) \<Rightarrow> u32 \<Rightarrow> nat \<Rightarrow> nat \<Rightarrow> nat \<Rightarrow> nat \<Rightarrow> nat \<Rightarrow> nat \<Rightarrow> hfsmount \<Rightarrow>
   (nat \<times> nat \<times> HFSPlusExtentDescriptor \<times> bool \<times> hfsmount) contig_out \<Rightarrow> bool" where
  "loop_result bread flags start endb stop minBlocks maxBlocks b m r \<longleftrightarrow>
     (case r of
        ErrorExit err m' \<Rightarrow> srch_only m m' \<and> search_ok m' \<and> err \<noteq> noErr \<and> err \<in> range bread
      | LoopExit m' \<Rightarrow> False
      | Found (first, found, best, updated, m') \<Rightarrow> srch_only m m' \<and> search_ok m' \<and> \<not> updated \<and>
          (0 < blockCount best \<longrightarrow> free_run m flags start endb maxBlocks best) \<and>
          (\<not> ISSET flags HFS_ALLOC_TRY_HARD \<longrightarrow>
             (if minBlocks \<le> found then free_run m flags start endb maxBlocks (mk_extent first found) \<and> no_run m minBlocks b first
              else no_run m minBlocks b stop)))"

lemma loop_result_from:
  assumes "loop_result bread flags start endb stop minBlocks maxBlocks c m' r" "srch_only m m'"
    "\<not> ISSET flags HFS_ALLOC_TRY_HARD \<Longrightarrow> no_run m minBlocks b c"
  shows "loop_result bread flags start endb stop minBlocks maxBlocks b m r"
proof -
  note same = srch_only_same(2) [OF assms(2)]
  have "\<not> ISSET flags HFS_ALLOC_TRY_HARD \<Longrightarrow> no_run m' minBlocks c x \<Longrightarrow> no_run m minBlocks b x" for x
    using no_run_join [OF assms(3), of x] by (simp add: no_run_def same)
  moreover have "free_run m' flags start endb maxBlocks e = free_run m flags start endb maxBlocks e" for e
    by (simp add: free_run_def same)
  ultimately show ?thesis
    using assms(1) srch_only_trans [OF assms(2)] unfolding loop_result_def
    by (auto split: contig_out.splits prod.splits if_splits)
qed

text \<open>One free run, clipped to the range and to the number of blocks wanted.\<close>

lemma found_run:
  assumes u: "used_result bread flags endb maxBlocks first first m (Found (c, cur))" and first: "first \<notin> taken_blocks m flags" "first < endb"
    and mx: "0 < maxBlocks" "endb + 32 < 4294967296"
  defines "c2 \<equiv> if c > endb then endb else c"
  defines "n \<equiv> if sub32 c2 first > maxBlocks then maxBlocks else sub32 c2 first"
  shows "first < c2" "c2 \<le> endb" "sub32 c2 first = c2 - first" "n = min maxBlocks (c2 - first)"
    "start \<le> first \<Longrightarrow> free_run m flags start endb maxBlocks (mk_extent first n)"
    "n < maxBlocks \<Longrightarrow> c2 = endb \<or> c2 \<in> taken_blocks m flags" "c2 < endb \<Longrightarrow> pos_ok m flags c2 cur"
proof -
  have c: "first \<le> c" "{first..<c} \<inter> taken_blocks m flags = {}" "endb \<le> c \<or> c - first \<ge> maxBlocks \<or> c \<in> taken_blocks m flags"
    "c < endb \<longrightarrow> pos_ok m flags c cur"
    using u by (simp_all add: used_result_def)
  then show f: "first < c2" "c2 \<le> endb"
    using first mx(1) by (auto simp: c2_def order.order_iff_strict)
  then show sub: "sub32 c2 first = c2 - first"
    using mx(2) by (simp add: sub32_eq)
  then show n: "n = min maxBlocks (c2 - first)"
    by (auto simp: n_def)
  have "run first n \<subseteq> {first..<c}" "first + n \<le> endb" "0 < n"
    using f mx(1) unfolding n by (auto simp: run_def c2_def split: if_splits)
  then show "free_run m flags start endb maxBlocks (mk_extent first n)" if "start \<le> first"
    using that c(2) n by (auto simp: free_run_def)
  show "c2 = endb \<or> c2 \<in> taken_blocks m flags" if "n < maxBlocks"
    using that c(3) unfolding n by (auto simp: c2_def)
  show "pos_ok m flags c2 cur" if "c2 < endb"
    using that c(4) by (auto simp: c2_def split: if_splits)
qed

text \<open>When the clipped run is too short, no long enough run starts before its end.\<close>

lemma short_run:
  assumes "n < minBlocks" "minBlocks \<le> maxBlocks" "n = min maxBlocks (c2 - first)" "first < endb - minBlocks + 1" "minBlocks \<le> endb"
    "first < c2" "c2 = endb \<or> c2 \<in> taken_blocks m flags"
  shows "no_run m minBlocks first (Suc c2)"
proof (rule no_run_hit)
  have "c2 \<noteq> endb" "c2 - first < minBlocks"
    using assms(1-6) by auto
  then show "c2 \<in> taken_blocks m 0" "c2 < first + minBlocks"
    using assms(7) taken_blocks_mono [of m flags] by auto
qed

lemma contig_loop_spec:
  assumes "search_ok m" "\<not> ISSET flags HFS_ALLOC_IGNORE_RESERVED" "endb \<le> allocLimit m" "totalBlocks m + 32 < 4294967296"
    "stop = endb - minBlocks + 1" "0 < minBlocks" "minBlocks \<le> maxBlocks" "minBlocks \<le> endb" "start \<le> b" "b < stop"
    "pos_ok m flags b cur" "mz_clear m useMetaZone b" "0 < blockCount best \<longrightarrow> free_run m flags start endb maxBlocks best"
  shows "\<exists>r. contig_loop bread j flags useMetaZone trust endb stop minBlocks maxBlocks remaining firstBlock best False cur b m = Some r \<and>
    loop_result bread flags start endb stop minBlocks maxBlocks b m r"
  using assms
proof (induction "stop - b" arbitrary: b cur m best remaining firstBlock rule: less_induct)
  case less
  note ok = less.prems(1) and best = less.prems(13)
  note eq = contig_loop.simps [of bread j flags useMetaZone trust endb stop minBlocks maxBlocks remaining firstBlock best False cur b m]
  have vol: "volume_ok m" "summary_true m" "allocLimit m \<le> totalBlocks m"
    using ok by (simp_all add: search_ok_def volume_ok_def)
  have lim: "stop \<le> endb" "stop \<le> allocLimit m" "endb \<le> totalBlocks m" "endb + 32 < 4294967296"
    using less.prems(3-8) vol(3) by simp_all
  obtain r1 where r1: "contig_unused bread flags useMetaZone trust stop cur b m = Some r1" "unused_result bread flags stop b m r1"
    using contig_unused_spec [OF vol(1,2) less.prems(10) lim(2) less.prems(4,11,12), of bread trust] by blast
  show ?case
  proof (cases r1)
    case (ErrorExit err m')
    then show ?thesis
      unfolding eq r1(1) using r1(2) search_ok_sum_only [OF ok] sum_only_srch
      by (simp add: unused_result_def loop_result_def contig_sparse_def)
  next
    case (LoopExit m')
    then have "no_run m minBlocks b stop" "sum_only m m'" "summary_true m'"
      using r1(2) no_run_taken less.prems(6) by (simp_all add: unused_result_def)
    then show ?thesis
      unfolding eq r1(1) LoopExit using search_ok_sum_only [OF ok] sum_only_srch best less.prems(6)
      by (simp add: loop_result_def)
  next
    case (Found q)
    obtain first cur1 m1 where q: "q = (first, cur1, m1)"
      by (cases q)
    have only: "sum_only m m1" and "summary_true m1" and first: "b \<le> first" "{b..<first} \<subseteq> taken_blocks m 0"
      "first < stop \<longrightarrow> first \<notin> taken_blocks m flags \<and> pos_ok m flags first cur1"
      using r1(2) unfolding Found q by (auto simp: unused_result_def)
    have ok1: "search_ok m1"
      using search_ok_sum_only [OF ok only \<open>summary_true m1\<close>] .
    have so: "srch_only m m1"
      by (rule sum_only_srch [OF only])
    note s = srch_only_same [OF so]
    have nr: "no_run m minBlocks b first"
      using no_run_taken [OF first(2) less.prems(6)] .
    show ?thesis
    proof (cases "first < stop")
      case False
      then have "no_run m minBlocks b stop"
        using nr by (simp add: no_run_def)
      then show ?thesis
        unfolding eq r1(1) Found q using False so ok1 best less.prems(6) by (simp add: loop_result_def)
    next
      case True
      have fst1: "first < endb" "first \<notin> taken_blocks m1 flags" "pos_ok m1 flags first cur1" "mz_clear m1 useMetaZone first"
        using True lim(1) first(3) mz_clear_mono [OF less.prems(12) first(1)] s by simp_all
      obtain r2 where r2: "contig_used bread flags useMetaZone endb maxBlocks first cur1 m1 = Some r2"
        "used_result bread flags endb maxBlocks first first m1 r2"
        using contig_used_spec [of m1 first endb flags cur1 useMetaZone bread maxBlocks] vol(1) fst1 lim(3) less.prems(4) s by auto
      show ?thesis
      proof (cases r2)
        case (ErrorExit err m')
        then show ?thesis
          unfolding eq r1(1) Found q using True r2 ok1 so by (simp add: used_result_def loop_result_def contig_sparse_def)
      next
        case (LoopExit m')
        then show ?thesis
          using r2(2) by (simp add: used_result_def)
      next
        case f2: (Found p)
        obtain c cur2 where p: "p = (c, cur2)"
          by (cases p)
        define c2 where "c2 = (if c > endb then endb else c)"
        define n where "n = (if sub32 c2 first > maxBlocks then maxBlocks else sub32 c2 first)"
        have mx: "0 < maxBlocks"
          using less.prems(6,7) by simp
        note fr = found_run [OF r2(2) [unfolded f2 p] fst1(2,1) mx lim(4), folded c2_def, folded n_def]
        have run: "free_run m flags start endb maxBlocks (mk_extent first n)"
          using fr(5) [of start] less.prems(9) first(1) s(2) by (simp add: free_run_def)
        define best' where "best' = (if ISSET flags HFS_ALLOC_TRY_HARD \<and> n > blockCount best then mk_extent first n else best)"
        have best': "0 < blockCount best' \<longrightarrow> free_run m flags start endb maxBlocks best'"
          using best run by (simp add: best'_def)
        let ?stop = "if ISSET flags HFS_ALLOC_TRY_HARD
          then n \<ge> maxBlocks \<or> blockCount best' \<ge> contig_remaining remaining n else n \<ge> minBlocks"
        obtain first' found' updated m2 where cc: "contig_cache j flags first n m1 False = (first', found', updated, m2)"
          by (metis prod_cases4)
        have step: "contig_loop bread j flags useMetaZone trust endb stop minBlocks maxBlocks remaining firstBlock best False cur b m =
            (if ?stop then Some (Found (first, n, best', False, m1))
             else if c2 < stop then contig_loop bread j flags useMetaZone trust endb stop minBlocks maxBlocks
               (contig_remaining remaining n) first' best' updated cur2 c2 m2
             else Some (Found (first', found', best', updated, m2)))"
          unfolding eq r1(1) Found q f2 p Option.bind.bind_lunit contig_out.case prod.case r2(1) Let_def
            c2_def [symmetric] n_def [symmetric] best'_def [symmetric] cc
          using True by simp
        show ?thesis
        proof (cases ?stop)
          case stop: True
          have "loop_result bread flags start endb stop minBlocks maxBlocks b m (Found (first, n, best', False, m1))"
            using stop run best' nr so ok1 by (auto simp: loop_result_def)
          then show ?thesis
            unfolding step using stop by auto
        next
          case more: False
          have ne: "0 < n" "first + n \<le> allocLimit m1" "{first..<first + n} \<inter> taken_blocks m1 flags = {}"
            using run less.prems(3) s(2,3) by (auto simp: free_run_def run_def)
          note cs = contig_cache_spec [OF ok1 less.prems(2) ne cc]
          have so2: "srch_only m m2"
            using srch_only_trans [OF so fec_only_srch [OF cs(2)]] .
          note s2 = srch_only_same [OF so2]
          have nr2: "\<not> ISSET flags HFS_ALLOC_TRY_HARD \<Longrightarrow> no_run m minBlocks b (Suc c2)"
            using no_run_join [OF nr] short_run [of n minBlocks maxBlocks c2 first endb m flags] more fr(1,4,6) True less.prems(5,7,8) s(2)
            by auto
          show ?thesis
          proof (cases "c2 < stop")
            case end': False
            have "found' < minBlocks" if "\<not> ISSET flags HFS_ALLOC_TRY_HARD"
              using more that cs(4) by simp
            moreover have "no_run m minBlocks b stop" if "\<not> ISSET flags HFS_ALLOC_TRY_HARD"
              using nr2 [OF that] end' by (simp add: no_run_def)
            ultimately have "loop_result bread flags start endb stop minBlocks maxBlocks b m (Found (first', found', best', updated, m2))"
              using best' so2 cs(1,3) by (auto simp: loop_result_def)
            then show ?thesis
              unfolding step using more end' by auto
          next
            case again: True
            have "\<exists>r. contig_loop bread j flags useMetaZone trust endb stop minBlocks maxBlocks (contig_remaining remaining n)
                first' best' False cur2 c2 m2 = Some r \<and> loop_result bread flags start endb stop minBlocks maxBlocks c2 m2 r"
            proof (rule less.hyps [OF _ cs(3) less.prems(2)])
              show "stop - c2 < stop - b" "endb \<le> allocLimit m2" "totalBlocks m2 + 32 < 4294967296" "start \<le> c2" "c2 < stop"
                using again fr(1) first(1) less.prems(3,4,9) s2 by simp_all
              show "pos_ok m2 flags c2 cur2" "mz_clear m2 useMetaZone c2"
                using fr(1,7) again lim(1) first(1) s s2 mz_clear_mono [OF less.prems(12), of c2] by simp_all
              show "0 < blockCount best' \<longrightarrow> free_run m2 flags start endb maxBlocks best'"
                using best' s2(2) by (simp add: free_run_def)
            qed (use less.prems in simp_all)
            moreover have "\<not> ISSET flags HFS_ALLOC_TRY_HARD \<Longrightarrow> no_run m minBlocks b c2"
              using nr2 by (simp add: no_run_def)
            ultimately show ?thesis
              unfolding step using more again cs(1) loop_result_from [OF _ so2] by auto
          qed
        qed
      qed
    qed
  qed
qed

section \<open>The whole search\<close>

definition contiguous_result ::
  "(nat \<Rightarrow> hfs_err) \<Rightarrow> hfsmount \<Rightarrow> nat \<Rightarrow> nat \<Rightarrow> nat \<Rightarrow> nat \<Rightarrow> bool \<Rightarrow> u32 \<Rightarrow> hfs_err \<times> HFSPlusExtentDescriptor \<times> hfsmount \<Rightarrow> bool" where
  "contiguous_result bread m start endb minBlocks maxBlocks useMetaZone flags r \<longleftrightarrow>
     (case r of (err, ext, m') \<Rightarrow> srch_only m m' \<and> search_ok m' \<and>
        (err = noErr \<and> free_run m flags start endb maxBlocks ext \<and> minBlocks \<le> blockCount ext \<and>
           (\<not> useMetaZone \<and> ISSET (hfs_flags m) HFS_METADATA_ZONE \<longrightarrow> hfs_metazone_end m < startBlock ext) \<and>
           (\<not> ISSET flags HFS_ALLOC_TRY_HARD \<longrightarrow>
              (\<forall>start'. skip_metazone m useMetaZone start endb = Some start' \<longrightarrow> no_run m minBlocks start' (startBlock ext))) \<or>
         err = dskFulErr \<and> ext = mk_extent 0 0 \<and> (\<not> ISSET flags HFS_ALLOC_TRY_HARD \<longrightarrow>
           (\<forall>start'. skip_metazone m useMetaZone start endb = Some start' \<longrightarrow> no_run m minBlocks start' (Suc endb - minBlocks))) \<or>
         err \<noteq> noErr \<and> ext = mk_extent 0 0 \<and> err \<in> range bread))"

lemma skip_metazone_clear:
  assumes "volume_ok m" "skip_metazone m useMetaZone start endb = Some start'"
  shows "start \<le> start'" "mz_clear m useMetaZone start'"
    "\<not> useMetaZone \<and> ISSET (hfs_flags m) HFS_METADATA_ZONE \<longrightarrow> hfs_metazone_end m < start'"
    "start \<le> endb \<Longrightarrow> start' \<le> endb"
proof -
  define flags where "flags = (if useMetaZone then HFS_ALLOC_METAZONE else 0)"
  have f: "ISSET flags HFS_ALLOC_METAZONE = useMetaZone"
    by (simp add: flags_def ISSET_def HFS_ALLOC_METAZONE_def)
  note k = skip_metazone_spec [OF assms(1), of flags start endb start', unfolded f, OF assms(2)]
  show "start \<le> start'" "mz_clear m useMetaZone start'" "start \<le> endb \<Longrightarrow> start' \<le> endb"
    "\<not> useMetaZone \<and> ISSET (hfs_flags m) HFS_METADATA_ZONE \<longrightarrow> hfs_metazone_end m < start'"
    using k(1-4) f by (auto simp: mz_clear_def no_gap_def)
qed

lemma contig_cursor_pos:
  assumes "bitmap_ok m" "reservations_ok m" "b < 32 * length (vcbBitmap m)" "ReadBitmapBlock bread m b flags = Inr (ref, buf)"
  shows "pos_ok m flags b (contig_cursor m b ref buf)"
proof -
  have "contig_cursor m b ref buf = cursor_at m b ref buf"
    using bitmap_okD(6,7) [OF assms(1)] by (simp add: contig_cursor_def cursor_at_def Let_def mod_mult2_eq)
  then show ?thesis
    using bit_pos [OF bit_at_fresh [OF assms]] by simp
qed

lemma contig_exit_result:
  assumes ok: "search_ok m" "endb \<le> allocLimit m" "0 < minBlocks" "minBlocks \<le> endb"
    and skip: "skip_metazone m useMetaZone start endb = Some start'"
    and r: "loop_result bread flags start' endb (endb - minBlocks + 1) minBlocks maxBlocks b m r"
    and nr: "no_run m minBlocks start' b"
  shows "contiguous_result bread m start endb minBlocks maxBlocks useMetaZone flags (contig_exit flags minBlocks r)"
proof (cases r)
  case (ErrorExit err m')
  then show ?thesis
    using r by (simp add: loop_result_def contig_exit_def contiguous_result_def)
next
  case (LoopExit m')
  then show ?thesis
    using r by (simp add: loop_result_def)
next
  case (Found q)
  have vol: "volume_ok m" "allocLimit m < 4294967296"
    using ok(1) by (auto simp: search_ok_def fec_ok_def)
  note k = skip_metazone_clear [OF vol(1) skip]
  obtain first found best updated m' where q: "q = (first, found, best, updated, m')"
    by (cases q)
  let ?hard = "ISSET flags HFS_ALLOC_TRY_HARD"
  define ext where "ext = (if ?hard then best else mk_extent first found)"
  have m': "srch_only m m'" "search_ok m'" "\<not> updated"
    using r unfolding Found q by (simp_all add: loop_result_def)
  have stop: "Suc endb - minBlocks = endb - minBlocks + 1"
    using ok(4) by simp
  have fr: "free_run m flags start' endb maxBlocks ext" if "minBlocks \<le> blockCount ext"
    using r that ok(3) unfolding Found q by (auto simp: loop_result_def ext_def split: if_splits)
  have first: "no_run m minBlocks start' (if minBlocks \<le> blockCount ext then startBlock ext else Suc endb - minBlocks)" if "\<not> ?hard"
    using r that no_run_join [OF nr] unfolding Found q stop by (auto simp: loop_result_def ext_def split: if_splits)
  have "contig_exit flags minBlocks r =
      (if blockCount ext < minBlocks then (dskFulErr, mk_extent 0 0, m') else (noErr, ext, m'))"
  proof -
    have "startBlock ext + blockCount ext \<le> allocLimit m" if "minBlocks \<le> blockCount ext"
      using fr [OF that] ok(2) by (simp add: free_run_def)
    then have "minBlocks \<le> blockCount ext \<longrightarrow> \<not> add32 (startBlock ext) (blockCount ext) > allocLimit m'"
      using vol(2) srch_only_same(3) [OF m'(1)] by (auto simp: add32_eq)
    moreover have "mk_extent (startBlock ext) (blockCount ext) = ext"
      by (simp add: mk_extent_def)
    ultimately show ?thesis
      using m'(3) unfolding Found q ext_def contig_exit_def by (auto simp: contig_sparse_def Let_def not_less split: if_splits)
  qed
  moreover have "free_run m flags start endb maxBlocks ext" if "free_run m flags start' endb maxBlocks ext"
    using that k(1) by (simp add: free_run_def)
  moreover have "hfs_metazone_end m < startBlock ext" if "free_run m flags start' endb maxBlocks ext" "hfs_metazone_end m < start'"
    using that by (simp add: free_run_def)
  ultimately show ?thesis
    using fr first m' skip k(3) by (auto simp: contiguous_result_def split: if_splits)
qed

lemma BlockFindContiguous_spec:
  assumes ok: "search_ok m" "\<not> ISSET flags HFS_ALLOC_IGNORE_RESERVED" and lim: "endb \<le> allocLimit m" "totalBlocks m + 32 < 4294967296"
    and n: "0 < minBlocks" "minBlocks \<le> maxBlocks" "start \<le> endb"
  shows "\<exists>r. BlockFindContiguous bread j m start endb minBlocks maxBlocks useMetaZone trust flags = Some r \<and>
    contiguous_result bread m start endb minBlocks maxBlocks useMetaZone flags r"
proof (cases "skip_metazone m useMetaZone start endb")
  case None
  then show ?thesis
    using ok(1) by (simp add: BlockFindContiguous_def contiguous_result_def)
next
  case (Some start')
  have vol: "volume_ok m" "summary_true m" "bitmap_ok m" "reservations_ok m" "allocLimit m \<le> totalBlocks m"
    using ok(1) by (simp_all add: search_ok_def volume_ok_def)
  note k = skip_metazone_clear [OF vol(1) Some]
  have sub: "sub32 endb start' = endb - start'"
    using k(4) n(3) lim vol(5) by (simp add: sub32_eq)
  note eq = BlockFindContiguous_def [of bread j m start endb minBlocks maxBlocks useMetaZone trust flags, unfolded Some option.case sub]
  show ?thesis
  proof (cases "endb - start' < minBlocks")
    case True
    then have "no_run m minBlocks start' (Suc endb - minBlocks)"
      by (auto simp: no_run_def)
    then show ?thesis
      unfolding eq using True ok(1) Some by (simp add: contiguous_result_def)
  next
    case False
    have e: "minBlocks \<le> endb" "start' < endb - minBlocks + 1" "start' < totalBlocks m"
      using False n(1) lim(1) vol(5) by simp_all
    have stop: "add32 (sub32 endb minBlocks) 1 = endb - minBlocks + 1"
      using e(1) n(1) lim vol(5) by (simp add: sub32_eq add32_eq)
    have nb: "(if useMetaZone then start' else NextBitmapBlock m start') = start'"
      using k(2) by (auto simp: mz_clear_def)
    obtain err c where ec: "(if trust \<and> hfs_has_summary m then hfs_find_summary_free m start' 0 else (noErr, start')) = (err, c)"
      by fastforce
    have sug: "err = noErr \<and> start' \<le> c \<and> {start'..<c} \<subseteq> taken_blocks m 0 \<and> (\<not> (trust \<and> hfs_has_summary m) \<longrightarrow> c = start') \<or>
        trust \<and> hfs_has_summary m \<and> err = ENOSPC \<and> {start'..<allocLimit m} \<subseteq> taken_blocks m 0"
      using summary_skip [OF vol(1,2) _ e(3), of err c] ec by (auto split: if_splits)
    show ?thesis
    proof (cases "trust \<and> hfs_has_summary m \<and> (err = ENOSPC \<or> c \<ge> endb - minBlocks + 1)")
      case True
      then have "{start'..<Suc endb - minBlocks} \<subseteq> taken_blocks m 0"
        using sug lim(1) n(1) e(1) by (auto simp: subset_iff)
      then have "no_run m minBlocks start' (Suc endb - minBlocks)"
        by (rule no_run_taken [OF _ n(1)])
      then show ?thesis
        unfolding eq stop nb Let_def ec using False True sug Some ok(1) by (auto simp: contiguous_result_def)
    next
      case go: False
      then have c: "err = noErr" "start' \<le> c" "c < endb - minBlocks + 1" "no_run m minBlocks start' c"
        using sug e(2) no_run_taken [OF _ n(1)] by auto
      show ?thesis
      proof (cases "ReadBitmapBlock bread m c flags")
        case (Inl e')
        then show ?thesis
          unfolding eq stop nb Let_def ec using False go c(1) ok(1) Read_err [OF Inl] by (auto simp: contiguous_result_def)
      next
        case (Inr q)
        obtain ref buf where q: "q = (ref, buf)"
          by fastforce
        have "c < 32 * length (vcbBitmap m)"
          using c(3) e(1) n(1) lim(1) vol(3,5) unfolding bitmap_ok_def by linarith
        note pos = contig_cursor_pos [OF vol(3,4) this Inr [unfolded q]]
        obtain r where r: "contig_loop bread j flags useMetaZone trust endb (endb - minBlocks + 1) minBlocks maxBlocks
            (sub32 (sub32 (freeBlocks m) (lockedBlocks m)) (if ISSET flags HFS_ALLOC_IGNORE_TENTATIVE then 0 else tentativeBlocks m))
            0 (mk_extent 0 0) False (contig_cursor m c ref buf) c m = Some r"
          "loop_result bread flags start' endb (endb - minBlocks + 1) minBlocks maxBlocks c m r"
          using contig_loop_spec [OF ok lim refl n(1,2) e(1) c(2,3) pos mz_clear_mono [OF k(2) c(2)], of "mk_extent 0 0"] by fastforce
        have "BlockFindContiguous bread j m start endb minBlocks maxBlocks useMetaZone trust flags = Some (contig_exit flags minBlocks r)"
          unfolding eq stop nb Let_def ec using False go c(1) Inr q r(1) by auto
        then show ?thesis
          using contig_exit_result [OF ok(1) lim(1) n(1) e(1) Some r(2) c(4)] by blast
      qed
    qed
  qed
qed

section \<open>Rounds\<close>

definition contig_good :: "hfsmount \<Rightarrow> u32 \<Rightarrow> nat \<Rightarrow> nat \<Rightarrow> nat \<Rightarrow> nat \<Rightarrow> HFSPlusExtentDescriptor \<Rightarrow> bool" where
  "contig_good m flags lo hi minBlocks maxBlocks ext \<longleftrightarrow> free_run m flags lo hi maxBlocks ext \<and> minBlocks \<le> blockCount ext \<and>
     (\<not> ISSET flags HFS_ALLOC_METAZONE \<and> ISSET (hfs_flags m) HFS_METADATA_ZONE \<longrightarrow> hfs_metazone_end m < startBlock ext)"

text \<open>The searches of the rounds respect all reservations and take the first run that is long enough.\<close>

definition plain_search :: "u32 \<Rightarrow> bool" where
  "plain_search flags \<longleftrightarrow> \<not> ISSET flags HFS_ALLOC_IGNORE_RESERVED \<and> \<not> ISSET flags HFS_ALLOC_IGNORE_TENTATIVE \<and>
     \<not> ISSET flags HFS_ALLOC_TRY_HARD"

lemma plain_search_taken: "plain_search flags \<Longrightarrow> taken_blocks m flags = taken_blocks m 0"
  by (simp add: plain_search_def taken_blocks_def reserved_blocks_def ISSET_def)

abbreviation metazone_ok :: "u32 \<Rightarrow> bool" where
  "metazone_ok flags \<equiv> ISSET flags HFS_ALLOC_METAZONE"

lemma skip_metazone_before:
  assumes "volume_ok m" "skip_metazone m (metazone_ok flags) lo hi = Some lo'" "lo \<le> startBlock a"
    "contig_good m flags lo0 hi0 minBlocks maxBlocks a"
  shows "lo' \<le> startBlock a"
  using assms
  by (auto simp: skip_metazone_def contig_good_def volume_ok_def add32_eq split: if_splits)

lemma no_run_good:
  assumes "no_run m minBlocks lo hi" "contig_good m flags lo0 hi0 minBlocks maxBlocks a" "plain_search flags" "lo \<le> startBlock a"
  shows "hi \<le> startBlock a"
proof (rule ccontr)
  assume "\<not> hi \<le> startBlock a"
  then have "run (startBlock a) minBlocks \<inter> taken_blocks m flags \<noteq> {}"
    using assms(1,4) plain_search_taken [OF assms(3)] by (simp add: no_run_def)
  moreover have "run (startBlock a) minBlocks \<subseteq> run (startBlock a) (blockCount a)"
    using assms(2) by (auto simp: contig_good_def run_def)
  ultimately show False
    using assms(2) by (auto simp: contig_good_def free_run_def)
qed

lemma contiguous_first_fit:
  assumes "volume_ok m" "plain_search flags" "contig_good m flags lo0 hi0 minBlocks maxBlocks a" "lo \<le> startBlock a"
    "contiguous_result bread m lo hi minBlocks maxBlocks (metazone_ok flags) flags (noErr, e, m')"
    "skip_metazone m (metazone_ok flags) lo hi \<noteq> None"
  shows "startBlock e \<le> startBlock a"
proof -
  obtain lo' where k: "skip_metazone m (metazone_ok flags) lo hi = Some lo'"
    using assms(6) by auto
  have "no_run m minBlocks lo' (startBlock e)"
    using assms(2,5) k by (auto simp: contiguous_result_def plain_search_def)
  then show ?thesis
    using no_run_good [OF _ assms(3,2) skip_metazone_before [OF assms(1) k assms(4,3)]] by simp
qed

lemma contiguous_found_skip:
  "BlockFindContiguous bread j m start endb minBlocks maxBlocks useMetaZone trust flags = Some (noErr, ext, m') \<Longrightarrow>
   skip_metazone m useMetaZone start endb \<noteq> None"
  by (cases "skip_metazone m useMetaZone start endb") (simp_all add: BlockFindContiguous_def)

definition round_result ::
  "(nat \<Rightarrow> hfs_err) \<Rightarrow> hfsmount \<Rightarrow> nat \<Rightarrow> nat \<Rightarrow> nat \<Rightarrow> u32 \<Rightarrow> hfs_err \<times> HFSPlusExtentDescriptor \<times> hfsmount \<Rightarrow> bool" where
  "round_result bread m s minBlocks maxBlocks flags r \<longleftrightarrow>
     (case r of (err, ext, m') \<Rightarrow> srch_only m m' \<and> search_ok m' \<and> (err = noErr \<or> err = dskFulErr \<or> err \<in> range bread) \<and>
        (err = noErr \<longrightarrow> contig_good m flags 0 (allocLimit m) minBlocks maxBlocks ext \<and> (0 < s \<longrightarrow> 0 < startBlock ext) \<and>
           (\<forall>a. contig_good m flags 0 (allocLimit m) minBlocks maxBlocks a \<and> 0 < startBlock a \<longrightarrow>
              (if s \<le> startBlock a then s \<le> startBlock ext \<and> startBlock ext \<le> startBlock a
               else s \<le> startBlock ext \<or> startBlock ext < startBlock a + blockCount a))))"

lemma contig_good_from:
  assumes "contiguous_result bread m lo hi minBlocks maxBlocks (metazone_ok flags) flags (noErr, e, m')" "hi \<le> allocLimit m"
  shows "contig_good m flags lo hi minBlocks maxBlocks e" "contig_good m flags 0 (allocLimit m) minBlocks maxBlocks e"
  using assms by (auto simp: contiguous_result_def contig_good_def free_run_def)

lemma round_first:
  assumes ok: "search_ok m" "plain_search flags"
    and r: "contiguous_result bread m s (allocLimit m) minBlocks maxBlocks (metazone_ok flags) flags (err, ext, m1)"
    and skip: "err = noErr \<Longrightarrow> skip_metazone m (metazone_ok flags) s (allocLimit m) \<noteq> None"
  shows "round_result bread m s minBlocks maxBlocks flags (err, ext, m1)"
proof (cases "err = noErr")
  case True
  note r' = r [unfolded True]
  have vol: "volume_ok m"
    using ok(1) by (simp add: search_ok_def)
  note g = contig_good_from [OF r' order_refl]
  have "startBlock ext \<le> startBlock a" if "contig_good m flags 0 (allocLimit m) minBlocks maxBlocks a" "s \<le> startBlock a" for a
    using contiguous_first_fit [OF vol ok(2) that r' skip [OF True]] .
  moreover have "s \<le> startBlock ext"
    using g(1) by (simp add: contig_good_def free_run_def)
  ultimately show ?thesis
    using r' g(2) by (auto simp: round_result_def contiguous_result_def True)
next
  case False
  then show ?thesis
    using r by (auto simp: round_result_def contiguous_result_def)
qed

lemma round_wrap:
  assumes ok: "search_ok m" "plain_search flags" and so: "srch_only m m1" "search_ok m1"
    and s: "0 < s" "e \<le> allocLimit m"
    and full: "\<And>s'. skip_metazone m (metazone_ok flags) s (allocLimit m) = Some s' \<Longrightarrow> no_run m minBlocks s' (Suc (allocLimit m) - minBlocks)"
    and r: "contiguous_result bread m1 1 e minBlocks maxBlocks (metazone_ok flags) flags (err, ext, m2)"
    and skip: "err = noErr \<Longrightarrow> skip_metazone m1 (metazone_ok flags) 1 e \<noteq> None"
  shows "round_result bread m s minBlocks maxBlocks flags (err, ext, m2)"
proof (cases "err = noErr")
  case True
  note same = srch_only_same [OF so(1)] and r' = r [unfolded True]
  have vol: "volume_ok m" "volume_ok m1"
    using ok(1) so(2) by (simp_all add: search_ok_def)
  have cg: "contig_good m1 flags lo hi n x = contig_good m flags lo hi n x" for lo hi n x
    by (simp add: contig_good_def free_run_def same fun_eq_iff)
  note g = contig_good_from [OF r', unfolded same, OF s(2), unfolded cg]
  have fit: "startBlock ext \<le> startBlock a"
    if "contig_good m flags 0 (allocLimit m) minBlocks maxBlocks a" "0 < startBlock a" for a
    using contiguous_first_fit [OF vol(2) ok(2) _ _ r' skip [OF True], unfolded cg, OF that(1)] that(2) by simp
  have after: "\<not> s \<le> startBlock a" if a: "contig_good m flags 0 (allocLimit m) minBlocks maxBlocks a" "0 < startBlock a" for a
  proof
    assume le: "s \<le> startBlock a"
    have "skip_metazone m (metazone_ok flags) s (allocLimit m) \<noteq> None"
      using skip [OF True] s(1,2) unfolding same by (auto simp: skip_metazone_def split: if_splits)
    then obtain s' where s': "skip_metazone m (metazone_ok flags) s (allocLimit m) = Some s'"
      by blast
    have "Suc (allocLimit m) - minBlocks \<le> startBlock a"
      using no_run_good [OF full [OF s'] a(1) ok(2) skip_metazone_before [OF vol(1) s' le a(1)]] .
    then show False
      using a(1) by (auto simp: contig_good_def free_run_def)
  qed
  have "startBlock ext < startBlock a + blockCount a" if "contig_good m flags 0 (allocLimit m) minBlocks maxBlocks a" "0 < startBlock a" for a
    using fit [OF that] that(1) by (auto simp: contig_good_def free_run_def)
  moreover have "0 < startBlock ext"
    using g(1) by (auto simp: contig_good_def free_run_def)
  ultimately show ?thesis
    using r' g(2) after srch_only_trans [OF so(1)] by (auto simp: round_result_def contiguous_result_def True)
next
  case False
  then show ?thesis
    using r srch_only_trans [OF so(1)] by (auto simp: round_result_def contiguous_result_def)
qed

lemma contig_round_spec:
  assumes ok: "search_ok m" "plain_search flags" and lim: "totalBlocks m + 32 < 4294967296" "s \<le> allocLimit m"
    and n: "0 < minBlocks" "minBlocks \<le> maxBlocks" "dskFulErr \<notin> range bread"
  shows "\<exists>r. contig_round bread j m s minBlocks maxBlocks flags = Some r \<and> round_result bread m s minBlocks maxBlocks flags r"
proof -
  have vol: "volume_ok m"
    using ok(1) by (simp add: search_ok_def)
  have ig: "\<not> ISSET flags HFS_ALLOC_IGNORE_RESERVED" and hard: "\<not> ISSET flags HFS_ALLOC_TRY_HARD"
    using ok(2) by (auto simp: plain_search_def)
  obtain err ext m1 where r1: "BlockFindContiguous bread j m s (allocLimit m) minBlocks maxBlocks (metazone_ok flags) True flags = Some (err, ext, m1)"
    "contiguous_result bread m s (allocLimit m) minBlocks maxBlocks (metazone_ok flags) flags (err, ext, m1)"
    using BlockFindContiguous_spec [OF ok(1) ig order_refl lim(1) n(1,2) lim(2)] by (metis prod_cases3)
  have so1: "srch_only m m1" "search_ok m1"
    using r1(2) by (simp_all add: contiguous_result_def)
  show ?thesis
  proof (cases "err = dskFulErr \<and> s \<noteq> 0")
    case False
    have "round_result bread m s minBlocks maxBlocks flags (err, ext, m1)"
      using round_first [OF ok r1(2) contiguous_found_skip] r1(1) by blast
    then show ?thesis
      using False r1(1) by (auto simp: contig_round_def)
  next
    case True
    note s = srch_only_same [OF so1(1)]
    define e where "e = (if ISSET (hfs_flags m1) HFS_SUMMARY_TABLE then allocLimit m1 else s)"
    have e: "e \<le> allocLimit m1" "1 \<le> e"
      using True lim(2) s by (auto simp: e_def)
    obtain err2 ext2 m2 where r2: "BlockFindContiguous bread j m1 1 e minBlocks maxBlocks (metazone_ok flags) False flags = Some (err2, ext2, m2)"
      "contiguous_result bread m1 1 e minBlocks maxBlocks (metazone_ok flags) flags (err2, ext2, m2)"
      using BlockFindContiguous_spec [OF so1(2) ig e(1) _ n(1,2) e(2)] lim(1) s by (metis prod_cases3)
    have none: "skip_metazone m (metazone_ok flags) s (allocLimit m) = None \<or> no_run m minBlocks s' (Suc (allocLimit m) - minBlocks)"
      if "skip_metazone m (metazone_ok flags) s (allocLimit m) = Some s'" for s'
      using that r1(2) True hard n(3) by (auto simp: contiguous_result_def)
    have "round_result bread m s minBlocks maxBlocks flags (err2, ext2, m2)"
    proof (rule round_wrap [OF ok so1])
      show "no_run m minBlocks s' (Suc (allocLimit m) - minBlocks)"
        if "skip_metazone m (metazone_ok flags) s (allocLimit m) = Some s'" for s'
        using none [OF that] that by simp
      show "skip_metazone m1 (metazone_ok flags) 1 e \<noteq> None" if "err2 = noErr"
        using contiguous_found_skip r2(1) that by blast
    qed (use True r2 e s in simp_all)
    then show ?thesis
      using True r1(1) r2(1) by (auto simp: contig_round_def e_def)
  qed
qed

definition contig_result ::
  "(nat \<Rightarrow> hfs_err) \<Rightarrow> journal \<Rightarrow> hfsmount \<Rightarrow> nat \<Rightarrow> nat \<Rightarrow> u32 \<Rightarrow> hfs_err \<times> HFSPlusExtentDescriptor \<times> hfsmount \<Rightarrow> bool" where
  "contig_result bread j m minBlocks maxBlocks flags r \<longleftrightarrow>
     (case r of (err, ext, m') \<Rightarrow> srch_only m m' \<and> search_ok m' \<and> (err = noErr \<or> err = dskFulErr \<or> err \<in> range bread) \<and>
        (err = noErr \<longrightarrow> contig_good m flags 0 (allocLimit m) minBlocks maxBlocks ext \<and>
           run (startBlock ext) (blockCount ext) \<inter> avoided_blocks j m flags = {}))"

lemma contig_good_srch_only:
  assumes "srch_only m m'"
  shows "contig_good m' flags = contig_good m flags" "avoided_blocks j m' flags = avoided_blocks j m flags"
  using srch_only_same [OF assms] by (simp_all add: contig_good_def free_run_def avoided_blocks_def fun_eq_iff)

lemma contig_result_from:
  "contig_result bread j m1 minBlocks maxBlocks flags r \<Longrightarrow> srch_only m m1 \<Longrightarrow> contig_result bread j m minBlocks maxBlocks flags r"
  using contig_good_srch_only [of m m1] srch_only_same(3) [of m m1] srch_only_trans [of m m1]
  by (auto simp: contig_result_def)

text \<open>How one round ends: with a result, or with a new start behind a pending trim.\<close>

lemma contig_rounds_step:
  assumes ok: "search_ok m" "trims_ok j m" "plain_search flags" and lim: "totalBlocks m + 32 < 4294967296" "s \<le> allocLimit m"
    and n: "0 < minBlocks" "minBlocks \<le> maxBlocks" "dskFulErr \<notin> range bread"
    and a: "0 < startBlock a \<Longrightarrow> contig_good m flags 0 (allocLimit m) minBlocks maxBlocks a"
  obtains (final) r where "contig_rounds bread j m s minBlocks maxBlocks flags (startBlock a) (blockCount a) = Some r"
      "contig_result bread j m minBlocks maxBlocks flags r"
  | (again) ext m1 s' where "srch_only m m1" "search_ok m1" "round_result bread m s minBlocks maxBlocks flags (noErr, ext, m1)"
      "startBlock ext < s'" "s' \<le> startBlock ext + blockCount ext" "s' \<le> allocLimit m"
      "0 < startBlock a \<longrightarrow> startBlock ext + blockCount ext \<le> startBlock a \<or> startBlock a + blockCount a \<le> startBlock ext"
      "contig_rounds bread j m s minBlocks maxBlocks flags (startBlock a) (blockCount a) =
       (if startBlock a = 0 then contig_rounds bread j m1 s' minBlocks maxBlocks flags (startBlock ext) (blockCount ext)
        else contig_rounds bread j m1 s' minBlocks maxBlocks flags (startBlock a) (blockCount a))"
proof -
  note eq = contig_rounds.simps [of bread j m s minBlocks maxBlocks flags "startBlock a" "blockCount a"]
  obtain err ext m1 where r: "contig_round bread j m s minBlocks maxBlocks flags = Some (err, ext, m1)"
    "round_result bread m s minBlocks maxBlocks flags (err, ext, m1)"
    using contig_round_spec [OF ok(1,3) lim n] by (metis prod_cases3)
  have so: "srch_only m m1" "search_ok m1"
    using r(2) by (simp_all add: round_result_def)
  note same = srch_only_same [OF so(1)]
  have vol: "volume_ok m" "allocLimit m \<le> totalBlocks m" "totalBlocks m < 4294967296"
    using ok(1) by (auto simp: search_ok_def volume_ok_def)
  show thesis
  proof (cases "err = noErr")
    case False
    show thesis
    proof (rule final)
      show "contig_rounds bread j m s minBlocks maxBlocks flags (startBlock a) (blockCount a) = Some (err, ext, m1)"
        unfolding eq r(1) using False by simp
      show "contig_result bread j m minBlocks maxBlocks flags (err, ext, m1)"
        using r(2) False by (simp add: contig_result_def round_result_def)
    qed
  next
    case True
    have good: "contig_good m flags 0 (allocLimit m) minBlocks maxBlocks ext"
      using r(2) True by (simp add: round_result_def)
    then have ext: "0 < blockCount ext" "startBlock ext + blockCount ext \<le> allocLimit m"
      by (simp_all add: contig_good_def free_run_def)
    have ov: "0 < startBlock a \<Longrightarrow> extents_overlap (startBlock ext) (blockCount ext) (startBlock a) (blockCount a) \<longleftrightarrow>
        \<not> (startBlock ext + blockCount ext \<le> startBlock a \<or> startBlock a + blockCount a \<le> startBlock ext)"
      using a ext(2) vol by (auto simp: extents_overlap_def contig_good_def free_run_def add32_eq)
    show thesis
    proof (cases "startBlock a \<noteq> 0 \<and> extents_overlap (startBlock ext) (blockCount ext) (startBlock a) (blockCount a)")
      case hit: True
      define r' where "r' = (if ISSET flags HFS_ALLOC_FLUSHTXN then (noErr, a, m1) else (dskFulErr, ext, m1))"
      have "mk_extent (startBlock a) (blockCount a) = a"
        by (simp add: mk_extent_def)
      then have "contig_rounds bread j m s minBlocks maxBlocks flags (startBlock a) (blockCount a) = Some r'"
        unfolding eq r(1) r'_def using True hit by simp
      moreover have "contig_result bread j m minBlocks maxBlocks flags r'"
        using hit a so by (auto simp: r'_def contig_result_def avoided_blocks_def)
      ultimately show thesis
        by (rule final)
    next
      case miss: False
      define chk where "chk = CheckUnmappedBytes j m1 (startBlock ext) (blockCount ext)"
      have chk: "fst chk = noErr" "case snd chk of None \<Rightarrow> run (startBlock ext) (blockCount ext) \<inter> pending_blocks j m = {}
          | Some c \<Rightarrow> startBlock ext < c \<and> c \<le> startBlock ext + blockCount ext \<and> c - 1 \<in> pending_blocks j m"
        using CheckUnmappedBytes_spec [of m1 j "blockCount ext" "startBlock ext", unfolded same(1,4,8,9)] vol ok(2) ext
        by (simp_all add: chk_def split_beta)
      have step: "contig_rounds bread j m s minBlocks maxBlocks flags (startBlock a) (blockCount a) =
          (case (if jnl m1 then snd chk else None) of
             Some nextStart \<Rightarrow>
               if startBlock a = 0
               then contig_rounds bread j m1 nextStart minBlocks maxBlocks flags (startBlock ext) (blockCount ext)
               else contig_rounds bread j m1 nextStart minBlocks maxBlocks flags (startBlock a) (blockCount a)
           | None \<Rightarrow> Some (noErr, ext, m1))"
        unfolding eq r(1) using True miss chk(1) ext(1) by (auto simp: chk_def [symmetric] split: option.splits)
      show thesis
      proof (cases "if jnl m1 then snd chk else None")
        case None
        then have "run (startBlock ext) (blockCount ext) \<inter> pending_blocks j m = {}"
          using chk(2) same(10) by (auto simp: pending_blocks_def split: if_splits)
        then have "contig_result bread j m minBlocks maxBlocks flags (noErr, ext, m1)"
          using so good by (auto simp: contig_result_def avoided_blocks_def)
        then show thesis
          using final step None by simp
      next
        case (Some c)
        then have "startBlock ext < c" "c \<le> startBlock ext + blockCount ext"
          using chk(2) by (auto split: if_splits)
        then show thesis
          using again [OF so] r(2) True ov miss step Some ext(2) by auto
      qed
    qed
  qed
qed

text \<open>
  After the first run with a pending trim, \<open>a\<close>, the rounds go on to the end of the volume and wrap around at most
  once: a start behind \<open>a\<close> only grows until the search wraps, and a start before \<open>a\<close> finds no run behind it.
\<close>

lemma contig_rounds_after_collision:
  assumes "search_ok m" "trims_ok j m" "plain_search flags" "totalBlocks m + 32 < 4294967296" "s \<le> allocLimit m"
    "0 < minBlocks" "minBlocks \<le> maxBlocks" "dskFulErr \<notin> range bread"
    "0 < startBlock a" "contig_good m flags 0 (allocLimit m) minBlocks maxBlocks a"
  shows "\<exists>r. contig_rounds bread j m s minBlocks maxBlocks flags (startBlock a) (blockCount a) = Some r \<and>
    contig_result bread j m minBlocks maxBlocks flags r"
  using assms
proof (induction "if startBlock a < s then allocLimit m + (allocLimit m - s) else startBlock a - s" arbitrary: m s rule: less_induct)
  case less
  from less.prems(1-8,10) show ?case
  proof (cases rule: contig_rounds_step [where a = a])
    case (final r)
    then show ?thesis
      by blast
  next
    case (again ext m1 s')
    note same = srch_only_same [OF again(1)]
    have fit: "if s \<le> startBlock a then s \<le> startBlock ext \<and> startBlock ext \<le> startBlock a
        else s \<le> startBlock ext \<or> startBlock ext < startBlock a + blockCount a"
      using again(3) less.prems(9,10) by (simp add: round_result_def)
    have "startBlock a < allocLimit m" "0 < blockCount a"
      using less.prems(10) by (simp_all add: contig_good_def free_run_def)
    then have dec: "(if startBlock a < s' then allocLimit m1 + (allocLimit m1 - s') else startBlock a - s') <
        (if startBlock a < s then allocLimit m + (allocLimit m - s) else startBlock a - s)"
      using fit again(4,5,6,7) less.prems(9) same(3) by (auto split: if_splits)
    have "contig_good m1 flags 0 (allocLimit m1) minBlocks maxBlocks a"
      using less.prems(10) contig_good_srch_only(1) [OF again(1)] same(3) by simp
    then have "\<exists>r. contig_rounds bread j m1 s' minBlocks maxBlocks flags (startBlock a) (blockCount a) = Some r \<and>
        contig_result bread j m1 minBlocks maxBlocks flags r"
      using less.prems(2-4,6-9) again(2,6) same by (intro less.hyps [OF dec]) simp_all
    then show ?thesis
      using contig_result_from [OF _ again(1)] again(8) less.prems(9) by auto
  qed
qed

lemma contig_rounds_spec:
  assumes "search_ok m" "trims_ok j m" "plain_search flags" "totalBlocks m + 32 < 4294967296" "s \<le> allocLimit m"
    "0 < minBlocks" "minBlocks \<le> maxBlocks" "dskFulErr \<notin> range bread"
  shows "\<exists>r. contig_rounds bread j m s minBlocks maxBlocks flags 0 n = Some r \<and> contig_result bread j m minBlocks maxBlocks flags r"
  using assms
proof (induction "if s = 0 then (1::nat) else 0" arbitrary: m s n rule: less_induct)
  case less
  note start = contig_rounds_step [OF less.prems(1-8), where a = "mk_extent 0 n", unfolded mk_extent_sel]
  show ?case
  proof (rule start, goal_cases none final again)
    case (final r)
    then show ?case
      by blast
  next
    case (again ext m1 s')
    note same = srch_only_same [OF again(1)]
    have "contig_good m1 flags 0 (allocLimit m1) minBlocks maxBlocks ext" and pos: "0 < s \<Longrightarrow> 0 < startBlock ext"
      using again(3) contig_good_srch_only(1) [OF again(1)] same(3) by (simp_all add: round_result_def)
    then have "\<exists>r. contig_rounds bread j m1 s' minBlocks maxBlocks flags (startBlock ext) (blockCount ext) = Some r \<and>
        contig_result bread j m1 minBlocks maxBlocks flags r" if "0 < startBlock ext"
      using contig_rounds_after_collision [of m1 j flags s' minBlocks maxBlocks bread ext] less.prems that again(2,6) same by simp
    moreover have "\<exists>r. contig_rounds bread j m1 s' minBlocks maxBlocks flags 0 (blockCount ext) = Some r \<and>
        contig_result bread j m1 minBlocks maxBlocks flags r" if "startBlock ext = 0"
      using less.prems again(2,4,6) same pos that by (intro less.hyps) auto
    ultimately have "\<exists>r. contig_rounds bread j m1 s' minBlocks maxBlocks flags (startBlock ext) (blockCount ext) = Some r \<and>
        contig_result bread j m1 minBlocks maxBlocks flags r"
      by (cases "startBlock ext = 0") simp_all
    then show ?case
      using contig_result_from [OF _ again(1)] again(8) by auto
  qed simp
qed

lemma BlockFindContig_spec:
  assumes "search_ok m" "trims_ok j m" "plain_search flags" "totalBlocks m + 32 < 4294967296" "s \<le> allocLimit m"
    "0 < minBlocks" "minBlocks \<le> maxBlocks" "dskFulErr \<notin> range bread"
  shows "\<exists>err ext m'. BlockFindContig bread j m s minBlocks maxBlocks flags actual = Some (err, ext, m') \<and>
    contig_result bread j m minBlocks maxBlocks flags (err, ext, m')"
proof -
  obtain err ext m' where "contig_rounds bread j m s minBlocks maxBlocks flags 0 0 = Some (err, ext, m')"
    "contig_result bread j m minBlocks maxBlocks flags (err, ext, m')"
    using contig_rounds_spec [OF assms, of 0] by (metis prod_cases3)
  then show ?thesis
    by (auto simp: BlockFindContig_def contig_result_def)
qed

section \<open>Trying hard\<close>

definition hard_result ::
  "(nat \<Rightarrow> hfs_err) \<Rightarrow> hfsmount \<Rightarrow> nat \<Rightarrow> nat \<Rightarrow> u32 \<Rightarrow> hfs_err \<times> HFSPlusExtentDescriptor \<times> hfsmount \<Rightarrow> bool" where
  "hard_result bread m minBlocks maxBlocks flags r \<longleftrightarrow>
     (case r of (err, ext, m') \<Rightarrow> srch_only m m' \<and> search_ok m' \<and> (err = noErr \<or> err = dskFulErr \<or> err \<in> range bread) \<and>
        (err = noErr \<longrightarrow> free_run m flags 0 (allocLimit m) maxBlocks ext \<and> minBlocks \<le> blockCount ext))"

lemma hard_result_contiguous:
  assumes "contiguous_result bread m1 lo hi n maxBlocks u flags r" "srch_only m m1" "hi \<le> allocLimit m" "minBlocks \<le> n"
  shows "hard_result bread m minBlocks maxBlocks flags r"
  using assms(1,3,4) srch_only_same(2) [OF assms(2)] srch_only_trans [OF assms(2)]
  by (cases r) (auto simp: contiguous_result_def hard_result_def free_run_def)

lemma BlockFindKnown_free:
  assumes "search_ok m" "0 < maxBlocks" "BlockFindKnown m maxBlocks old = (err, ext, m')"
  shows "m' = m" "err = noErr \<or> err = dskFulErr \<and> ext = old" "err = noErr \<Longrightarrow> free_run m flags 0 (allocLimit m) maxBlocks ext"
proof -
  have fec: "fec_ok m" "fec_blocks m \<inter> taken_blocks m 0 = {}"
    using assms(1) by (simp_all add: search_ok_def)
  note k = BlockFindKnown_spec [OF fec(1) assms(2), of old, unfolded assms(3) prod.case]
  show "m' = m" "err = noErr \<or> err = dskFulErr \<and> ext = old"
    using k by auto
  assume "err = noErr"
  then have e: "ext_run ext \<noteq> {}" "blockCount ext \<le> maxBlocks" "ext_run ext \<subseteq> fec_blocks m"
    using k by auto
  have "x < allocLimit m" if "x \<in> fec_blocks m" for x
    using that fec_ok_bound [OF fec(1)] by (fastforce simp: fec_blocks_def ext_run_def)
  moreover have "startBlock ext + blockCount ext - 1 \<in> ext_run ext" "0 < blockCount ext"
    using e(1) by (auto simp: ext_run_def run_def)
  ultimately have "startBlock ext + blockCount ext \<le> allocLimit m"
    using e(3) by fastforce
  then show "free_run m flags 0 (allocLimit m) maxBlocks ext"
    using e fec(2) taken_blocks_mono [of m flags] \<open>0 < blockCount ext\<close> unfolding free_run_def ext_run_def by auto
qed

lemma hfs_alloc_try_hard_spec:
  assumes ok: "search_ok m" "\<not> ISSET flags HFS_ALLOC_IGNORE_RESERVED" and lim: "totalBlocks m + 32 < 4294967296" "1 \<le> allocLimit m"
    and n: "0 < blockCount extent" "blockCount extent \<le> maxBlocks"
  shows "\<exists>err ext m'. hfs_alloc_try_hard bread j m extent maxBlocks flags = Some (err, ext, m') \<and>
    hard_result bread m (blockCount extent) maxBlocks flags (err, ext, m')"
proof -
  have mx: "0 < maxBlocks" "maxBlocks \<le> maxBlocks"
    using n by simp_all
  let ?at = "startBlock extent > 0 \<and> startBlock extent < allocLimit m \<and> sub32 (allocLimit m) (startBlock extent) > maxBlocks"
  define first where "first = (if ?at
      then BlockFindContiguous bread j m (startBlock extent) (add32 (startBlock extent) maxBlocks) maxBlocks maxBlocks True True flags
      else Some (dskFulErr, extent, m))"
  have "\<exists>err ext m1. first = Some (err, ext, m1) \<and> hard_result bread m (blockCount extent) maxBlocks flags (err, ext, m1)"
  proof (cases ?at)
    case True
    have al: "allocLimit m < 4294967296"
      using ok(1) by (simp add: search_ok_def fec_ok_def)
    then have e: "add32 (startBlock extent) maxBlocks = startBlock extent + maxBlocks" "startBlock extent + maxBlocks \<le> allocLimit m"
      using True by (auto simp: add32_eq sub32_eq)
    obtain r where "first = Some r" "contiguous_result bread m (startBlock extent) (startBlock extent + maxBlocks) maxBlocks maxBlocks True flags r"
      using BlockFindContiguous_spec [OF ok e(2) lim(1) mx, of "startBlock extent" bread j True True] True e(1) by (auto simp: first_def)
    then show ?thesis
      using hard_result_contiguous [OF _ srch_only_refl e(2) n(2)] by (cases r) auto
  next
    case False
    then have "first = Some (dskFulErr, extent, m)"
      unfolding first_def by (rule if_not_P)
    then show ?thesis
      using ok(1) by (simp add: hard_result_def)
  qed
  then obtain err ext m1 where f: "first = Some (err, ext, m1)" "hard_result bread m (blockCount extent) maxBlocks flags (err, ext, m1)"
    by blast
  have so: "srch_only m m1" "search_ok m1"
    using f(2) by (simp_all add: hard_result_def)
  note same = srch_only_same [OF so(1)]
  obtain err2 ext2 m2 where k: "BlockFindKnown m1 maxBlocks ext = (err2, ext2, m2)"
    by (metis prod_cases3)
  note kn = BlockFindKnown_free [OF so(2) mx(1) k]
  have eq: "hfs_alloc_try_hard bread j m extent maxBlocks flags =
      (if err \<noteq> dskFulErr then Some (err, ext, m1)
       else if err2 = noErr \<and> blockCount ext2 \<ge> maxBlocks then Some (noErr, ext2, m1)
       else BlockFindContiguous bread j m1 1 (allocLimit m1) (blockCount extent) maxBlocks True True flags)"
    unfolding hfs_alloc_try_hard_def Let_def first_def [symmetric] f(1) using k kn(1,2) by auto
  obtain r where r: "BlockFindContiguous bread j m1 1 (allocLimit m1) (blockCount extent) maxBlocks True True flags = Some r"
    "contiguous_result bread m1 1 (allocLimit m1) (blockCount extent) maxBlocks True flags r"
    using BlockFindContiguous_spec [OF so(2) ok(2) order_refl _ n, of 1 bread j True True] lim same by auto
  have "hard_result bread m (blockCount extent) maxBlocks flags r"
    using hard_result_contiguous [OF r(2) so(1) _ order_refl] same(3) by simp
  moreover have "hard_result bread m (blockCount extent) maxBlocks flags (noErr, ext2, m1)" if "err2 = noErr" "blockCount ext2 \<ge> maxBlocks"
  proof -
    have "free_run m flags 0 (allocLimit m) maxBlocks ext2"
      using kn(3) [OF that(1), of flags] unfolding free_run_def same(2,3) .
    then show ?thesis
      using that(2) n(2) so by (simp add: hard_result_def)
  qed
  ultimately show ?thesis
    unfolding eq using f(2) r(1) by (cases r) auto
qed

section \<open>Properties\<close>

lemma trim_mount_search_ok: "search_ok trim_mount"
proof -
  have "fec_ok trim_mount" "fec_blocks trim_mount = {}"
    by (simp_all add: trim_mount_def small_mount_def plain_mount_def fec_ok_def fec_array_def fec_entries_def fec_list_ok_def
        fec_blocks_def)
  then show ?thesis
    using trim_mount_ok by (simp add: search_ok_def)
qed

lemma trim_mount_free: "taken_blocks trim_mount 0 = {}"
  by (simp add: trim_mount_def taken_blocks_def bm_set_zero reserved_blocks_def entry_blocks_def)

text \<open>
  C33. The search for contiguous blocks always returns.  A successful search yields at least \<open>minBlocks\<close> and at most
  \<open>maxBlocks\<close> contiguous blocks inside the range, none of them in use for the given flags, and outside the metadata
  zone unless that may be used; it never runs into the overflow panic.  Whatever the outcome, only the summary table
  and the free extent cache change: the table still marks only pieces without a free block, and the cache stays well
  formed and holds only free blocks.
\<close>

theorem BlockFindContiguous_sound:
  assumes "search_ok m" "\<not> ISSET flags HFS_ALLOC_IGNORE_RESERVED" "endb \<le> allocLimit m" "totalBlocks m + 32 < 4294967296"
    and "0 < minBlocks" "minBlocks \<le> maxBlocks" "start \<le> endb" "hfs_panic \<notin> range bread"
  shows "\<exists>err ext m'. BlockFindContiguous bread j m start endb minBlocks maxBlocks useMetaZone trust flags = Some (err, ext, m') \<and>
    srch_only m m' \<and> search_ok m' \<and> err \<noteq> hfs_panic \<and>
    (err = noErr \<longrightarrow> free_run m flags start endb maxBlocks ext \<and> minBlocks \<le> blockCount ext \<and>
       (\<not> useMetaZone \<and> ISSET (hfs_flags m) HFS_METADATA_ZONE \<longrightarrow> hfs_metazone_end m < startBlock ext)) \<and>
    (err \<noteq> noErr \<longrightarrow> ext = mk_extent 0 0)"
proof -
  obtain err ext m' where r: "BlockFindContiguous bread j m start endb minBlocks maxBlocks useMetaZone trust flags = Some (err, ext, m')"
    "contiguous_result bread m start endb minBlocks maxBlocks useMetaZone flags (err, ext, m')"
    using BlockFindContiguous_spec [OF assms(1-7), of bread j useMetaZone trust] by (metis prod_cases3)
  have "err \<noteq> hfs_panic"
    using r(2) assms(8) by (auto simp: contiguous_result_def)
  then show ?thesis
    using r by (auto simp: contiguous_result_def)
qed

theorem BlockFindContiguous_sound_witness:
  "\<exists>err ext m'. BlockFindContiguous (\<lambda>_. noErr) two_trims trim_mount 3 64 8 20 True True 0 = Some (err, ext, m') \<and>
     srch_only trim_mount m' \<and> search_ok m' \<and> err \<noteq> hfs_panic"
  using BlockFindContiguous_sound [OF trim_mount_search_ok, of 0 64 8 20 3 "\<lambda>_. noErr" two_trims True True] trim_mount_ok
  by (auto simp: ISSET_def)



text \<open>
  C35. The rounds of \<open>BlockFindContig\<close>, which start over behind every run with a pending trim, come to an end when
  reservations are respected and reading the bitmap never fails with the code for a full disk.  A run that is returned
  is free, long enough and outside the metadata zone unless that may be used; when the journal must not be flushed no
  block of it has a pending trim.
\<close>

theorem BlockFindContig_terminates:
  assumes "search_ok m" "trims_ok j m" "plain_search flags" "totalBlocks m + 32 < 4294967296" "s \<le> allocLimit m"
    and "0 < minBlocks" "minBlocks \<le> maxBlocks" "dskFulErr \<notin> range bread"
  shows "\<exists>err ext m'. BlockFindContig bread j m s minBlocks maxBlocks flags actual = Some (err, ext, m') \<and>
    srch_only m m' \<and> search_ok m' \<and>
    (err = noErr \<longrightarrow> contig_good m flags 0 (allocLimit m) minBlocks maxBlocks ext \<and>
       (ISSET flags HFS_ALLOC_FLUSHTXN \<or> run (startBlock ext) (blockCount ext) \<inter> pending_blocks j m = {}))"
proof -
  obtain err ext m' where "BlockFindContig bread j m s minBlocks maxBlocks flags actual = Some (err, ext, m')"
    "contig_result bread j m minBlocks maxBlocks flags (err, ext, m')"
    using BlockFindContig_spec [OF assms, of actual] by blast
  then show ?thesis
    by (cases "ISSET flags HFS_ALLOC_FLUSHTXN") (simp_all add: contig_result_def avoided_blocks_def)
qed

theorem BlockFindContig_terminates_witness:
  "\<exists>err ext m'. BlockFindContig (\<lambda>_. noErr) two_trims trim_mount 2 8 20 0 (mk_extent 0 0) = Some (err, ext, m') \<and> srch_only trim_mount m'"
  using BlockFindContig_terminates [OF trim_mount_search_ok trim_mount_ok(2), of 0 2 8 20 "\<lambda>_. noErr" "mk_extent 0 0"] trim_mount_ok
  by (auto simp: plain_search_def ISSET_def)

end
