(* ===== verification/Reservations.thy ===== *)
theory Reservations
  imports Find_Contiguous
begin

text \<open>
  Reservations of blocks (\<^verbatim>\<open>core/VolumeAllocation.c\<close>): ranges that were promised to a caller but are not marked in
  the bitmap.  Tentative ranges can be taken back when space runs out, locked ones cannot.  A reservation is an entry of
  one of two lists of the mount; the caller keeps a pointer to it.  In the model the caller's handle is the current
  contents of the entry, which identifies it, since the entries of a list are disjoint; a released entry has the
  contents \<open>rl_make (- 1) (- 2)\<close>.  The request to the device to unmap a released locked range does not touch the state.
\<close>

section \<open>Operations\<close>

definition set_ranges :: "hfs_reserved_type \<Rightarrow> rl_head \<Rightarrow> hfsmount \<Rightarrow> hfsmount" where
  "set_ranges list rs m = m\<lparr>hfs_reserved_ranges := (hfs_reserved_ranges m)(list := rs)\<rparr>"

text \<open>The mount and the new contents of the entry.\<close>

definition hfs_release_reserved :: "hfsmount \<Rightarrow> rl_entry \<Rightarrow> hfs_reserved_type \<Rightarrow> hfsmount \<times> rl_entry" where
  "hfs_release_reserved m rng list =
     (if rl_start rng = - 1 then (m, rng)
      else
        let m1 = set_ranges list (remove1 rng (hfs_reserved_ranges m list)) m;
            len = nat (rl_len rng);
            m2 = (if rl_len rng > 0 then
                    let m' = (if list = HFS_TENTATIVE_BLOCKS
                              then m1\<lparr>tentativeBlocks := sub32 (tentativeBlocks m1) len\<rparr>
                              else m1\<lparr>lockedBlocks := sub32 (lockedBlocks m1) len\<rparr>);
                        m'' = snd (hfs_release_summary m' (nat (rl_start rng)) len)
                    in snd (add_free_extent_cache m'' (nat (rl_start rng)) len)
                  else m1)
        in (m2, rl_make (- 1) (- 2)))"

text \<open>\<open>nranges\<close> counts the entries seen: the fourth and every later one is released.\<close>

fun release_old_tentative :: "nat \<Rightarrow> rl_entry list \<Rightarrow> hfsmount \<Rightarrow> hfsmount" where
  "release_old_tentative nranges [] m = m"
| "release_old_tentative nranges (rng # next_ranges) m =
     release_old_tentative (nranges + 1) next_ranges
       (if nranges + 1 > 3 then fst (hfs_release_reserved m rng HFS_TENTATIVE_BLOCKS) else m)"

definition add_to_reserved_list :: "hfsmount \<Rightarrow> nat \<Rightarrow> nat \<Rightarrow> hfs_reserved_type \<Rightarrow> hfsmount \<times> rl_entry" where
  "add_to_reserved_list m start count list =
     (let m1 = (if list = HFS_TENTATIVE_BLOCKS
                then release_old_tentative 0 (hfs_reserved_ranges m HFS_TENTATIVE_BLOCKS) m else m);
          rng = rl_make (int start) (int (sub32 (add32 start count) 1))
      in (set_ranges list (rng # hfs_reserved_ranges m1 list) m1, rng))"

text \<open>The caller's pointer is null afterwards.\<close>

definition hfs_free_locked_internal ::
  "hfsmount \<Rightarrow> rl_entry option \<Rightarrow> hfs_reserved_type \<Rightarrow> hfsmount \<times> rl_entry option" where
  "hfs_free_locked_internal m reservation list =
     (case reservation of
        Some rng \<Rightarrow> (fst (hfs_release_reserved m rng list), None)
      | None \<Rightarrow> (m, None))"

definition hfs_free_tentative :: "hfsmount \<Rightarrow> rl_entry option \<Rightarrow> hfsmount \<times> rl_entry option" where
  "hfs_free_tentative m reservation = hfs_free_locked_internal m reservation HFS_TENTATIVE_BLOCKS"

definition hfs_free_locked :: "hfsmount \<Rightarrow> rl_entry option \<Rightarrow> hfsmount \<times> rl_entry option" where
  "hfs_free_locked m reservation = hfs_free_locked_internal m reservation HFS_LOCKED_BLOCKS"

text \<open>
  Taking blocks away from tentative ranges after an allocation of \<open>start\<close> to \<open>end'\<close> that ignored them: the loop over
  the list, \<open>before\<close> being the entries already seen.  The result holds the new contents of every entry, including those
  that were released.
\<close>

fun steal_tentative :: "nat \<Rightarrow> nat \<Rightarrow> rl_entry list \<Rightarrow> rl_entry list \<Rightarrow> hfsmount \<Rightarrow> rl_entry list \<times> hfsmount" where
  "steal_tentative start end' before [] m = ([], m)"
| "steal_tentative start end' before (rng # rest) m =
     (let take_blocks = (\<lambda>n m. m\<lparr>tentativeBlocks := sub32 (tentativeBlocks m) n\<rparr>);
          keep = (\<lambda>rng' m. let (cells, m') = steal_tentative start end' (before @ [rng']) rest m in (rng' # cells, m'));
          put = (\<lambda>rng' m. set_ranges HFS_TENTATIVE_BLOCKS (before @ rng' # rest) m)
      in case rl_overlap rng (int start) (int end') of
           RL_OVERLAPCONTAINSRANGE \<Rightarrow>
             if int start - rl_start rng > rl_end rng - int end' then
               let m1 = take_blocks (nat (rl_end rng + 1 - int start)) m;
                   m2 = snd (hfs_release_summary m1 (add32 end' 1) (nat (rl_end rng - int end')));
                   rng' = rng\<lparr>rl_end := int start - 1\<rparr>;
                   m3 = snd (add_free_extent_cache (put rng' m2) (add32 end' 1) (nat (rl_end rng - int end')))
               in keep rng' m3
             else
               let m1 = take_blocks (nat (int end' + 1 - rl_start rng)) m;
                   m2 = snd (hfs_release_summary m1 (nat (rl_start rng)) (nat (int start - rl_start rng)));
                   rng' = rng\<lparr>rl_start := int end' + 1\<rparr>;
                   m3 = snd (add_free_extent_cache (put rng' m2) (nat (rl_start rng)) (nat (int start - rl_start rng)))
               in keep rng' m3
         | RL_OVERLAPSTARTSBEFORE \<Rightarrow>
             let rng' = rng\<lparr>rl_end := int start - 1\<rparr>
             in keep rng' (put rng' (take_blocks (nat (rl_end rng + 1 - int start)) m))
         | RL_OVERLAPENDSAFTER \<Rightarrow>
             let rng' = rng\<lparr>rl_start := int end' + 1\<rparr>
             in keep rng' (put rng' (take_blocks (nat (int end' + 1 - rl_start rng)) m))
         | RL_NOOVERLAP \<Rightarrow> keep rng m
         | _ \<Rightarrow>
             let rng' = rng\<lparr>rl_end := rl_start rng - 1\<rparr>;
                 (m1, dead) = hfs_release_reserved (put rng' (take_blocks (nat (rl_len rng)) m)) rng' HFS_TENTATIVE_BLOCKS;
                 (cells, m2) = steal_tentative start end' before rest m1
             in (dead # cells, m2))"

section \<open>Well-formed reservations\<close>

text \<open>
  Every range is a non-empty part of the volume, ranges do not overlap each other or the blocks marked in the bitmap, and
  the two counters of the mount are the sums of the lengths.
\<close>

abbreviation tentative :: "hfsmount \<Rightarrow> rl_head" where
  "tentative m \<equiv> hfs_reserved_ranges m HFS_TENTATIVE_BLOCKS"

abbreviation locked :: "hfsmount \<Rightarrow> rl_head" where
  "locked m \<equiv> hfs_reserved_ranges m HFS_LOCKED_BLOCKS"

definition range_ok :: "nat \<Rightarrow> rl_entry \<Rightarrow> bool" where
  "range_ok limit e \<longleftrightarrow> 0 \<le> rl_start e \<and> rl_start e \<le> rl_end e \<and> rl_end e < int limit"

definition ranges_ok :: "nat \<Rightarrow> rl_entry list \<Rightarrow> bool" where
  "ranges_ok limit es \<longleftrightarrow> (\<forall>e\<in>set es. range_ok limit e) \<and> sorted_wrt (\<lambda>a b. rl_set a \<inter> rl_set b = {}) es"

definition blocks_of :: "rl_entry list \<Rightarrow> nat" where
  "blocks_of es = nat (sum_list (map rl_len es))"

text \<open>\<open>t\<close> and \<open>k\<close> blocks are counted already but not yet in a list.\<close>

definition reserved_slack :: "nat \<Rightarrow> nat \<Rightarrow> hfsmount \<Rightarrow> bool" where
  "reserved_slack t k m \<longleftrightarrow> ranges_ok (allocLimit m) (tentative m @ locked m) \<and>
     entry_blocks (tentative m @ locked m) \<inter> bm_set (vcbBitmap m) = {} \<and>
     tentativeBlocks m = blocks_of (tentative m) + t \<and> lockedBlocks m = blocks_of (locked m) + k \<and>
     tentativeBlocks m < 4294967296 \<and> lockedBlocks m < 4294967296"

abbreviation reserved_ok :: "hfsmount \<Rightarrow> bool" where
  "reserved_ok \<equiv> reserved_slack 0 0"

section \<open>Ranges as sets of blocks\<close>

lemma entry_blocks_simps [simp]:
  "entry_blocks [] = {}" "entry_blocks (es @ fs) = entry_blocks es \<union> entry_blocks fs"
  by (auto simp: entry_blocks_def)

lemma entry_blocks_Cons: "entry_blocks (e # es) = entry_blocks [e] \<union> entry_blocks es"
  by (auto simp: entry_blocks_def)

lemma entry_blocks_sub: "e \<in> set es \<Longrightarrow> entry_blocks [e] \<subseteq> entry_blocks es"
  by (auto simp: entry_blocks_def)

lemma entry_run:
  assumes "range_ok limit e"
  shows "entry_blocks [e] = run (nat (rl_start e)) (nat (rl_len e))" "nat (rl_start e) + nat (rl_len e) \<le> limit"
    "0 < rl_len e" "int (nat (rl_start e)) = rl_start e"
  using assms by (auto simp: range_ok_def entry_blocks_def rl_len_def run_def)

lemma range_ok_entries: "\<forall>e\<in>set es. range_ok limit e \<Longrightarrow> entries_ok es"
  by (auto simp: entries_ok_def range_ok_def)

lemma rl_set_disjoint_blocks:
  "range_ok limit a \<Longrightarrow> rl_set a \<inter> rl_set b = {} \<longleftrightarrow> entry_blocks [a] \<inter> entry_blocks [b] = {}"
proof -
  assume a: "range_ok limit a"
  have mem: "b \<in> entry_blocks [e] \<longleftrightarrow> int b \<in> rl_set e" for b e
    by (simp add: entry_blocks_def rl_set_def)
  have "nat x \<in> entry_blocks [a] \<inter> entry_blocks [b]" if "x \<in> rl_set a \<inter> rl_set b" for x
  proof -
    have "int (nat x) = x"
      using that a by (simp add: rl_set_def range_ok_def)
    then show ?thesis
      using that by (simp add: mem)
  qed
  then show ?thesis
    using mem by blast
qed

lemma ranges_ok_append:
  "ranges_ok limit (es @ fs) \<longleftrightarrow> ranges_ok limit es \<and> ranges_ok limit fs \<and> entry_blocks es \<inter> entry_blocks fs = {}"
proof -
  have "(\<forall>x\<in>set es. \<forall>y\<in>set fs. rl_set x \<inter> rl_set y = {}) \<longleftrightarrow> entry_blocks es \<inter> entry_blocks fs = {}"
    if "\<forall>e\<in>set es. range_ok limit e"
  proof -
    have "(\<forall>x\<in>set es. \<forall>y\<in>set fs. rl_set x \<inter> rl_set y = {}) \<longleftrightarrow>
        (\<forall>x\<in>set es. \<forall>y\<in>set fs. entry_blocks [x] \<inter> entry_blocks [y] = {})"
      using that rl_set_disjoint_blocks by blast
    also have "\<dots> \<longleftrightarrow> entry_blocks es \<inter> entry_blocks fs = {}"
      by (auto simp: entry_blocks_def disjoint_iff)
    finally show ?thesis .
  qed
  then show ?thesis
    by (auto simp: ranges_ok_def sorted_wrt_append)
qed

lemma ranges_ok_Cons:
  "ranges_ok limit (e # es) \<longleftrightarrow> range_ok limit e \<and> ranges_ok limit es \<and> entry_blocks [e] \<inter> entry_blocks es = {}"
  using ranges_ok_append [of limit "[e]" es] by (simp add: ranges_ok_def)

lemma ranges_ok_Nil [simp]: "ranges_ok limit []"
  by (simp add: ranges_ok_def)

lemma ranges_ok_perm:
  assumes "ranges_ok limit (es @ e # fs)"
  shows "ranges_ok limit (es @ fs)" "range_ok limit e" "entry_blocks [e] \<inter> entry_blocks (es @ fs) = {}" "e \<notin> set (es @ fs)"
proof -
  show a: "ranges_ok limit (es @ fs)" "range_ok limit e" "entry_blocks [e] \<inter> entry_blocks (es @ fs) = {}"
    using assms by (auto simp: ranges_ok_append ranges_ok_Cons entry_blocks_Cons [of e fs])
  have "entry_blocks [e] \<noteq> {}"
    using entry_run [OF a(2)] by (auto simp: run_def)
  then show "e \<notin> set (es @ fs)"
    using a(3) entry_blocks_sub [of e "es @ fs"] by auto
qed

lemma blocks_of_simps [simp]: "blocks_of [] = 0"
  by (simp add: blocks_of_def)

lemma sum_len_nonneg: "\<forall>e\<in>set es. 0 \<le> rl_len e \<Longrightarrow> 0 \<le> sum_list (map rl_len es)"
  by (induction es) auto

lemma blocks_of_append:
  assumes "\<forall>e\<in>set (es @ fs). 0 \<le> rl_len e"
  shows "blocks_of (es @ fs) = blocks_of es + blocks_of fs"
  using assms sum_len_nonneg [of es] sum_len_nonneg [of fs] by (simp add: blocks_of_def nat_add_distrib)

lemma blocks_of_Cons:
  assumes "0 \<le> rl_len e" "\<forall>e\<in>set es. 0 \<le> rl_len e"
  shows "blocks_of (e # es) = nat (rl_len e) + blocks_of es"
  using assms sum_len_nonneg [of es] by (simp add: blocks_of_def nat_add_distrib)

lemma ranges_ok_len: "ranges_ok limit es \<Longrightarrow> e \<in> set es \<Longrightarrow> 0 < rl_len e"
  using entry_run(3) by (auto simp: ranges_ok_def)

lemma blocks_of_remove:
  assumes "ranges_ok limit es" "e \<in> set es"
  shows "blocks_of (remove1 e es) + nat (rl_len e) = blocks_of es"
proof -
  obtain xs ys where "es = xs @ e # ys" "e \<notin> set xs"
    using split_list_first [OF assms(2)] by blast
  moreover have "\<forall>e\<in>set es. 0 \<le> rl_len e"
    using ranges_ok_len [OF assms(1)] by fastforce
  ultimately show ?thesis
    by (simp add: remove1_append blocks_of_append blocks_of_Cons)
qed

lemma blocks_of_card:
  assumes "ranges_ok limit es"
  shows "blocks_of es = card (entry_blocks es)" "finite (entry_blocks es)"
  using assms
proof (induction es)
  case (Cons e es)
  {
    case 1
    then have ok: "range_ok limit e" "ranges_ok limit es" "entry_blocks [e] \<inter> entry_blocks es = {}"
      by (simp_all add: ranges_ok_Cons)
    have "finite (entry_blocks [e])" "card (entry_blocks [e]) = nat (rl_len e)"
      by (simp_all add: entry_run(1) [OF ok(1)] run_def)
    moreover have "\<forall>e\<in>set es. 0 \<le> rl_len e"
      using ranges_ok_len [OF ok(2)] by fastforce
    ultimately show ?case
      using Cons.IH [OF ok(2)] ok(3) entry_run(3) [OF ok(1)] unfolding entry_blocks_Cons [of e es]
      by (simp add: blocks_of_Cons card_Un_disjoint)
  next
    case 2
    then have ok: "range_ok limit e" "ranges_ok limit es"
      by (simp_all add: ranges_ok_Cons)
    then show ?case
      using Cons.IH(2) [OF ok(2)] unfolding entry_blocks_Cons [of e es] by (simp add: entry_run(1) [OF ok(1)] run_def)
  }
qed simp_all

section \<open>Frames\<close>

text \<open>The fields that no allocation changes.\<close>

definition static :: "hfsmount \<Rightarrow> hfsmount \<Rightarrow> bool" where
  "static m m' \<longleftrightarrow> hfs_flags m' = hfs_flags m \<and> blockSize m' = blockSize m \<and> totalBlocks m' = totalBlocks m \<and>
     allocLimit m' = allocLimit m \<and> hfsPlusIOPosOffset m' = hfsPlusIOPosOffset m \<and> hfs_logical_bytes m' = hfs_logical_bytes m \<and>
     vcbVBMIOSize m' = vcbVBMIOSize m \<and> hfs_metazone_start m' = hfs_metazone_start m \<and> hfs_metazone_end m' = hfs_metazone_end m \<and>
     jnl m' = jnl m \<and> length (vcbBitmap m') = length (vcbBitmap m) \<and> loanedBlocks m' = loanedBlocks m \<and>
     reserveBlocks m' = reserveBlocks m \<and> hfs_summary_bytes m' = hfs_summary_bytes m \<and> hfs_summary_size m' = hfs_summary_size m \<and>
     length (hfs_summary_table m') = length (hfs_summary_table m)"

lemma static_refl [simp]: "static m m"
  by (simp add: static_def)

lemma static_trans: "static m m1 \<Longrightarrow> static m1 m2 \<Longrightarrow> static m m2"
  by (simp add: static_def)

lemma static_bitmap: "static m m' \<Longrightarrow> bitmap_ok m' = bitmap_ok m"
  by (simp add: static_def bitmap_ok_def)

lemma static_volume: "static m m' \<Longrightarrow> volume_ok m \<Longrightarrow> reservations_ok m' \<Longrightarrow> volume_ok m'"
  using static_bitmap [of m m'] by (simp add: static_def volume_ok_def)

lemma static_trims:
  "static m m' \<Longrightarrow> trims_ok j m' = trims_ok j m" "static m m' \<Longrightarrow> pending_blocks j m' = pending_blocks j m"
  by (simp_all add: static_def trims_ok_def pending_blocks_def)

text \<open>The summary table and the free extent cache are the same as well.\<close>

definition same_search :: "hfsmount \<Rightarrow> hfsmount \<Rightarrow> bool" where
  "same_search m m' \<longleftrightarrow> static m m' \<and> hfs_summary_table m' = hfs_summary_table m \<and> vcbFreeExtCnt m' = vcbFreeExtCnt m \<and>
     vcbFreeExt m' = vcbFreeExt m"

lemma same_search_facts:
  assumes "same_search m m'"
  shows "static m m'" "fec_ok m' = fec_ok m" "fec_blocks m' = fec_blocks m" "summary_ok m' = summary_ok m"
    "summary_bit m' i = summary_bit m i" "totalBlocks m' = totalBlocks m" "allocLimit m' = allocLimit m" "hfs_flags m' = hfs_flags m"
    "vcbVBMIOSize m' = vcbVBMIOSize m"
  using assms
  by (simp_all add: same_search_def static_def fec_ok_def fec_array_def fec_entries_def fec_blocks_def summary_ok_def summary_bit_def)

text \<open>Blocks are taken: the cache must not hold them.\<close>

lemma search_ok_take:
  assumes "search_ok m" "same_search m m1" "reservations_ok m1" "taken_blocks m 0 \<subseteq> taken_blocks m1 0"
    "fec_blocks m \<inter> taken_blocks m1 0 = {}"
  shows "search_ok m1"
  using assms(1) static_volume [OF same_search_facts(1) [OF assms(2)] _ assms(3)] same_search_facts [OF assms(2)] assms(4,5)
  by (auto simp: search_ok_def summary_true_def)

text \<open>Releasing summary bits never makes the table less true.\<close>

lemma hfs_release_summary_bits:
  assumes "summary_ok m"
  shows "summary_ok (snd (hfs_release_summary m s n))" "summary_bit (snd (hfs_release_summary m s n)) i \<Longrightarrow> summary_bit m i"
    "0 < n \<Longrightarrow> s + n \<le> totalBlocks m \<Longrightarrow> b \<in> run s n \<Longrightarrow> \<not> summary_bit (snd (hfs_release_summary m s n)) (b div bits_per_iosize m)"
proof -
  have t: "totalBlocks m < 4294967296" "hfs_has_summary m" "0 < bits_per_iosize m"
    using assms by (auto simp: summary_ok_def)
  define e where "e = sub32 (add32 s n) 1"
  have eq: "hfs_release_summary m s n = (if s < totalBlocks m \<and> e < totalBlocks m
      then hfs_release_bits (s div bits_per_iosize m) (e div bits_per_iosize m) noErr m else (EINVAL, m))"
  proof -
    have "hfs_get_summary_index m b = (if b < totalBlocks m then Inr (b div bits_per_iosize m) else Inl EINVAL)" for b
      using summary_index [OF assms, of b] t(2) by (auto simp: hfs_get_summary_index_def)
    then show ?thesis
      unfolding hfs_release_summary_def Let_def e_def [symmetric] using t(2) by simp
  qed
  have spec: "summary_ok (snd (hfs_release_bits i (e div bits_per_iosize m) noErr m)) \<and>
      (summary_bit (snd (hfs_release_bits i (e div bits_per_iosize m) noErr m)) k \<longleftrightarrow>
         summary_bit m k \<and> \<not> (i \<le> k \<and> k \<le> e div bits_per_iosize m))" if "e < totalBlocks m" for i k
    using hfs_release_bits_spec [OF assms summary_index_bound [OF assms that]] by blast
  show "summary_ok (snd (hfs_release_summary m s n))" "summary_bit (snd (hfs_release_summary m s n)) i \<Longrightarrow> summary_bit m i"
    unfolding eq using spec assms by (auto split: if_splits)
  assume n: "0 < n" "s + n \<le> totalBlocks m" "b \<in> run s n"
  then have "e = s + n - 1"
    using t(1) by (simp add: e_def add32_eq sub32_eq)
  moreover have "s < totalBlocks m" "s + n - 1 < totalBlocks m"
    using n(1,2) by linarith+
  ultimately have e: "e = s + n - 1" "s < totalBlocks m" "e < totalBlocks m"
    by simp_all
  have "s div bits_per_iosize m \<le> b div bits_per_iosize m" "b div bits_per_iosize m \<le> e div bits_per_iosize m"
    using n(3) e(1) by (auto intro!: div_le_mono)
  then show "\<not> summary_bit (snd (hfs_release_summary m s n)) (b div bits_per_iosize m)"
    unfolding eq using e spec by simp
qed

lemma hfs_release_summary_sum_only: "sum_only m (snd (hfs_release_summary m s n))"
  using hfs_release_summary_frame [of m s n] by (auto simp: sum_only_def)

lemma hfs_release_summary_off: "\<not> hfs_has_summary m \<Longrightarrow> snd (hfs_release_summary m s n) = m"
  by (simp add: hfs_release_summary_def Let_def)

text \<open>Blocks are given back: their summary bits are released and they go into the cache.\<close>

lemma search_ok_give:
  assumes ok: "search_ok m" and same: "same_search m m1" "reservations_ok m1"
    and tk: "taken_blocks m 0 - run s n \<subseteq> taken_blocks m1 0" "taken_blocks m1 0 \<subseteq> taken_blocks m 0" "run s n \<inter> taken_blocks m1 0 = {}"
    and lim: "s + n \<le> allocLimit m"
  defines "m2 \<equiv> snd (hfs_release_summary m1 s n)"
  shows "search_ok m2" "search_ok (snd (add_free_extent_cache m2 s n))" "srch_only m1 (snd (add_free_extent_cache m2 s n))"
    "fec_blocks (snd (add_free_extent_cache m2 s n)) \<subseteq> fec_blocks m \<union> run s n"
proof -
  note f = same_search_facts [OF same(1)]
  have vol: "volume_ok m1" "allocLimit m \<le> totalBlocks m"
    using static_volume [OF f(1) _ same(2)] ok by (auto simp: search_ok_def volume_ok_def)
  have only: "sum_only m1 m2"
    unfolding m2_def by (rule hfs_release_summary_sum_only)
  note o = sum_only_same [OF only] sum_only_volume [OF only]
  have tru: "summary_true m2"
  proof (cases "hfs_has_summary m1")
    case False
    then show ?thesis
      using hfs_release_summary_off [of m1 s n] by (simp add: m2_def summary_true_def)
  next
    case True
    then have sok: "summary_ok m1" "\<And>b. b < totalBlocks m \<Longrightarrow> summary_bit m (b div bits_per_iosize m) \<Longrightarrow> b \<in> taken_blocks m 0"
      using ok f by (auto simp: search_ok_def summary_true_def)
    note r = hfs_release_summary_bits [OF sok(1), where s = s and n = n, folded m2_def]
    have "b \<in> taken_blocks m1 0" if b: "b < totalBlocks m1" "summary_bit m2 (b div bits_per_iosize m1)" for b
    proof -
      have "b \<in> taken_blocks m 0"
        using sok(2) [of b] r(2) [OF b(2)] b(1) f by simp
      moreover have "b \<notin> run s n"
        using r(3) [of b] b lim vol(2) f by (cases "n = 0") (auto simp: run_def)
      ultimately show ?thesis
        using tk(1) by blast
    qed
    then show ?thesis
      using r(1) unfolding summary_true_def o(3,7,12) by blast
  qed
  have fec: "fec_ok m1" "fec_blocks m1 \<inter> taken_blocks m1 0 = {}"
    using ok f tk(2) by (auto simp: search_ok_def)
  have fec2: "fec_ok m2" "fec_blocks m2 = fec_blocks m1"
    using only fec(1) by (auto simp: sum_only_def fec_ok_def fec_array_def fec_entries_def fec_blocks_def)
  then show ok2: "search_ok m2"
    using tru vol(1) fec(2) o by (simp add: search_ok_def)
  let ?m3 = "snd (add_free_extent_cache m2 s n)"
  note fo = add_free_extent_cache_only [of m2 s n]
  have "s + n < 4294967296"
    using lim vol(2) ok by (auto simp: search_ok_def volume_ok_def)
  then have fec3: "fec_ok ?m3" "fec_blocks ?m3 \<subseteq> fec_blocks m2 \<union> run s n"
    using add_free_extent_cache_result [OF fec2(1), of s n] by (auto simp: fec_clip_def)
  then show "fec_blocks ?m3 \<subseteq> fec_blocks m \<union> run s n"
    using fec2(2) f(3) by simp
  from fec3 show "search_ok ?m3"
    using ok2 fec2(2) fec(2) tk(3) srch_only_same(1,2) [OF fec_only_srch [OF fo]] summary_true_fec_only [OF fo] o
    unfolding search_ok_def by auto
  show "srch_only m1 ?m3"
    using srch_only_trans [OF sum_only_srch [OF only] fec_only_srch [OF fo]] .
qed

section \<open>Releasing a reservation\<close>

lemma set_ranges_sel [simp]:
  "hfs_reserved_ranges (set_ranges l rs m) = (hfs_reserved_ranges m)(l := rs)" "vcbBitmap (set_ranges l rs m) = vcbBitmap m"
  "tentativeBlocks (set_ranges l rs m) = tentativeBlocks m" "lockedBlocks (set_ranges l rs m) = lockedBlocks m"
  "allocLimit (set_ranges l rs m) = allocLimit m" "totalBlocks (set_ranges l rs m) = totalBlocks m"
  "freeBlocks (set_ranges l rs m) = freeBlocks m" "same_search m' (set_ranges l rs m) = same_search m' m"
  by (simp_all add: set_ranges_def same_search_def static_def)

lemma counters_same_search [simp]:
  "same_search m' (m\<lparr>tentativeBlocks := a\<rparr>) = same_search m' m" "same_search m' (m\<lparr>lockedBlocks := a\<rparr>) = same_search m' m"
  "same_search m m"
  by (simp_all add: same_search_def static_def)

lemma taken_blocks_0: "taken_blocks m 0 = bm_set (vcbBitmap m) \<union> entry_blocks (tentative m) \<union> entry_blocks (locked m)"
  by (auto simp: taken_blocks_def reserved_blocks_def ISSET_def)

lemma reserved_okD:
  assumes "reserved_slack t k m"
  shows "ranges_ok (allocLimit m) (tentative m)" "ranges_ok (allocLimit m) (locked m)"
    "entry_blocks (tentative m) \<inter> entry_blocks (locked m) = {}" "entry_blocks (tentative m) \<inter> bm_set (vcbBitmap m) = {}"
    "entry_blocks (locked m) \<inter> bm_set (vcbBitmap m) = {}" "tentativeBlocks m = blocks_of (tentative m) + t" "lockedBlocks m = blocks_of (locked m) + k"
    "tentativeBlocks m < 4294967296" "lockedBlocks m < 4294967296"
    "reservations_ok m"
proof -
  show r: "ranges_ok (allocLimit m) (tentative m)" "ranges_ok (allocLimit m) (locked m)"
    "entry_blocks (tentative m) \<inter> entry_blocks (locked m) = {}" "entry_blocks (tentative m) \<inter> bm_set (vcbBitmap m) = {}"
    "entry_blocks (locked m) \<inter> bm_set (vcbBitmap m) = {}" "tentativeBlocks m = blocks_of (tentative m) + t" "lockedBlocks m = blocks_of (locked m) + k"
    "tentativeBlocks m < 4294967296" "lockedBlocks m < 4294967296"
    using assms by (auto simp: reserved_slack_def ranges_ok_append)
  show "reservations_ok m"
    using r(1,2) range_ok_entries by (auto simp: reservations_ok_def ranges_ok_def)
qed

lemma reserved_okI:
  assumes "ranges_ok (allocLimit m) (tentative m)" "ranges_ok (allocLimit m) (locked m)"
    "entry_blocks (tentative m) \<inter> entry_blocks (locked m) = {}" "entry_blocks (tentative m) \<inter> bm_set (vcbBitmap m) = {}"
    "entry_blocks (locked m) \<inter> bm_set (vcbBitmap m) = {}" "tentativeBlocks m = blocks_of (tentative m) + t" "lockedBlocks m = blocks_of (locked m) + k"
    "tentativeBlocks m < 4294967296" "lockedBlocks m < 4294967296"
  shows "reserved_slack t k m"
  using assms by (auto simp: reserved_slack_def ranges_ok_append)

lemma srch_only_reserved:
  assumes "srch_only m m'"
  shows "hfs_reserved_ranges m' = hfs_reserved_ranges m" "vcbBitmap m' = vcbBitmap m" "tentativeBlocks m' = tentativeBlocks m"
    "lockedBlocks m' = lockedBlocks m" "freeBlocks m' = freeBlocks m" "reserved_slack t k m' = reserved_slack t k m" "static m m'"
    "jnl_trims m' = jnl_trims m"
  using assms by (auto simp: srch_only_def reserved_slack_def static_def)

lemma remove1_ranges:
  assumes "ranges_ok limit es" "e \<in> set es"
  shows "ranges_ok limit (remove1 e es)" "entry_blocks (remove1 e es) = entry_blocks es - entry_blocks [e]" "range_ok limit e"
    "blocks_of (remove1 e es) = blocks_of es - nat (rl_len e)"
proof -
  obtain xs ys where es: "es = xs @ e # ys" "e \<notin> set xs"
    using split_list_first [OF assms(2)] by blast
  note p = ranges_ok_perm [OF assms(1) [unfolded es(1)]]
  have rm: "remove1 e es = xs @ ys"
    using es by (simp add: remove1_append)
  show "ranges_ok limit (remove1 e es)" "range_ok limit e"
    using p rm by simp_all
  show "entry_blocks (remove1 e es) = entry_blocks es - entry_blocks [e]"
    using p(3) unfolding rm by (auto simp: es(1) entry_blocks_Cons [of e ys])
  show "blocks_of (remove1 e es) = blocks_of es - nat (rl_len e)"
    using blocks_of_remove [OF assms] by simp
qed

definition give_result :: "nat \<Rightarrow> nat \<Rightarrow> hfsmount \<Rightarrow> hfs_reserved_type \<Rightarrow> rl_entry list \<Rightarrow> nat set \<Rightarrow> hfsmount \<Rightarrow> bool" where
  "give_result t k m l rs given m' \<longleftrightarrow> search_ok m' \<and> reserved_slack t k m' \<and> static m m' \<and> vcbBitmap m' = vcbBitmap m \<and>
     freeBlocks m' = freeBlocks m \<and> jnl_trims m' = jnl_trims m \<and> hfs_reserved_ranges m' = (hfs_reserved_ranges m)(l := rs) \<and>
     taken_blocks m' 0 = taken_blocks m 0 - given \<and> fec_blocks m' \<subseteq> fec_blocks m \<union> given"

lemma hfs_release_reserved_spec:
  assumes ok: "search_ok m" "reserved_slack t k m" and r: "rng \<in> set (hfs_reserved_ranges m l)"
  shows "give_result t k m l (remove1 rng (hfs_reserved_ranges m l)) (entry_blocks [rng]) (fst (hfs_release_reserved m rng l))"
    "snd (hfs_release_reserved m rng l) = rl_make (- 1) (- 2)"
proof -
  note d = reserved_okD [OF ok(2)]
  have rok: "ranges_ok (allocLimit m) (hfs_reserved_ranges m l)"
    using d(1,2) by (cases l) simp_all
  note rm = remove1_ranges [OF rok r]
  note er = entry_run [OF rm(3)]
  let ?s = "nat (rl_start rng)" and ?n = "nat (rl_len rng)" and ?rs = "remove1 rng (hfs_reserved_ranges m l)"
  define m1 where "m1 = (let m1 = set_ranges l ?rs m in if l = HFS_TENTATIVE_BLOCKS
      then m1\<lparr>tentativeBlocks := sub32 (tentativeBlocks m1) ?n\<rparr> else m1\<lparr>lockedBlocks := sub32 (lockedBlocks m1) ?n\<rparr>)"
  define m2 where "m2 = snd (add_free_extent_cache (snd (hfs_release_summary m1 ?s ?n)) ?s ?n)"
  have start: "rl_start rng \<noteq> - 1"
    using rm(3) by (simp add: range_ok_def)
  have eq: "hfs_release_reserved m rng l = (m2, rl_make (- 1) (- 2))"
    using start er(3) by (simp add: hfs_release_reserved_def m1_def m2_def Let_def)
  have small: "?n \<le> blocks_of (hfs_reserved_ranges m l)"
    using blocks_of_remove [OF rok r] by simp
  have m1: "hfs_reserved_ranges m1 = (hfs_reserved_ranges m)(l := ?rs)" "vcbBitmap m1 = vcbBitmap m" "same_search m m1"
    "freeBlocks m1 = freeBlocks m" "jnl_trims m1 = jnl_trims m" "allocLimit m1 = allocLimit m"
    by (auto simp: m1_def Let_def set_ranges_def same_search_def static_def)
  have tk: "taken_blocks m1 0 = taken_blocks m 0 - entry_blocks [rng]"
    using rm(2) d(3-5) entry_blocks_sub [OF r] unfolding taken_blocks_0 m1 by (cases l) auto
  have res1: "reserved_slack t k m1"
  proof (rule reserved_okI)
    show "tentativeBlocks m1 = blocks_of (tentative m1) + t" "lockedBlocks m1 = blocks_of (locked m1) + k"
      "tentativeBlocks m1 < 4294967296" "lockedBlocks m1 < 4294967296"
      using rm(4) d(6-9) small unfolding m1 by (cases l; simp add: m1_def Let_def sub32_eq)+
  qed (use rm(1,2) d m1 in \<open>cases l; auto\<close>)+
  note g = search_ok_give [OF ok(1) m1(3) reserved_okD(10) [OF res1], of ?s ?n, folded m2_def]
  have ok2: "search_ok m2" "srch_only m1 m2" "fec_blocks m2 \<subseteq> fec_blocks m \<union> entry_blocks [rng]"
    using g(2-4) tk er(1,2) by auto
  have "static m m1"
    by (rule same_search_facts(1) [OF m1(3)])
  then show "give_result t k m l ?rs (entry_blocks [rng]) (fst (hfs_release_reserved m rng l))"
    using ok2 res1 m1 tk srch_only_reserved [OF ok2(2)] srch_only_same(2) [OF ok2(2)] static_trans
    by (simp add: eq give_result_def)
  show "snd (hfs_release_reserved m rng l) = rl_make (- 1) (- 2)"
    by (simp add: eq)
qed

section \<open>Adding a reservation\<close>

lemma give_result_refl:
  "search_ok m \<Longrightarrow> reserved_slack t k m \<Longrightarrow> give_result t k m l (hfs_reserved_ranges m l) {} m"
  by (simp add: give_result_def)

lemma give_result_trans:
  "give_result t k m l rs a m1 \<Longrightarrow> give_result t k m1 l rs' b m2 \<Longrightarrow> give_result t k m l rs' (a \<union> b) m2"
  by (auto simp: give_result_def static_trans)

text \<open>At most three tentative ranges are left before a new one is added.\<close>

lemma release_old_tentative_spec:
  assumes "search_ok m" "reserved_slack t k m" "tentative m = before @ rest" "length before = min 3 n"
  shows "give_result t k m HFS_TENTATIVE_BLOCKS (before @ take (3 - n) rest) (entry_blocks (drop (3 - n) rest))
    (release_old_tentative n rest m)"
  using assms
proof (induction n rest m arbitrary: before rule: release_old_tentative.induct)
  case (1 n m)
  then show ?case
    using give_result_refl [of m t k HFS_TENTATIVE_BLOCKS] by simp
next
  case (2 n rng rest m)
  show ?case
  proof (cases "n < 3")
    case True
    then have "tentative m = (before @ [rng]) @ rest" "length (before @ [rng]) = min 3 (n + 1)"
      using "2.prems"(3,4) by simp_all
    moreover have "3 - n = Suc (3 - (n + 1))"
      using True by simp
    ultimately show ?thesis
      using "2.IH" [of "before @ [rng]"] "2.prems"(1,2) True by (simp del: diff_Suc_Suc)
  next
    case False
    let ?m = "fst (hfs_release_reserved m rng HFS_TENTATIVE_BLOCKS)"
    have rng: "rng \<in> set (tentative m)" "rng \<notin> set (before @ rest)"
      using "2.prems"(3) ranges_ok_perm(4) [of "allocLimit m" before rng rest] reserved_okD(1) [OF "2.prems"(2)] by simp_all
    then have rm: "remove1 rng (tentative m) = before @ rest"
      using "2.prems"(3) by (simp add: remove1_append)
    note g = hfs_release_reserved_spec(1) [OF "2.prems"(1,2) rng(1), unfolded rm]
    then have "search_ok ?m" "reserved_slack t k ?m" "tentative ?m = before @ rest"
      by (simp_all add: give_result_def)
    then have "give_result t k ?m HFS_TENTATIVE_BLOCKS before (entry_blocks rest) (release_old_tentative (n + 1) rest ?m)"
      using "2.IH" [of before] False "2.prems"(4) by simp
    from give_result_trans [OF g this] show ?thesis
      using False by (simp add: entry_blocks_Cons [of rng rest])
  qed
qed

lemma add_to_reserved_list_spec:
  assumes ok: "search_ok m" "reserved_slack t k m" and n: "0 < n" "s + n \<le> allocLimit m"
    and free: "run s n \<inter> taken_blocks m 0 = {}" "run s n \<inter> fec_blocks m = {}"
    and cnt: "if l = HFS_TENTATIVE_BLOCKS then t = t' + n \<and> k = k' else t = t' \<and> k = k' + n"
  defines "r \<equiv> add_to_reserved_list m s n l"
  defines "old \<equiv> if l = HFS_TENTATIVE_BLOCKS then entry_blocks (drop 3 (tentative m)) else {}"
  shows "search_ok (fst r)" "reserved_slack t' k' (fst r)" "static m (fst r)" "vcbBitmap (fst r) = vcbBitmap m"
    "freeBlocks (fst r) = freeBlocks m" "jnl_trims (fst r) = jnl_trims m"
    "snd r = rl_make (int s) (int (s + n - 1))" "entry_blocks [snd r] = run s n"
    "hfs_reserved_ranges (fst r) = (hfs_reserved_ranges m)(l := snd r # (if l = HFS_TENTATIVE_BLOCKS then take 3 (tentative m) else locked m))"
    "taken_blocks (fst r) 0 = (taken_blocks m 0 - old) \<union> run s n" "fec_blocks (fst r) \<subseteq> fec_blocks m \<union> old"
proof -
  define m1 where "m1 = (if l = HFS_TENTATIVE_BLOCKS then release_old_tentative 0 (tentative m) m else m)"
  define rs where "rs = (if l = HFS_TENTATIVE_BLOCKS then take 3 (tentative m) else locked m)"
  have g: "give_result t k m l rs old m1"
    using release_old_tentative_spec [OF ok, of "[]" "tentative m" 0] give_result_refl [OF ok, of l]
    by (cases l) (simp_all add: m1_def rs_def old_def)
  then have m1: "search_ok m1" "reserved_slack t k m1" "static m m1" "vcbBitmap m1 = vcbBitmap m" "freeBlocks m1 = freeBlocks m"
    "jnl_trims m1 = jnl_trims m" "hfs_reserved_ranges m1 = (hfs_reserved_ranges m)(l := rs)" "taken_blocks m1 0 = taken_blocks m 0 - old"
    "fec_blocks m1 \<subseteq> fec_blocks m \<union> old"
    by (simp_all add: give_result_def)
  have al: "allocLimit m < 4294967296" "allocLimit m1 = allocLimit m"
    using ok(1) m1(3) by (auto simp: search_ok_def fec_ok_def static_def)
  define rng where "rng = rl_make (int s) (int (s + n - 1))"
  have "sub32 (add32 s n) 1 = s + n - 1"
    using n al by (simp add: add32_eq sub32_eq)
  then have r: "r = (set_ranges l (rng # rs) m1, rng)"
    using m1(7) unfolding r_def add_to_reserved_list_def Let_def m1_def [symmetric] rng_def by simp
  have rg: "range_ok (allocLimit m) rng" "entry_blocks [rng] = run s n" "nat (rl_len rng) = n" "0 \<le> rl_len rng"
    using n by (auto simp: rng_def range_ok_def entry_blocks_def rl_make_def rl_len_def run_def)
  note d = reserved_okD [OF m1(2)]
  have rsok: "ranges_ok (allocLimit m) rs" "entry_blocks rs \<subseteq> taken_blocks m1 0"
    using d(1,2) m1(7) al unfolding taken_blocks_0 by (cases l; auto)+
  have dis: "run s n \<inter> taken_blocks m1 0 = {}"
    using free(1) m1(8) by blast
  have cons: "ranges_ok (allocLimit m) (rng # rs)" "blocks_of (rng # rs) = n + blocks_of rs"
    using rsok rg dis blocks_of_Cons [of rng rs] ranges_ok_len [OF rsok(1)] by (fastforce simp: ranges_ok_Cons)+
  have tk: "taken_blocks (fst r) 0 = taken_blocks m1 0 \<union> run s n"
    unfolding taken_blocks_0 r using m1(7) rg(2) by (cases l) (auto simp: entry_blocks_Cons [of rng rs])
  have slack: "reserved_slack t' k' (fst r)"
  proof (rule reserved_okI)
    show "tentativeBlocks (fst r) = blocks_of (tentative (fst r)) + t'" "lockedBlocks (fst r) = blocks_of (locked (fst r)) + k'"
      "tentativeBlocks (fst r) < 4294967296" "lockedBlocks (fst r) < 4294967296"
      using d(6-9) cnt cons(2) m1(7) unfolding r by (cases l; simp)+
    show "ranges_ok (allocLimit (fst r)) (tentative (fst r))" "ranges_ok (allocLimit (fst r)) (locked (fst r))"
      using d(1,2) cons(1) m1(7) al unfolding r by (cases l; simp)+
  qed (use d(3-5) dis rg(2) m1(7) in \<open>cases l; auto simp: r taken_blocks_0 entry_blocks_Cons [of rng rs]\<close>)+
  have same: "same_search m1 (fst r)"
    unfolding r by simp
  have "entry_blocks (drop 3 (tentative m)) \<subseteq> entry_blocks (tentative m)"
    by (auto simp: entry_blocks_def dest: in_set_dropD)
  then have "old \<subseteq> taken_blocks m 0"
    by (auto simp: old_def taken_blocks_0)
  then have "fec_blocks m1 \<inter> run s n = {}"
    using m1(9) free by blast
  then have "fec_blocks m1 \<inter> taken_blocks (fst r) 0 = {}"
    using m1(1) unfolding tk search_ok_def by blast
  then show "search_ok (fst r)"
    using search_ok_take [OF m1(1) same reserved_okD(10) [OF slack]] tk by blast
  show "reserved_slack t' k' (fst r)"
    by (rule slack)
  show "static m (fst r)"
    using static_trans [OF m1(3) same_search_facts(1) [OF same]] .
  show "vcbBitmap (fst r) = vcbBitmap m" "freeBlocks (fst r) = freeBlocks m" "snd r = rl_make (int s) (int (s + n - 1))"
    "entry_blocks [snd r] = run s n"
    using m1 rg(2) by (simp_all add: r rng_def)
  show "jnl_trims (fst r) = jnl_trims m"
    using m1(6) by (simp add: r set_ranges_def)
  show "hfs_reserved_ranges (fst r) = (hfs_reserved_ranges m)(l := snd r # (if l = HFS_TENTATIVE_BLOCKS then take 3 (tentative m) else locked m))"
    using m1(7) by (simp add: r rs_def)
  show "taken_blocks (fst r) 0 = (taken_blocks m 0 - old) \<union> run s n"
    using tk m1(8) by simp
  show "fec_blocks (fst r) \<subseteq> fec_blocks m \<union> old"
    using m1(9) same_search_facts(3) [OF same] by simp
qed

section \<open>Stealing tentative blocks\<close>

lemma hfs_release_bits_set_ranges:
  "hfs_release_bits i e err (set_ranges l rs m) = map_prod id (set_ranges l rs) (hfs_release_bits i e err m)"
proof (induction i e err m rule: hfs_release_bits.induct)
  case (1 i e err m)
  have set: "hfs_set_summary (set_ranges l rs m) i 0 = map_prod id (set_ranges l rs) (hfs_set_summary m i 0)"
    by (simp add: hfs_set_summary_def set_ranges_def Let_def)
  show ?case
    using "1.IH" [OF _ refl prod.collapse]
    by (subst (1 2) hfs_release_bits.simps) (simp add: set split_def Let_def map_prod_def)
qed

lemma hfs_release_summary_set_ranges:
  "snd (hfs_release_summary (set_ranges l rs m) s n) = set_ranges l rs (snd (hfs_release_summary m s n))"
proof -
  have "hfs_get_summary_index (set_ranges l rs m) = hfs_get_summary_index m" "hfs_flags (set_ranges l rs m) = hfs_flags m"
    by (simp_all add: hfs_get_summary_index_def set_ranges_def fun_eq_iff)
  then show ?thesis
    by (auto simp: hfs_release_summary_def Let_def hfs_release_bits_set_ranges split: sum.splits)
qed

text \<open>
  The state of the loop: the blocks \<open>run s n\<close> were claimed, in the bitmap or as a locked range, and only they may be in
  tentative ranges as well; the ranges seen so far do not hold them any more.
\<close>

definition steal_inv :: "nat \<Rightarrow> nat \<Rightarrow> rl_entry list \<Rightarrow> rl_entry list \<Rightarrow> hfsmount \<Rightarrow> bool" where
  "steal_inv s n before todo m \<longleftrightarrow> search_ok m \<and> tentative m = before @ todo \<and> ranges_ok (allocLimit m) (before @ todo) \<and>
     ranges_ok (allocLimit m) (locked m) \<and> entry_blocks before \<inter> run s n = {} \<and>
     entry_blocks (tentative m) \<inter> (bm_set (vcbBitmap m) \<union> entry_blocks (locked m)) \<subseteq> run s n \<and>
     run s n \<subseteq> bm_set (vcbBitmap m) \<union> entry_blocks (locked m) \<and>
     tentativeBlocks m = blocks_of (tentative m) \<and> tentativeBlocks m < 4294967296"

definition steal_frame :: "hfsmount \<Rightarrow> hfsmount \<Rightarrow> bool" where
  "steal_frame m m' \<longleftrightarrow> static m m' \<and> vcbBitmap m' = vcbBitmap m \<and> freeBlocks m' = freeBlocks m \<and> jnl_trims m' = jnl_trims m \<and>
     locked m' = locked m \<and> lockedBlocks m' = lockedBlocks m \<and> entry_blocks (tentative m') \<subseteq> entry_blocks (tentative m)"

lemma steal_frame_refl [simp]: "steal_frame m m"
  by (simp add: steal_frame_def)

lemma steal_frame_trans: "steal_frame m m1 \<Longrightarrow> steal_frame m1 m2 \<Longrightarrow> steal_frame m m2"
  by (auto simp: steal_frame_def static_trans)

text \<open>The mount with a range replaced by what is left of it (\<open>keep\<close>: the range or nothing).\<close>

definition steal_put :: "rl_entry list \<Rightarrow> rl_entry list \<Rightarrow> rl_entry list \<Rightarrow> nat \<Rightarrow> hfsmount \<Rightarrow> hfsmount" where
  "steal_put before keep rest lost m =
     set_ranges HFS_TENTATIVE_BLOCKS (before @ keep @ rest) (m\<lparr>tentativeBlocks := sub32 (tentativeBlocks m) lost\<rparr>)"

lemma steal_put_facts:
  assumes inv: "steal_inv s n before (rng # rest) m" and keep: "ranges_ok (allocLimit m) keep"
    "entry_blocks keep \<subseteq> entry_blocks [rng] - run s n" "blocks_of keep + lost = nat (rl_len rng)"
  defines "m1 \<equiv> steal_put before keep rest lost m"
  shows "same_search m m1" "reservations_ok m1" "tentative m1 = before @ keep @ rest" "ranges_ok (allocLimit m) (before @ keep @ rest)"
    "tentativeBlocks m1 = blocks_of (tentative m1)" "tentativeBlocks m1 < 4294967296"
    "taken_blocks m 0 = taken_blocks m1 0 \<union> (entry_blocks [rng] - entry_blocks keep)" "steal_frame m m1"
    "entry_blocks (before @ keep) \<inter> run s n = {}"
proof -
  have i: "ranges_ok (allocLimit m) (before @ rng # rest)" "tentative m = before @ rng # rest" "ranges_ok (allocLimit m) (locked m)"
    "tentativeBlocks m = blocks_of (tentative m)" "tentativeBlocks m < 4294967296" "entry_blocks before \<inter> run s n = {}"
    using inv unfolding steal_inv_def by blast+
  note p = ranges_ok_perm [OF i(1)]
  show m1: "same_search m m1" "tentative m1 = before @ keep @ rest"
    by (simp_all add: m1_def steal_put_def)
  have oth: "locked m1 = locked m" "vcbBitmap m1 = vcbBitmap m" "freeBlocks m1 = freeBlocks m" "jnl_trims m1 = jnl_trims m"
    "lockedBlocks m1 = lockedBlocks m"
    by (simp_all add: m1_def steal_put_def set_ranges_def)
  show ok: "ranges_ok (allocLimit m) (before @ keep @ rest)"
    using i(1) keep(1,2) p by (auto simp: ranges_ok_append ranges_ok_Cons entry_blocks_Cons [of rng rest])
  show "reservations_ok m1"
    using ok i(3) range_ok_entries unfolding reservations_ok_def m1(2) oth ranges_ok_def by blast
  have nonneg: "\<forall>e\<in>set (before @ rng # rest). 0 \<le> rl_len e" "\<forall>e\<in>set (before @ keep @ rest). 0 \<le> rl_len e"
    using ranges_ok_len [OF i(1)] ranges_ok_len [OF ok] by (meson less_imp_le)+
  then have "blocks_of (before @ rng # rest) = blocks_of before + nat (rl_len rng) + blocks_of rest"
    "blocks_of (before @ keep @ rest) = blocks_of before + blocks_of keep + blocks_of rest"
    using blocks_of_append [of before "rng # rest"] blocks_of_Cons [of rng rest] blocks_of_append [of before "keep @ rest"]
      blocks_of_append [of keep rest] by simp_all
  then have "blocks_of (before @ keep @ rest) + lost = tentativeBlocks m"
    using keep(3) i(4) unfolding i(2) by simp
  then show "tentativeBlocks m1 = blocks_of (tentative m1)" "tentativeBlocks m1 < 4294967296"
    using i(5) by (auto simp: m1_def steal_put_def sub32_eq)
  show "taken_blocks m 0 = taken_blocks m1 0 \<union> (entry_blocks [rng] - entry_blocks keep)"
    using keep(2) i(2) unfolding taken_blocks_0 m1(2) oth by (auto simp: entry_blocks_Cons [of rng rest])
  show "steal_frame m m1"
    using same_search_facts(1) [OF m1(1)] oth keep(2) i(2) by (auto simp: steal_frame_def m1(2) entry_blocks_Cons [of rng rest])
  show "entry_blocks (before @ keep) \<inter> run s n = {}"
    using i(6) keep(2) by auto
qed

lemma steal_step:
  assumes inv: "steal_inv s n before (rng # rest) m" and keep: "ranges_ok (allocLimit m) keep"
    "entry_blocks keep \<subseteq> entry_blocks [rng] - run s n" "blocks_of keep + lost = nat (rl_len rng)"
    and lost: "entry_blocks [rng] - entry_blocks keep \<subseteq> run s n"
  shows "steal_inv s n (before @ keep) rest (steal_put before keep rest lost m)" "steal_frame m (steal_put before keep rest lost m)"
proof -
  note f = steal_put_facts [OF inv keep]
  let ?m1 = "steal_put before keep rest lost m"
  have i: "search_ok m" "run s n \<subseteq> bm_set (vcbBitmap m) \<union> entry_blocks (locked m)" "ranges_ok (allocLimit m) (locked m)"
    "entry_blocks (tentative m) \<inter> (bm_set (vcbBitmap m) \<union> entry_blocks (locked m)) \<subseteq> run s n"
    using inv unfolding steal_inv_def by blast+
  have oth: "allocLimit ?m1 = allocLimit m" "vcbBitmap ?m1 = vcbBitmap m" "locked ?m1 = locked m"
    "entry_blocks (tentative ?m1) \<subseteq> entry_blocks (tentative m)"
    using f(8) by (simp_all add: steal_frame_def static_def)
  have "run s n \<subseteq> taken_blocks ?m1 0"
    using i(2) unfolding taken_blocks_0 oth by auto
  then have tk: "taken_blocks ?m1 0 = taken_blocks m 0"
    using f(7) lost by blast
  have "search_ok ?m1"
    using search_ok_take [OF i(1) f(1,2)] i(1) unfolding tk by (simp add: search_ok_def)
  then show "steal_inv s n (before @ keep) rest ?m1"
    using f(3-6,9) i(2-4) oth unfolding steal_inv_def by auto
  show "steal_frame m ?m1"
    by (rule f(8))
qed

lemma steal_give:
  assumes inv: "steal_inv s n before (rng # rest) m" and keep: "ranges_ok (allocLimit m) keep"
    "entry_blocks keep \<subseteq> entry_blocks [rng] - run s n" "blocks_of keep + lost = nat (rl_len rng)"
    and give: "entry_blocks [rng] - entry_blocks keep \<subseteq> run s n \<union> run g k" "run g k \<subseteq> entry_blocks [rng] - run s n - entry_blocks keep"
    and lim: "g + k \<le> allocLimit m"
  defines "m1 \<equiv> steal_put before keep rest lost m"
  defines "m3 \<equiv> snd (add_free_extent_cache (snd (hfs_release_summary m1 g k)) g k)"
  shows "steal_inv s n (before @ keep) rest m3" "steal_frame m m3"
proof -
  note f = steal_put_facts [OF inv keep, folded m1_def]
  have i: "search_ok m" "run s n \<subseteq> bm_set (vcbBitmap m) \<union> entry_blocks (locked m)" "ranges_ok (allocLimit m) (locked m)"
    "entry_blocks (tentative m) \<inter> (bm_set (vcbBitmap m) \<union> entry_blocks (locked m)) \<subseteq> run s n"
    "ranges_ok (allocLimit m) (before @ rng # rest)" "tentative m = before @ rng # rest"
    using inv unfolding steal_inv_def by blast+
  have oth: "allocLimit m1 = allocLimit m" "vcbBitmap m1 = vcbBitmap m" "locked m1 = locked m"
    "entry_blocks (tentative m1) \<subseteq> entry_blocks (tentative m)"
    using f(8) by (simp_all add: steal_frame_def static_def)
  have claimed: "run s n \<subseteq> taken_blocks m1 0"
    using i(2) unfolding taken_blocks_0 oth by auto
  have rng: "entry_blocks [rng] \<subseteq> entry_blocks (tentative m)"
    unfolding i(6) by (rule entry_blocks_sub) simp
  have "run g k \<inter> entry_blocks (before @ keep @ rest) = {}"
    using give(2) ranges_ok_perm(3) [OF i(5)] by auto
  moreover have "run g k \<inter> (bm_set (vcbBitmap m) \<union> entry_blocks (locked m)) = {}"
    using give(2) i(4) rng by blast
  ultimately have free: "run g k \<inter> taken_blocks m1 0 = {}"
    unfolding taken_blocks_0 oth f(3) by blast
  have sub: "taken_blocks m 0 - run g k \<subseteq> taken_blocks m1 0" "taken_blocks m1 0 \<subseteq> taken_blocks m 0"
    using f(7) give(1) claimed by blast+
  note g = search_ok_give [OF i(1) f(1,2) sub free lim, folded m3_def]
  note same = srch_only_reserved [OF g(3)] srch_only_same [OF g(3)]
  show "steal_inv s n (before @ keep) rest m3"
    using g(2) f(3-6,9) i(2-4) oth unfolding steal_inv_def same by auto
  have "steal_frame m1 m3"
    unfolding steal_frame_def same by (simp add: same(7))
  then show "steal_frame m m3"
    by (rule steal_frame_trans [OF f(8)])
qed

text \<open>The cases of the overlap, for the range \<open>s\<close> to \<open>s + n - 1\<close>.\<close>

lemma cut_blocks:
  "x \<in> entry_blocks [r\<lparr>rl_end := b\<rparr>] \<longleftrightarrow> rl_start r \<le> int x \<and> int x \<le> b"
  "x \<in> entry_blocks [r\<lparr>rl_start := a\<rparr>] \<longleftrightarrow> a \<le> int x \<and> int x \<le> rl_end r"
  "x \<in> entry_blocks [r] \<longleftrightarrow> rl_start r \<le> int x \<and> int x \<le> rl_end r"
  "x \<in> run s n \<longleftrightarrow> int s \<le> int x \<and> int x < int s + int n"
  by (auto simp: entry_blocks_def run_def)

lemma one_range:
  "range_ok limit r \<Longrightarrow> ranges_ok limit [r]" "0 \<le> rl_len r \<Longrightarrow> blocks_of [r] = nat (rl_len r)"
  by (simp_all add: ranges_ok_Cons blocks_of_def)

lemma steal_inv_range:
  assumes "steal_inv s n before (rng # rest) m"
  shows "range_ok (allocLimit m) rng" "allocLimit m < 4294967296"
  using assms ranges_ok_perm(2) unfolding steal_inv_def search_ok_def fec_ok_def by blast+

lemma steal_prefix:
  assumes inv: "steal_inv s n before (rng # rest) m" and ov: "rl_start rng < int s" "rl_end rng < int s + int n" "int s \<le> rl_end rng"
  defines "rng' \<equiv> rng\<lparr>rl_end := int s - 1\<rparr>" and "m1 \<equiv> steal_put before [rng\<lparr>rl_end := int s - 1\<rparr>] rest (nat (rl_end rng + 1 - int s)) m"
  shows "steal_inv s n (before @ [rng']) rest m1" "steal_frame m m1"
proof -
  note r = steal_inv_range [OF inv]
  have r': "range_ok (allocLimit m) rng'" "0 \<le> rl_len rng'"
    using r(1) ov by (auto simp: rng'_def range_ok_def rl_len_def)
  have k: "ranges_ok (allocLimit m) [rng']" "entry_blocks [rng'] \<subseteq> entry_blocks [rng] - run s n"
    "blocks_of [rng'] + nat (rl_end rng + 1 - int s) = nat (rl_len rng)" "entry_blocks [rng] - entry_blocks [rng'] \<subseteq> run s n"
    using one_range(1) [OF r'(1)] one_range(2) [OF r'(2)] r' ov by (auto simp: rng'_def cut_blocks rl_len_def nat_add_distrib [symmetric])
  show "steal_inv s n (before @ [rng']) rest m1" "steal_frame m m1"
    using steal_step [OF inv k] by (simp_all add: m1_def rng'_def)
qed

lemma steal_suffix:
  assumes inv: "steal_inv s n before (rng # rest) m" and ov: "int s \<le> rl_start rng" "rl_start rng < int s + int n" "int s + int n \<le> rl_end rng"
  defines "rng' \<equiv> rng\<lparr>rl_start := int s + int n\<rparr>" and "m1 \<equiv> steal_put before [rng\<lparr>rl_start := int s + int n\<rparr>] rest (nat (int s + int n - rl_start rng)) m"
  shows "steal_inv s n (before @ [rng']) rest m1" "steal_frame m m1"
proof -
  note r = steal_inv_range [OF inv]
  have r': "range_ok (allocLimit m) rng'" "0 \<le> rl_len rng'"
    using r(1) ov by (auto simp: rng'_def range_ok_def rl_len_def)
  have k: "ranges_ok (allocLimit m) [rng']" "entry_blocks [rng'] \<subseteq> entry_blocks [rng] - run s n"
    "blocks_of [rng'] + nat (int s + int n - rl_start rng) = nat (rl_len rng)" "entry_blocks [rng] - entry_blocks [rng'] \<subseteq> run s n"
    using one_range(1) [OF r'(1)] one_range(2) [OF r'(2)] r' ov by (auto simp: rng'_def cut_blocks rl_len_def nat_add_distrib [symmetric])
  show "steal_inv s n (before @ [rng']) rest m1" "steal_frame m m1"
    using steal_step [OF inv k] by (simp_all add: m1_def rng'_def)
qed

lemma steal_inside_tail:
  assumes inv: "steal_inv s n before (rng # rest) m" and ov: "rl_start rng < int s" "int s + int n \<le> rl_end rng + 1" "0 < n"
  defines "rng' \<equiv> rng\<lparr>rl_end := int s - 1\<rparr>" and "k \<equiv> nat (rl_end rng + 1 - (int s + int n))"
  defines "m1 \<equiv> steal_put before [rng\<lparr>rl_end := int s - 1\<rparr>] rest (nat (rl_end rng + 1 - int s)) m"
  defines "m3 \<equiv> snd (add_free_extent_cache (snd (hfs_release_summary m1 (s + n) k)) (s + n) k)"
  shows "steal_inv s n (before @ [rng']) rest m3" "steal_frame m m3"
proof -
  note r = steal_inv_range [OF inv]
  have r': "range_ok (allocLimit m) rng'" "0 \<le> rl_len rng'"
    using r(1) ov by (auto simp: rng'_def range_ok_def rl_len_def)
  have k: "ranges_ok (allocLimit m) [rng']" "entry_blocks [rng'] \<subseteq> entry_blocks [rng] - run s n"
    "blocks_of [rng'] + nat (rl_end rng + 1 - int s) = nat (rl_len rng)"
    "entry_blocks [rng] - entry_blocks [rng'] \<subseteq> run s n \<union> run (s + n) k"
    "run (s + n) k \<subseteq> entry_blocks [rng] - run s n - entry_blocks [rng']" "s + n + k \<le> allocLimit m"
    using one_range(1) [OF r'(1)] one_range(2) [OF r'(2)] r' ov r(1) by (auto simp: rng'_def k_def cut_blocks rl_len_def range_ok_def nat_add_distrib [symmetric])
  show "steal_inv s n (before @ [rng']) rest m3" "steal_frame m m3"
    using steal_give [OF inv k] by (simp_all add: m1_def m3_def rng'_def)
qed

lemma steal_inside_head:
  assumes inv: "steal_inv s n before (rng # rest) m" and ov: "rl_start rng \<le> int s" "int s + int n \<le> rl_end rng" "0 < n"
  defines "rng' \<equiv> rng\<lparr>rl_start := int s + int n\<rparr>" and "g \<equiv> nat (rl_start rng)" and "k \<equiv> nat (int s - rl_start rng)"
  defines "m1 \<equiv> steal_put before [rng\<lparr>rl_start := int s + int n\<rparr>] rest (nat (int s + int n - rl_start rng)) m"
  defines "m3 \<equiv> snd (add_free_extent_cache (snd (hfs_release_summary m1 g k)) g k)"
  shows "steal_inv s n (before @ [rng']) rest m3" "steal_frame m m3"
proof -
  note r = steal_inv_range [OF inv]
  have r': "range_ok (allocLimit m) rng'" "0 \<le> rl_len rng'"
    using r(1) ov by (auto simp: rng'_def range_ok_def rl_len_def)
  have k: "ranges_ok (allocLimit m) [rng']" "entry_blocks [rng'] \<subseteq> entry_blocks [rng] - run s n"
    "blocks_of [rng'] + nat (int s + int n - rl_start rng) = nat (rl_len rng)"
    "entry_blocks [rng] - entry_blocks [rng'] \<subseteq> run s n \<union> run g k"
    "run g k \<subseteq> entry_blocks [rng] - run s n - entry_blocks [rng']" "g + k \<le> allocLimit m"
    using one_range(1) [OF r'(1)] one_range(2) [OF r'(2)] r' ov r(1) by (auto simp: rng'_def g_def k_def cut_blocks rl_len_def range_ok_def nat_add_distrib [symmetric])
  show "steal_inv s n (before @ [rng']) rest m3" "steal_frame m m3"
    using steal_give [OF inv k] by (simp_all add: m1_def m3_def rng'_def)
qed

lemma steal_whole:
  assumes inv: "steal_inv s n before (rng # rest) m" and ov: "int s \<le> rl_start rng" "rl_end rng < int s + int n"
  defines "rng' \<equiv> rng\<lparr>rl_end := rl_start rng - 1\<rparr>"
  defines "r \<equiv> hfs_release_reserved (set_ranges HFS_TENTATIVE_BLOCKS (before @ rng' # rest)
      (m\<lparr>tentativeBlocks := sub32 (tentativeBlocks m) (nat (rl_len rng))\<rparr>)) rng' HFS_TENTATIVE_BLOCKS"
  shows "steal_inv s n before rest (fst r)" "steal_frame m (fst r)" "snd r = rl_make (- 1) (- 2)"
proof -
  note rg = steal_inv_range [OF inv]
  have "rng' \<notin> set before"
    using inv ranges_ok_len [of _ before rng'] by (auto simp: steal_inv_def ranges_ok_append rng'_def rl_len_def)
  then have "remove1 rng' (before @ rng' # rest) = before @ rest"
    by (simp add: remove1_append)
  moreover have "rl_start rng' \<noteq> - 1" "rl_len rng' = 0"
    using rg(1) by (simp_all add: rng'_def range_ok_def rl_len_def)
  ultimately have r: "r = (steal_put before [] rest (nat (rl_len rng)) m, rl_make (- 1) (- 2))"
    by (simp add: r_def hfs_release_reserved_def steal_put_def set_ranges_def Let_def)
  have k: "ranges_ok (allocLimit m) []" "entry_blocks [] \<subseteq> entry_blocks [rng] - run s n"
    "blocks_of [] + nat (rl_len rng) = nat (rl_len rng)" "entry_blocks [rng] - entry_blocks [] \<subseteq> run s n"
    using ov by (auto simp: cut_blocks)
  show "steal_inv s n before rest (fst r)" "steal_frame m (fst r)" "snd r = rl_make (- 1) (- 2)"
    using steal_step [OF inv k] by (simp_all add: r)
qed

lemma steal_skip:
  assumes "steal_inv s n before (rng # rest) m" "0 < n" "int s + int n \<le> rl_start rng \<or> rl_end rng < int s"
  shows "steal_inv s n (before @ [rng]) rest m"
proof -
  have "entry_blocks [rng] \<inter> run s n = {}"
    using assms(3) by (auto simp: cut_blocks)
  then show ?thesis
    using assms(1) by (auto simp: steal_inv_def)
qed

lemma steal_tentative_spec:
  assumes "steal_inv s n before todo m" "0 < n"
  shows "case steal_tentative s (s + n - 1) before todo m of (cells, m') \<Rightarrow>
    (\<exists>after. steal_inv s n (before @ after) [] m') \<and> steal_frame m m' \<and> length cells = length todo"
  using assms
proof (induction todo arbitrary: before m)
  case Nil
  then show ?case
    by (auto intro: exI [of _ "[]"])
next
  case (Cons rng rest)
  note inv = Cons.prems(1) and n = Cons.prems(2)
  note rg = steal_inv_range [OF inv]
  define z where "z = s + n - 1"
  have e: "int z = int s + int n - 1"
    using n by (simp add: z_def)
  then have e1: "int z + 1 = int s + int n"
    by simp
  have go: "case steal_tentative s z b rest m1 of (cells, m') \<Rightarrow>
      (\<exists>after. steal_inv s n (before @ after) [] m') \<and> steal_frame m m' \<and> length (c # cells) = length (rng # rest)"
    if "steal_inv s n b rest m1" "steal_frame m m1" "b = before \<or> (\<exists>r. b = before @ [r])" for b m1 c
    using Cons.IH [OF that(1) n] that(2,3) steal_frame_trans [OF that(2)] unfolding z_def by (fastforce split: prod.splits)
  note eq = steal_tentative.simps(2) [of s z before rng rest m, unfolded Let_def]
  have put: "set_ranges HFS_TENTATIVE_BLOCKS (before @ r # rest)
      (snd (hfs_release_summary (m\<lparr>tentativeBlocks := sub32 (tentativeBlocks m) lost\<rparr>) g k)) =
      snd (hfs_release_summary (steal_put before [r] rest lost m) g k)" for r lost g k
    by (simp add: steal_put_def hfs_release_summary_set_ranges)
  have "case steal_tentative s z before (rng # rest) m of (cells, m') \<Rightarrow>
    (\<exists>after. steal_inv s n (before @ after) [] m') \<and> steal_frame m m' \<and> length cells = length (rng # rest)"
  proof (cases "rl_overlap rng (int s) (int z)")
    case RL_NOOVERLAP
    then have "steal_inv s n (before @ [rng]) rest m"
      using e by (intro steal_skip [OF inv n]) (auto simp: rl_overlap_def split: if_splits)
    then show ?thesis
      using go [of "before @ [rng]" m rng] unfolding eq RL_NOOVERLAP by (simp split: prod.splits)
  next
    case RL_MATCHINGOVERLAP
    then have ov: "int s \<le> rl_start rng" "rl_end rng < int s + int n"
      using e by (auto simp: rl_overlap_def split: if_splits)
    note w = steal_whole [OF inv ov]
    show ?thesis
      using go [OF w(1,2)] unfolding eq RL_MATCHINGOVERLAP by (simp add: split_beta)
  next
    case RL_OVERLAPISCONTAINED
    then have ov: "int s \<le> rl_start rng" "rl_end rng < int s + int n"
      using e by (auto simp: rl_overlap_def split: if_splits)
    note w = steal_whole [OF inv ov]
    show ?thesis
      using go [OF w(1,2)] unfolding eq RL_OVERLAPISCONTAINED by (simp add: split_beta)
  next
    case RL_OVERLAPSTARTSBEFORE
    then have ov: "rl_start rng < int s" "rl_end rng < int s + int n" "int s \<le> rl_end rng"
      using e by (auto simp: rl_overlap_def split: if_splits)
    note w = steal_prefix [OF inv ov]
    show ?thesis
      using go [OF w] unfolding eq RL_OVERLAPSTARTSBEFORE by (simp add: split_beta steal_put_def)
  next
    case RL_OVERLAPENDSAFTER
    then have ov: "int s \<le> rl_start rng" "rl_start rng < int s + int n" "int s + int n \<le> rl_end rng"
      using e by (auto simp: rl_overlap_def split: if_splits)
    note w = steal_suffix [OF inv ov]
    show ?thesis
      using go [OF w] unfolding eq RL_OVERLAPENDSAFTER e1 by (simp add: split_beta steal_put_def del: of_nat_add)
  next
    case RL_OVERLAPCONTAINSRANGE
    then have ov: "rl_start rng \<le> int s" "int s + int n \<le> rl_end rng + 1" "rl_start rng < int s \<or> int s + int n \<le> rl_end rng"
      using e by (auto simp: rl_overlap_def split: if_splits)
    have one: "add32 z 1 = s + n" "rl_end rng - int z = rl_end rng + 1 - (int s + int n)"
      using rg ov(2) n e by (auto simp: z_def add32_eq range_ok_def)
    show ?thesis
    proof (cases "int s - rl_start rng > rl_end rng - int z")
      case True
      then have "rl_start rng < int s"
        using ov(2) e by linarith
      note w = steal_inside_tail [OF inv this ov(2) n]
      show ?thesis
        using go [OF w] True unfolding eq RL_OVERLAPCONTAINSRANGE one by (simp add: split_beta put)
    next
      case False
      then have "int s + int n \<le> rl_end rng"
        using ov(3) e by linarith
      note w = steal_inside_head [OF inv ov(1) this n]
      show ?thesis
        using go [OF w] False unfolding eq RL_OVERLAPCONTAINSRANGE one e1 by (simp add: split_beta put)
    qed
  qed
  then show ?case
    by (simp add: z_def)
qed

text \<open>Changing a counter alone.\<close>

lemma search_ok_counters:
  assumes "search_ok m" "same_search m m1" "vcbBitmap m1 = vcbBitmap m" "hfs_reserved_ranges m1 = hfs_reserved_ranges m"
  shows "search_ok m1" "taken_blocks m1 0 = taken_blocks m 0" "fec_blocks m1 = fec_blocks m"
proof -
  show t: "taken_blocks m1 0 = taken_blocks m 0" "fec_blocks m1 = fec_blocks m"
    using assms(3,4) same_search_facts [OF assms(2)] by (simp_all add: taken_blocks_0)
  show "search_ok m1"
    using assms(1) t by (intro search_ok_take [OF assms(1,2)]) (auto simp: search_ok_def volume_ok_def reservations_ok_def assms(4))
qed

section \<open>Properties\<close>

text \<open>An empty volume of 64 blocks on which blocks 10 to 19 are reserved tentatively.\<close>

definition tent_mount :: hfsmount where
  "tent_mount = set_ranges HFS_TENTATIVE_BLOCKS [rl_make 10 19] (trim_mount\<lparr>tentativeBlocks := 10\<rparr>)"

lemma tent_mount_ok:
  "search_ok tent_mount" "reserved_ok tent_mount" "tentative tent_mount = [rl_make 10 19]" "locked tent_mount = []"
  "vcbBitmap tent_mount = replicate 2 0" "allocLimit tent_mount = 64" "taken_blocks tent_mount 0 = run 10 10" "fec_blocks tent_mount = {}"
proof -
  let ?m = "trim_mount\<lparr>tentativeBlocks := 10\<rparr>"
  have f: "fec_blocks trim_mount = {}"
    by (simp add: fec_blocks_def fec_entries_def trim_mount_def small_mount_def plain_mount_def)
  note s = search_ok_counters [OF trim_mount_search_ok, of ?m, simplified, unfolded trim_mount_free f]
  have "reserved_slack 10 0 ?m"
    by (simp add: reserved_slack_def ranges_ok_def blocks_of_def trim_mount_def small_mount_def plain_mount_def)
  note a = add_to_reserved_list_spec [OF s(1) this, of 10 10 HFS_TENTATIVE_BLOCKS 0 0]
  have r: "add_to_reserved_list ?m 10 10 HFS_TENTATIVE_BLOCKS = (tent_mount, rl_make 10 19)"
    by (simp add: add_to_reserved_list_def tent_mount_def trim_mount_def small_mount_def plain_mount_def add32_eq sub32_eq Let_def)
  show "search_ok tent_mount" "reserved_ok tent_mount" "taken_blocks tent_mount 0 = run 10 10" "fec_blocks tent_mount = {}"
    using a s by (simp_all add: r trim_mount_ok) (simp add: trim_mount_def small_mount_def plain_mount_def)
  show "tentative tent_mount = [rl_make 10 19]" "locked tent_mount = []" "vcbBitmap tent_mount = replicate 2 0" "allocLimit tent_mount = 64"
    by (simp_all add: tent_mount_def set_ranges_def trim_mount_def small_mount_def plain_mount_def)
qed

text \<open>
  C36. Releasing a reservation takes exactly its entry out of its list and makes exactly its blocks available again; the
  bitmap, the free block count and the other list are untouched, the counters of reserved blocks, the summary table and
  the free extent cache stay right, and only released blocks can enter the cache.  The entry is marked dead, and
  releasing it a second time does nothing.
\<close>

theorem hfs_release_reserved_correct:
  assumes "search_ok m" "reserved_ok m" "rng \<in> set (hfs_reserved_ranges m l)"
  shows "\<exists>m' dead. hfs_release_reserved m rng l = (m', dead) \<and> search_ok m' \<and> reserved_ok m' \<and>
    hfs_reserved_ranges m' = (hfs_reserved_ranges m)(l := remove1 rng (hfs_reserved_ranges m l)) \<and>
    taken_blocks m' 0 = taken_blocks m 0 - entry_blocks [rng] \<and> fec_blocks m' \<subseteq> fec_blocks m \<union> entry_blocks [rng] \<and>
    vcbBitmap m' = vcbBitmap m \<and> freeBlocks m' = freeBlocks m \<and> hfs_release_reserved m' dead l = (m', dead)"
proof -
  have "hfs_release_reserved m' (rl_make (- 1) (- 2)) l = (m', rl_make (- 1) (- 2))" for m'
    by (simp add: hfs_release_reserved_def)
  then show ?thesis
    using hfs_release_reserved_spec [OF assms] by (cases "hfs_release_reserved m rng l") (simp add: give_result_def)
qed

theorem hfs_release_reserved_correct_witness:
  "\<exists>m' dead. hfs_release_reserved tent_mount (rl_make 10 19) HFS_TENTATIVE_BLOCKS = (m', dead) \<and> reserved_ok m' \<and>
     tentative m' = [] \<and> taken_blocks m' 0 = {}"
  using hfs_release_reserved_correct [OF tent_mount_ok(1,2), of "rl_make 10 19" HFS_TENTATIVE_BLOCKS] tent_mount_ok
    entry_run [of 64 "rl_make 10 19"]
  by (auto simp: range_ok_def rl_len_def)

text \<open>
  C37. Adding a reservation of free, uncached blocks that are already counted keeps the reservations well formed, and
  the new entry covers exactly those blocks.  A locked reservation disturbs no other; a tentative one ages out all but
  the three most recent, so that at most four remain, and the blocks of those that go become available.
\<close>

theorem add_to_reserved_list_correct:
  assumes "search_ok m" "if l = HFS_TENTATIVE_BLOCKS then reserved_slack n 0 m else reserved_slack 0 n m"
    and "0 < n" "s + n \<le> allocLimit m" "run s n \<inter> taken_blocks m 0 = {}" "run s n \<inter> fec_blocks m = {}"
  shows "\<exists>m' e. add_to_reserved_list m s n l = (m', e) \<and> search_ok m' \<and> reserved_ok m' \<and> entry_blocks [e] = run s n \<and>
    (l = HFS_LOCKED_BLOCKS \<longrightarrow> locked m' = e # locked m \<and> tentative m' = tentative m \<and>
       taken_blocks m' 0 = taken_blocks m 0 \<union> run s n) \<and>
    (l = HFS_TENTATIVE_BLOCKS \<longrightarrow> tentative m' = e # take 3 (tentative m) \<and> locked m' = locked m \<and>
       taken_blocks m' 0 = (taken_blocks m 0 - entry_blocks (drop 3 (tentative m))) \<union> run s n)"
proof (cases l)
  case HFS_TENTATIVE_BLOCKS
  then show ?thesis
    using add_to_reserved_list_spec [OF assms(1) _ assms(3-6), of n 0 l 0 0] assms(2)
    by (cases "add_to_reserved_list m s n l") simp
next
  case HFS_LOCKED_BLOCKS
  then show ?thesis
    using add_to_reserved_list_spec [OF assms(1) _ assms(3-6), of 0 n l 0 0] assms(2)
    by (cases "add_to_reserved_list m s n l") simp
qed

theorem add_to_reserved_list_correct_witness:
  "\<exists>m' e. add_to_reserved_list (tent_mount\<lparr>lockedBlocks := 5\<rparr>) 30 5 HFS_LOCKED_BLOCKS = (m', e) \<and> reserved_ok m' \<and>
     entry_blocks [e] = run 30 5 \<and> taken_blocks m' 0 = run 10 10 \<union> run 30 5"
proof -
  let ?m = "tent_mount\<lparr>lockedBlocks := 5\<rparr>"
  note s = search_ok_counters [OF tent_mount_ok(1), of ?m, simplified, unfolded tent_mount_ok(7,8)]
  have "reserved_slack 0 5 ?m"
    using tent_mount_ok(2-4) by (simp add: reserved_slack_def blocks_of_def)
  moreover have "run 30 5 \<inter> run 10 10 = ({} :: nat set)"
    by (auto simp: run_def)
  ultimately show ?thesis
    using add_to_reserved_list_correct [of ?m HFS_LOCKED_BLOCKS 5 30] s tent_mount_ok(6) by auto
qed

text \<open>
  C38. Stealing.  Once the blocks \<open>s\<close> to \<open>s + n - 1\<close> were allocated or locked over the top of tentative ranges, the
  loop over those ranges leaves well-formed reservations that no longer claim any of these blocks: ranges are cut or
  dropped, never enlarged, and the counter of tentative blocks, the summary table and the free extent cache are right
  again.  The bitmap, the free block count and the locked ranges do not change.
\<close>

theorem steal_tentative_correct:
  assumes "search_ok m" "ranges_ok (allocLimit m) (tentative m)" "ranges_ok (allocLimit m) (locked m)"
    and "entry_blocks (tentative m) \<inter> (bm_set (vcbBitmap m) \<union> entry_blocks (locked m)) \<subseteq> run s n"
    and "run s n \<subseteq> bm_set (vcbBitmap m) \<union> entry_blocks (locked m)" "entry_blocks (locked m) \<inter> bm_set (vcbBitmap m) = {}"
    and "tentativeBlocks m = blocks_of (tentative m)" "tentativeBlocks m < 4294967296"
    and "lockedBlocks m = blocks_of (locked m)" "lockedBlocks m < 4294967296" "0 < n"
  shows "\<exists>cells m'. steal_tentative s (s + n - 1) [] (tentative m) m = (cells, m') \<and> length cells = length (tentative m) \<and>
    search_ok m' \<and> reserved_ok m' \<and> entry_blocks (tentative m') \<subseteq> entry_blocks (tentative m) - run s n \<and>
    vcbBitmap m' = vcbBitmap m \<and> freeBlocks m' = freeBlocks m \<and> locked m' = locked m"
proof -
  have "steal_inv s n [] (tentative m) m"
    using assms by (simp add: steal_inv_def)
  then obtain cells m' after where r: "steal_tentative s (s + n - 1) [] (tentative m) m = (cells, m')" "steal_inv s n after [] m'"
    "steal_frame m m'" "length cells = length (tentative m)"
    using steal_tentative_spec [of s n "[]" "tentative m" m] assms(11) by (auto split: prod.splits)
  have "reserved_ok m'"
    using r(2,3) assms(6,9,10) by (intro reserved_okI) (auto simp: steal_inv_def steal_frame_def)
  moreover have "entry_blocks (tentative m') \<inter> run s n = {}"
    using r(2) by (simp add: steal_inv_def)
  ultimately show ?thesis
    using r by (auto simp: steal_inv_def steal_frame_def)
qed

theorem steal_tentative_correct_witness:
  "\<exists>cells m'. steal_tentative 16 31 [] [rl_make 10 19] (tent_mount\<lparr>vcbBitmap := [mask 16, 0]\<rparr>) = (cells, m') \<and> reserved_ok m' \<and>
     entry_blocks (tentative m') \<subseteq> run 10 6"
proof -
  let ?m = "tent_mount\<lparr>vcbBitmap := [mask 16, 0]\<rparr>"
  have b: "bm_set [mask 16 :: u32, 0] = run 16 16"
    by (auto simp: in_bm_set bit_simps run_def nth_Cons split: nat.splits)
  have s: "same_search tent_mount ?m" "taken_blocks ?m 0 = run 10 22" "entry_blocks [rl_make 10 19] = run 10 10"
    using entry_run [of 64 "rl_make 10 19"]
    by (auto simp: same_search_def static_def tent_mount_ok taken_blocks_0 b range_ok_def rl_len_def run_def)
  have "search_ok ?m"
    using tent_mount_ok by (intro search_ok_take [OF tent_mount_ok(1) s(1)]) (auto simp: s(2) run_def search_ok_def volume_ok_def reservations_ok_def)
  moreover have "run 10 10 \<inter> run 16 16 \<subseteq> run 16 16" "run 10 10 - run 16 16 \<subseteq> run 10 6"
    by (auto simp: run_def)
  ultimately show ?thesis
    using steal_tentative_correct [of ?m 16 16] reserved_okD [OF tent_mount_ok(2)] tent_mount_ok(3-6)
    by (simp add: b s(3) del: steal_tentative.simps) blast
qed

end
