(* ===== verification/Block_Alloc.thy ===== *)
theory Block_Alloc
  imports Reservations
begin

text \<open>
  Allocating and freeing blocks (\<^verbatim>\<open>core/VolumeAllocation.c\<close>): \<open>hfs_block_alloc_int\<close> with its entry points
  \<open>BlockAllocate\<close> and \<open>hfs_block_alloc\<close>, \<open>BlockDeallocate\<close>, the callback for completed trims and the change of the
  allocation limit, and the count of free blocks of \<^verbatim>\<open>core/hfs_vfsutils.c\<close>.  The body of
  \<open>hfs_block_alloc_int\<close> is cut into the pieces between its labels.  What it asks of the device (pinning or mapping the
  blocks on CoreStorage volumes) does not touch the state; the notifications about free space are in the theory
  \<open>Notifications\<close>.

  The answer of \<open>hfs_get_backing_free_blks\<close> is the parameter \<open>backing\<close>: the blocks available to a sparse device,
  \<open>None\<close> when there is no backing store.
\<close>

section \<open>Free blocks and errors\<close>

definition hfs_freeblks :: "nat option \<Rightarrow> hfsmount \<Rightarrow> bool \<Rightarrow> nat" where
  "hfs_freeblks backing m wantreserve =
     (let rsrvblks = reserveBlocks m;
          loanblks = add32 (loanedBlocks m) (lockedBlocks m);
          freeblks = (if wantreserve then (if freeBlocks m > rsrvblks then freeBlocks m - rsrvblks else 0) else freeBlocks m);
          freeblks' = (if freeblks > loanblks then freeblks - loanblks else 0)
      in case backing of Some vfreeblks \<Rightarrow> min freeblks' vfreeblks | None \<Rightarrow> freeblks')"

text \<open>Positive codes pass, the Mac codes have a case each; \<open>fsBTRecordNotFoundErr\<close>, \<open>fsBTFullErr\<close> and
  \<open>fsBTInvalidNodeErr\<close> are \<open>btNotFound\<close>, \<open>btNoSpaceAvail\<close> and \<open>btBadNode\<close>.\<close>

definition MacToVFSError :: "hfs_err \<Rightarrow> hfs_err" where
  "MacToVFSError err =
     (if err \<in> {noErr, EIO, EINVAL, ENOSPC, ESTALE, ENOMEM, EPERM, EOVERFLOW, EEXIST, ENOENT, ENOTEMPTY, EISDIR, ERANGE,
                ENAMETOOLONG, ENXIO, hfs_panic} then err
      else case err of
        HFS_ERESERVEDNAME \<Rightarrow> HFS_ERESERVEDNAME
      | dskFulErr \<Rightarrow> ENOSPC
      | fsBTFullErr \<Rightarrow> ENOSPC
      | fxOvFlErr \<Rightarrow> EOVERFLOW
      | fsBTInvalidNodeErr \<Rightarrow> EIO
      | memFullErr \<Rightarrow> ENOMEM
      | cmExists \<Rightarrow> EEXIST
      | btExists \<Rightarrow> EEXIST
      | cmNotFound \<Rightarrow> ENOENT
      | fsBTRecordNotFoundErr \<Rightarrow> ENOENT
      | cmNotEmpty \<Rightarrow> ENOTEMPTY
      | cmFThdDirErr \<Rightarrow> EISDIR
      | fxRangeErr \<Rightarrow> ERANGE
      | bdNamErr \<Rightarrow> ENAMETOOLONG
      | paramErr \<Rightarrow> EINVAL
      | fileBoundsErr \<Rightarrow> EINVAL
      | fsBTBadNodeSize \<Rightarrow> ENXIO
      | _ \<Rightarrow> EIO)"

section \<open>The arguments of an allocation\<close>

text \<open>
  \<open>reservation_in\<close> and \<open>reservation_out\<close> are the contents of the caller's pointers: an entry of a list of
  reservations, or \<open>None\<close> for a null pointer.
\<close>

record hfs_alloc_extra_args =
  max_blocks :: nat
  reservation_in :: "rl_entry option"
  reservation_out :: "rl_entry option"
  alignment :: int
  alignment_offset :: int

definition HFS_UPDATE_NEXT_ALLOCATION :: "hfsmount \<Rightarrow> nat \<Rightarrow> hfsmount" where
  "HFS_UPDATE_NEXT_ALLOCATION m new_nextAllocation =
     (if \<not> ISSET (hfs_flags m) HFS_SKIP_UPDATE_NEXT_ALLOCATION then m\<lparr>nextAllocation := new_nextAllocation\<rparr> else m)"

section \<open>Marking the blocks that were found\<close>

text \<open>Signed values take part in unsigned arithmetic.\<close>

definition to_u32 :: "int \<Rightarrow> nat" where
  "to_u32 i = nat (i mod 4294967296)"

definition alloc_align :: "hfs_alloc_extra_args option \<Rightarrow> nat \<Rightarrow> nat \<Rightarrow> nat" where
  "alloc_align ap minBlocks count =
     (case ap of
        None \<Rightarrow> count
      | Some a \<Rightarrow>
          if alignment a \<noteq> 0 \<and> count < max_blocks a then
            let rounding = add32 count (to_u32 (alignment_offset a)) mod to_u32 (alignment a)
            in if count \<ge> add32 minBlocks rounding then sub32 count rounding else count
          else count)"

text \<open>The position for the next search and the free extent cache, unless the blocks come from a reservation.\<close>

definition outside_metazone :: "hfsmount \<Rightarrow> nat \<Rightarrow> bool" where
  "outside_metazone m b \<longleftrightarrow> b < hfs_metazone_start m \<or> b > hfs_metazone_end m"

definition alloc_update_pointers :: "hfsmount \<Rightarrow> u32 \<Rightarrow> bool \<Rightarrow> HFSPlusExtentDescriptor \<Rightarrow> hfsmount" where
  "alloc_update_pointers m flags updateAllocPtr extent =
     (if \<not> ISSET flags (or HFS_ALLOC_USE_TENTATIVE HFS_ALLOC_COMMIT) then
        let m1 = (if vcbFreeExtCnt m = 0 \<and> hfs_freed_block_count m = 0 then m\<lparr>sparseAllocation := startBlock extent\<rparr> else m);
            m2 = (if blockCount extent < hfs_freed_block_count m1
                  then m1\<lparr>hfs_freed_block_count := hfs_freed_block_count m1 - blockCount extent\<rparr>
                  else m1\<lparr>hfs_freed_block_count := 0\<rparr>);
            m3 = (if updateAllocPtr \<and> outside_metazone m2 (startBlock extent)
                  then HFS_UPDATE_NEXT_ALLOCATION m2 (startBlock extent) else m2)
        in remove_free_extent_cache m3 (startBlock extent) (blockCount extent)
      else m)"

text \<open>The entry of a reservation loses its first blocks.\<close>

definition advance_range :: "hfs_reserved_type \<Rightarrow> rl_entry \<Rightarrow> nat \<Rightarrow> hfsmount \<Rightarrow> rl_entry \<times> hfsmount" where
  "advance_range l rng n m =
     (let rng' = rng\<lparr>rl_start := rl_start rng + int n\<rparr>
      in (rng', set_ranges l (map (\<lambda>e. if e = rng then rng' else e) (hfs_reserved_ranges m l)) m))"

definition alloc_from_reservation :: "hfsmount \<Rightarrow> u32 \<Rightarrow> rl_entry option \<Rightarrow> nat \<Rightarrow> hfsmount \<times> rl_entry option" where
  "alloc_from_reservation m flags reservation count =
     (case reservation of
        None \<Rightarrow> (m, None)
      | Some rng \<Rightarrow>
          if ISSET flags HFS_ALLOC_USE_TENTATIVE then
            let (rng', m1) = advance_range HFS_TENTATIVE_BLOCKS rng count m;
                m2 = m1\<lparr>tentativeBlocks := sub32 (tentativeBlocks m1) count\<rparr>
            in if rl_len rng' \<le> 0 then hfs_free_tentative m2 (Some rng') else (m2, Some rng')
          else if ISSET flags HFS_ALLOC_COMMIT then
            let (rng', m1) = advance_range HFS_LOCKED_BLOCKS rng count m;
                m2 = m1\<lparr>lockedBlocks := sub32 (lockedBlocks m1) count\<rparr>
            in hfs_free_locked m2 (Some rng')
          else (m, Some rng))"

definition alloc_update_counts :: "hfsmount \<Rightarrow> u32 \<Rightarrow> nat \<Rightarrow> hfsmount" where
  "alloc_update_counts m flags count =
     MarkVCBDirty
       (if ISSET flags HFS_ALLOC_TENTATIVE then m\<lparr>tentativeBlocks := add32 (tentativeBlocks m) count\<rparr>
        else if ISSET flags HFS_ALLOC_LOCKED then m\<lparr>lockedBlocks := add32 (lockedBlocks m) count\<rparr>
        else if \<not> ISSET flags HFS_ALLOC_SKIPFREEBLKS then m\<lparr>freeBlocks := sub32 (freeBlocks m) count\<rparr>
        else m)"

text \<open>The new reservation.\<close>

definition alloc_reserve :: "hfsmount \<Rightarrow> u32 \<Rightarrow> HFSPlusExtentDescriptor \<Rightarrow> rl_entry option \<Rightarrow> hfsmount \<times> rl_entry option" where
  "alloc_reserve m flags extent out =
     (if ISSET flags HFS_ALLOC_TENTATIVE then
        let (m1, rng) = add_to_reserved_list m (startBlock extent) (blockCount extent) HFS_TENTATIVE_BLOCKS in (m1, Some rng)
      else if ISSET flags HFS_ALLOC_LOCKED then
        let (m1, rng) = add_to_reserved_list m (startBlock extent) (blockCount extent) HFS_LOCKED_BLOCKS in (m1, Some rng)
      else (m, out))"

text \<open>
  The contents of a tentative entry after blocks were taken from the list.  A reservation that was locked by this very
  allocation is not an entry of that list, though it can look like one.
\<close>

definition stolen_entry :: "rl_entry list \<Rightarrow> rl_entry list \<Rightarrow> rl_entry option \<Rightarrow> rl_entry option" where
  "stolen_entry ranges cells e = map_option (\<lambda>e. case map_of (zip ranges cells) e of Some e' \<Rightarrow> e' | None \<Rightarrow> e) e"

definition alloc_steal ::
  "hfsmount \<Rightarrow> u32 \<Rightarrow> HFSPlusExtentDescriptor \<Rightarrow> hfs_alloc_extra_args option \<Rightarrow> hfs_alloc_extra_args option \<times> hfsmount" where
  "alloc_steal m flags extent ap =
     (if ISSET flags HFS_ALLOC_IGNORE_TENTATIVE then
        let ranges = hfs_reserved_ranges m HFS_TENTATIVE_BLOCKS;
            (cells, m1) = steal_tentative (startBlock extent) (sub32 (add32 (startBlock extent) (blockCount extent)) 1) [] ranges m;
            new_locked = (ISSET flags HFS_ALLOC_LOCKED \<and> \<not> ISSET flags HFS_ALLOC_TENTATIVE)
        in (map_option (\<lambda>a. a\<lparr>reservation_in := stolen_entry ranges cells (reservation_in a),
                              reservation_out := (if new_locked then reservation_out a
                                                  else stolen_entry ranges cells (reservation_out a))\<rparr>) ap, m1)
      else (ap, m))"

text \<open>
  From the label \<open>mark_allocated\<close> on.  A flag that needs a reservation without extra arguments dereferences a null
  pointer.
\<close>

definition alloc_mark ::
  "(nat \<Rightarrow> hfs_err) \<Rightarrow> hfsmount \<Rightarrow> HFSPlusExtentDescriptor \<Rightarrow> u32 \<Rightarrow> hfs_alloc_extra_args option \<Rightarrow> nat \<Rightarrow> bool
    \<Rightarrow> hfs_err \<times> HFSPlusExtentDescriptor \<times> hfs_alloc_extra_args option \<times> hfsmount" where
  "alloc_mark bread m found flags ap minBlocks updateAllocPtr =
     (let extent = mk_extent (startBlock found) (alloc_align ap minBlocks (blockCount found));
          (err, m1) = BlockMarkAllocatedInternal bread m (startBlock extent) (blockCount extent) flags
      in if err \<noteq> noErr then (err, mk_extent 0 0, ap, m1)
         else if blockCount extent = 0 then (noErr, extent, ap, m1)
         else
           let m2 = alloc_update_pointers m1 flags updateAllocPtr extent;
               (m3, rin) = alloc_from_reservation m2 flags (Option.bind ap reservation_in) (blockCount extent);
               m4 = alloc_update_counts m3 flags (blockCount extent);
               (m5, rout) = alloc_reserve m4 flags extent (Option.bind ap reservation_out);
               ap1 = map_option (\<lambda>a. a\<lparr>reservation_in := rin, reservation_out := rout\<rparr>) ap;
               (ap2, m6) = alloc_steal m5 flags extent ap1
           in if ap = None \<and> ISSET flags (or HFS_ALLOC_TENTATIVE HFS_ALLOC_LOCKED) then (hfs_panic, extent, ap, m4)
              else (noErr, extent, ap2, m6))"

section \<open>Looking for blocks\<close>

text \<open>
  The chain of searches when the blocks need not be contiguous: the cache, the bitmap from the starting block, the rest
  of the bitmap and, if the caller allows a journal flush, blocks with pending trims.  The result holds the flags as
  they are afterwards.
\<close>

definition alloc_find_any ::
  "(nat \<Rightarrow> hfs_err) \<Rightarrow> journal \<Rightarrow> hfsmount \<Rightarrow> nat \<Rightarrow> nat \<Rightarrow> u32 \<Rightarrow> HFSPlusExtentDescriptor
    \<Rightarrow> (hfs_err \<times> HFSPlusExtentDescriptor \<times> u32 \<times> hfsmount) option" where
  "alloc_find_any bread j m startingBlock maxBlocks flags extent =
     (let forceFlush = ISSET flags HFS_ALLOC_FLUSHTXN;
          flags1 = and flags (not HFS_ALLOC_FLUSHTXN);
          (err0, ext0, m0) = BlockFindKnown m maxBlocks extent
      in case (if err0 = dskFulErr then BlockFindAny bread j m0 startingBlock (allocLimit m0) maxBlocks flags1 True ext0
               else Some (err0, ext0, m0)) of
           None \<Rightarrow> None
         | Some (err1, ext1, m1) \<Rightarrow>
             if err1 \<noteq> dskFulErr then Some (err1, ext1, flags1, m1)
             else
               case (if ISSET (hfs_flags m1) HFS_SUMMARY_TABLE
                     then BlockFindAny bread j m1 1 (allocLimit m1) maxBlocks flags1 False ext1
                     else BlockFindAny bread j m1 1 startingBlock maxBlocks flags1 False ext1) of
                 None \<Rightarrow> None
               | Some (err2, ext2, m2) \<Rightarrow>
                   if err2 = dskFulErr \<and> forceFlush then
                     let flags2 = or flags1 HFS_ALLOC_FLUSHTXN
                     in case BlockFindAny bread j m2 1 (allocLimit m2) maxBlocks flags2 False ext2 of
                          None \<Rightarrow> None
                        | Some (err3, ext3, m3) \<Rightarrow> Some (err3, ext3, flags2, m3)
                   else Some (err2, ext2, flags1, m2))"

text \<open>The starting position, and whether \<open>nextAllocation\<close> is to follow.\<close>

definition alloc_start :: "hfsmount \<Rightarrow> nat \<Rightarrow> nat \<times> bool" where
  "alloc_start m start =
     (let updateAllocPtr = (start = 0);
          start1 = (if start = 0 then if ISSET (hfs_flags m) HFS_HAS_SPARSE_DEVICE then sparseAllocation m else nextAllocation m
                    else start)
      in (if start1 \<ge> allocLimit m then 0 else start1, updateAllocPtr))"

text \<open>The check of the free blocks and the clipped bounds.\<close>

definition alloc_check_free :: "nat \<Rightarrow> u32 \<Rightarrow> bool \<Rightarrow> nat \<Rightarrow> nat \<Rightarrow> (nat \<times> nat) option" where
  "alloc_check_free freeBlks flags forceContiguous minBlocks maxBlocks =
     (if \<not> ISSET flags HFS_ALLOC_SKIPFREEBLKS then
        if freeBlks = 0 \<or> (forceContiguous \<and> freeBlks < minBlocks) then None
        else Some (min minBlocks freeBlks, min maxBlocks freeBlks)
      else Some (minBlocks, maxBlocks))"

text \<open>
  From the check of the free blocks to the label \<open>mark_allocated\<close>: the error, the blocks found, the flags, the minimum
  and whether \<open>nextAllocation\<close> follows the allocation.
\<close>

definition alloc_search ::
  "(nat \<Rightarrow> hfs_err) \<Rightarrow> journal \<Rightarrow> hfsmount \<Rightarrow> HFSPlusExtentDescriptor \<Rightarrow> u32 \<Rightarrow> nat \<Rightarrow> nat
    \<Rightarrow> (hfs_err \<times> HFSPlusExtentDescriptor \<times> u32 \<times> nat \<times> bool \<times> hfsmount) option" where
  "alloc_search bread j m extent flags0 maxBlocks0 freeBlks =
     (let minBlocks0 = blockCount extent;
          forceContiguous = ISSET flags0 (or HFS_ALLOC_FORCECONTIG HFS_ALLOC_TRY_HARD);
          flags = (if freeBlks < add32 (tentativeBlocks m) minBlocks0 then or flags0 HFS_ALLOC_IGNORE_TENTATIVE else flags0)
      in case alloc_check_free freeBlks flags forceContiguous minBlocks0 maxBlocks0 of
           None \<Rightarrow> Some (dskFulErr, extent, flags, minBlocks0, False, m)
         | Some (minBlocks, maxBlocks) \<Rightarrow>
             if ISSET flags HFS_ALLOC_TRY_HARD then
               case hfs_alloc_try_hard bread j m extent maxBlocks flags of
                 None \<Rightarrow> None
               | Some (err, ext, m1) \<Rightarrow> Some (err, ext, flags, minBlocks, False, m1)
             else
               let (startingBlock, updateAllocPtr) = alloc_start m (startBlock extent)
               in if forceContiguous then
                    case BlockFindContig bread j m startingBlock minBlocks maxBlocks flags extent of
                      None \<Rightarrow> None
                    | Some (err, ext, m1) \<Rightarrow>
                        Some (err, ext, flags, minBlocks,
                          updateAllocPtr \<or> (err = noErr \<and> startBlock ext > startingBlock \<and> outside_metazone m1 (startBlock ext)), m1)
                  else
                    case alloc_find_any bread j m startingBlock maxBlocks flags extent of
                      None \<Rightarrow> None
                    | Some (err, ext, flags1, m1) \<Rightarrow> Some (err, ext, flags1, minBlocks, updateAllocPtr, m1))"

text \<open>
  A tentative reservation that can be used: the blocks and the flags (\<open>Inl\<close>).  Otherwise it is released and the
  allocation goes on without it (\<open>Inr\<close>).
\<close>

definition alloc_use_tentative ::
  "hfsmount \<Rightarrow> u32 \<Rightarrow> hfs_alloc_extra_args \<Rightarrow> nat \<Rightarrow> nat \<Rightarrow> nat
    \<Rightarrow> (HFSPlusExtentDescriptor \<times> u32) + (u32 \<times> hfs_alloc_extra_args \<times> hfsmount)" where
  "alloc_use_tentative m flags a minBlocks maxBlocks freeBlks =
     (let (m1, rin) = hfs_free_tentative m (reservation_in a);
          go_on = Inr (and flags (not HFS_ALLOC_USE_TENTATIVE), a\<lparr>reservation_in := rin\<rparr>, m1)
      in case reservation_in a of
           None \<Rightarrow> go_on
         | Some rng \<Rightarrow>
             let count = min (min maxBlocks (to_u32 (rl_len rng))) freeBlks
             in if rl_start rng \<noteq> - 1 \<and> count \<ge> minBlocks then
                  Inl (mk_extent (to_u32 (rl_start rng)) count,
                       if \<not> ISSET flags HFS_ALLOC_LOCKED then or flags HFS_ALLOC_COMMIT else flags)
                else go_on)"

section \<open>The entry points\<close>

definition hfs_block_alloc_int ::
  "(nat \<Rightarrow> hfs_err) \<Rightarrow> journal \<Rightarrow> nat option \<Rightarrow> hfsmount \<Rightarrow> HFSPlusExtentDescriptor \<Rightarrow> u32 \<Rightarrow> hfs_alloc_extra_args option
    \<Rightarrow> (hfs_err \<times> HFSPlusExtentDescriptor \<times> hfs_alloc_extra_args option \<times> hfsmount) option" where
  "hfs_block_alloc_int bread j backing m extent flags ap =
     (let minBlocks = blockCount extent;
          maxBlocks = (case ap of None \<Rightarrow> minBlocks | Some a \<Rightarrow> if max_blocks a \<noteq> 0 then max_blocks a else minBlocks);
          freeBlks = hfs_freeblks backing m False;
          search = (\<lambda>flags ap m.
            case alloc_search bread j m extent flags maxBlocks freeBlks of
              None \<Rightarrow> None
            | Some (err, found, flags1, minBlocks1, updateAllocPtr, m1) \<Rightarrow>
                if err \<noteq> noErr then Some (err, mk_extent 0 0, ap, m1)
                else Some (alloc_mark bread m1 found flags1 ap minBlocks1 updateAllocPtr))
      in if ISSET flags HFS_ALLOC_COMMIT then
           case Option.bind ap reservation_in of
             None \<Rightarrow> Some (hfs_panic, extent, ap, m)
           | Some rng \<Rightarrow>
               Some (alloc_mark bread m (mk_extent (to_u32 (rl_start rng)) (to_u32 (rl_len rng))) flags ap minBlocks False)
         else if ISSET flags HFS_ALLOC_ROLL_BACK then Some (alloc_mark bread m extent flags ap minBlocks False)
         else if ISSET flags HFS_ALLOC_USE_TENTATIVE then
           case ap of
             None \<Rightarrow> Some (hfs_panic, extent, ap, m)
           | Some a \<Rightarrow>
               case alloc_use_tentative m flags a minBlocks maxBlocks freeBlks of
                 Inl (found, flags1) \<Rightarrow> Some (alloc_mark bread m found flags1 ap minBlocks False)
               | Inr (flags1, a1, m1) \<Rightarrow> search flags1 (Some a1) m1
         else search flags ap m)"

definition BlockAllocate ::
  "(nat \<Rightarrow> hfs_err) \<Rightarrow> journal \<Rightarrow> nat option \<Rightarrow> hfsmount \<Rightarrow> nat \<Rightarrow> nat \<Rightarrow> nat \<Rightarrow> u32 \<Rightarrow> (hfs_err \<times> nat \<times> nat \<times> hfsmount) option" where
  "BlockAllocate bread j backing m startingBlock minBlocks maxBlocks flags =
     (let extra_args = \<lparr>max_blocks = maxBlocks, reservation_in = None, reservation_out = None, alignment = 0, alignment_offset = 0\<rparr>
      in case hfs_block_alloc_int bread j backing m (mk_extent startingBlock minBlocks) flags (Some extra_args) of
           None \<Rightarrow> None
         | Some (err, extent, _, m1) \<Rightarrow> Some (err, startBlock extent, blockCount extent, m1))"

definition hfs_block_alloc ::
  "(nat \<Rightarrow> hfs_err) \<Rightarrow> journal \<Rightarrow> nat option \<Rightarrow> hfsmount \<Rightarrow> HFSPlusExtentDescriptor \<Rightarrow> u32 \<Rightarrow> hfs_alloc_extra_args option
    \<Rightarrow> (hfs_err \<times> HFSPlusExtentDescriptor \<times> hfs_alloc_extra_args option \<times> hfsmount) option" where
  "hfs_block_alloc bread j backing m extent flags ap =
     map_option (\<lambda>(err, r). (MacToVFSError err, r)) (hfs_block_alloc_int bread j backing m extent flags ap)"

section \<open>Freeing blocks\<close>

definition BlockDeallocate ::
  "(nat \<Rightarrow> hfs_err) \<Rightarrow> hfsmount \<Rightarrow> nat \<Rightarrow> nat \<Rightarrow> u32 \<Rightarrow> hfs_err \<times> hfsmount" where
  "BlockDeallocate bread m firstBlock numBlocks flags =
     (if ISSET flags (or HFS_ALLOC_TENTATIVE HFS_ALLOC_LOCKED) \<or> numBlocks = 0 then (noErr, m)
      else
        let m1 = snd (hfs_release_summary m firstBlock numBlocks);
            (err, m2) = BlockMarkFreeInternal bread m1 firstBlock numBlocks True
        in if err \<noteq> noErr then (err, m2)
           else
             let m3 = (if \<not> ISSET flags HFS_ALLOC_SKIPFREEBLKS then m2\<lparr>freeBlocks := add32 (freeBlocks m2) numBlocks\<rparr> else m2);
                 m4 = m3\<lparr>hfs_freed_block_count := add32 (hfs_freed_block_count m3) numBlocks\<rparr>;
                 m5 = (if nextAllocation m4 = add32 firstBlock numBlocks
                       then HFS_UPDATE_NEXT_ALLOCATION m4 (sub32 (nextAllocation m4) numBlocks) else m4);
                 m6 = (if \<not> jnl m5 then
                         let m' = snd (add_free_extent_cache m5 firstBlock numBlocks)
                         in if firstBlock < sparseAllocation m' then m'\<lparr>sparseAllocation := firstBlock\<rparr> else m'
                       else m5)
             in (noErr, MarkVCBDirty m6))"

text \<open>The journal reports the trims that are on disk.\<close>

definition hfs_trim_callback :: "hfsmount \<Rightarrow> dk_extent list \<Rightarrow> hfsmount" where
  "hfs_trim_callback m exts =
     fold (\<lambda>e m. snd (add_free_extent_cache m ((de_offset e - hfsPlusIOPosOffset m) div blockSize m mod 4294967296)
             (de_length e div blockSize m mod 4294967296))) exts m"

section \<open>Changing the limit of allocation\<close>

fun release_beyond :: "nat \<Rightarrow> rl_entry list \<Rightarrow> hfsmount \<Rightarrow> hfsmount" where
  "release_beyond new_end_block [] m = m"
| "release_beyond new_end_block (rng # next_ranges) m =
     release_beyond new_end_block next_ranges
       (if rl_overlap rng (int new_end_block) RL_INFINITY \<noteq> RL_NOOVERLAP
        then fst (hfs_release_reserved m rng HFS_TENTATIVE_BLOCKS) else m)"

definition UpdateAllocLimit :: "hfsmount \<Rightarrow> nat \<Rightarrow> hfsmount" where
  "UpdateAllocLimit m new_end_block =
     (let m1 = snd (hfs_rebuild_summary (ResetVCBFreeExtCache (m\<lparr>allocLimit := new_end_block\<rparr>)))
      in release_beyond new_end_block (hfs_reserved_ranges m1 HFS_TENTATIVE_BLOCKS) m1)"

section \<open>Well-formed volumes\<close>

text \<open>
  The searches find what they should, the reservations are well formed, and the count of free blocks is the number of
  clear bits of the bitmap: reserved blocks count as free.
\<close>

definition used_blocks :: "hfsmount \<Rightarrow> nat set" where
  "used_blocks m = bm_set (vcbBitmap m) \<inter> {..<totalBlocks m}"

definition count_ok :: "hfsmount \<Rightarrow> bool" where
  "count_ok m \<longleftrightarrow> freeBlocks m + card (used_blocks m) = totalBlocks m"

definition alloc_ok :: "hfsmount \<Rightarrow> bool" where
  "alloc_ok m \<longleftrightarrow> search_ok m \<and> reserved_ok m \<and> totalBlocks m + 32 < 4294967296"

text \<open>Only fields that steer later searches or belong to the volume header change.\<close>

definition hints_only :: "hfsmount \<Rightarrow> hfsmount \<Rightarrow> bool" where
  "hints_only m m' \<longleftrightarrow> same_search m m' \<and> vcbBitmap m' = vcbBitmap m \<and> hfs_reserved_ranges m' = hfs_reserved_ranges m \<and>
     tentativeBlocks m' = tentativeBlocks m \<and> lockedBlocks m' = lockedBlocks m \<and> freeBlocks m' = freeBlocks m \<and>
     jnl_trims m' = jnl_trims m"

lemma same_search_trans: "same_search m m1 \<Longrightarrow> same_search m1 m2 \<Longrightarrow> same_search m m2"
  by (auto simp: same_search_def static_trans)

lemma hints_only_refl [simp]: "hints_only m m"
  by (simp add: hints_only_def)

lemma hints_only_trans: "hints_only m m1 \<Longrightarrow> hints_only m1 m2 \<Longrightarrow> hints_only m m2"
  by (auto simp: hints_only_def same_search_trans)

lemma same_search_updates [simp]:
  "same_search m' (m\<lparr>nextAllocation := a\<rparr>) = same_search m' m" "same_search m' (m\<lparr>sparseAllocation := a\<rparr>) = same_search m' m"
  "same_search m' (m\<lparr>hfs_freed_block_count := a\<rparr>) = same_search m' m" "same_search m' (m\<lparr>hfs_header_dirty := d\<rparr>) = same_search m' m"
  "same_search m' (m\<lparr>vcbAtrb := w\<rparr>) = same_search m' m" "same_search m' (m\<lparr>freeBlocks := a\<rparr>) = same_search m' m"
  "same_search m' (m\<lparr>jnl_trims := t\<rparr>) = same_search m' m"
  "length b = length (vcbBitmap m) \<Longrightarrow> same_search m' (m\<lparr>vcbBitmap := b\<rparr>) = same_search m' m"
  by (simp_all add: same_search_def static_def)

lemma hints_only_updates [simp]:
  "hints_only m' (m\<lparr>nextAllocation := a\<rparr>) = hints_only m' m" "hints_only m' (m\<lparr>sparseAllocation := a\<rparr>) = hints_only m' m"
  "hints_only m' (m\<lparr>hfs_freed_block_count := a\<rparr>) = hints_only m' m" "hints_only m' (m\<lparr>hfs_header_dirty := d\<rparr>) = hints_only m' m"
  "hints_only m' (m\<lparr>vcbAtrb := w\<rparr>) = hints_only m' m" "hints_only m' (MarkVCBDirty m) = hints_only m' m"
  "hints_only m' (HFS_UPDATE_NEXT_ALLOCATION m a) = hints_only m' m" "hints_only m' (hfs_mark_inconsistent m) = hints_only m' m"
  by (simp_all add: hints_only_def MarkVCBDirty_def HFS_UPDATE_NEXT_ALLOCATION_def hfs_mark_inconsistent_def)

lemma hints_only_same:
  assumes "hints_only m m'"
  shows "taken_blocks m' 0 = taken_blocks m 0" "fec_blocks m' = fec_blocks m" "search_ok m' = search_ok m"
    "reserved_slack t k m' = reserved_slack t k m" "static m m'" "used_blocks m' = used_blocks m" "count_ok m' = count_ok m" "alloc_ok m' = alloc_ok m"
proof -
  note f = same_search_facts [of m m']
  have h: "same_search m m'" "vcbBitmap m' = vcbBitmap m" "hfs_reserved_ranges m' = hfs_reserved_ranges m"
    "tentativeBlocks m' = tentativeBlocks m" "lockedBlocks m' = lockedBlocks m" "freeBlocks m' = freeBlocks m"
    using assms by (simp_all add: hints_only_def)
  show tk: "taken_blocks m' 0 = taken_blocks m 0" "fec_blocks m' = fec_blocks m" "reserved_slack t k m' = reserved_slack t k m"
    "static m m'" "used_blocks m' = used_blocks m" "count_ok m' = count_ok m" for t k
    using h f by (simp_all add: taken_blocks_0 reserved_slack_def used_blocks_def count_ok_def)
  have "same_search m' m"
    using h(1) by (auto simp: same_search_def static_def)
  then show "search_ok m' = search_ok m"
    using search_ok_counters(1) [of m m'] search_ok_counters(1) [of m' m] h by auto
  then show "alloc_ok m' = alloc_ok m"
    using tk(3) f h(1) by (simp add: alloc_ok_def)
qed

lemma bm_only_same_search:
  assumes "bm_only m m'"
  shows "same_search m m'" "hfs_reserved_ranges m' = hfs_reserved_ranges m" "tentativeBlocks m' = tentativeBlocks m"
    "lockedBlocks m' = lockedBlocks m" "freeBlocks m' = freeBlocks m" "jnl_trims m' = jnl_trims m" "totalBlocks m' = totalBlocks m"
proof -
  obtain b where "m' = m\<lparr>vcbBitmap := b\<rparr>" "length b = length (vcbBitmap m)"
    using assms unfolding bm_only_def by blast
  then show "same_search m m'" "hfs_reserved_ranges m' = hfs_reserved_ranges m" "tentativeBlocks m' = tentativeBlocks m"
    "lockedBlocks m' = lockedBlocks m" "freeBlocks m' = freeBlocks m" "jnl_trims m' = jnl_trims m" "totalBlocks m' = totalBlocks m"
    by simp_all
qed

section \<open>Freeing\<close>

text \<open>After the summary bits of a run were released, blocks of the run may become free.\<close>

lemma search_ok_freed:
  assumes ok: "search_ok m" and n: "0 < n" "s + n \<le> totalBlocks m"
    and same: "same_search (snd (hfs_release_summary m s n)) m2" "reservations_ok m2"
    and tk: "taken_blocks m 0 - run s n \<subseteq> taken_blocks m2 0" "taken_blocks m2 0 \<subseteq> taken_blocks m 0"
  shows "search_ok m2" "fec_blocks m2 = fec_blocks m"
proof -
  define m1 where "m1 = snd (hfs_release_summary m s n)"
  have only: "sum_only m m1"
    unfolding m1_def by (rule hfs_release_summary_sum_only)
  note o = sum_only_same [OF only] sum_only_volume [OF only]
  note f = same_search_facts [OF same(1), folded m1_def]
  have tru: "summary_true m2"
  proof (cases "hfs_has_summary m")
    case False
    then show ?thesis
      using only f(8) by (auto simp: summary_true_def sum_only_def)
  next
    case True
    then have sok: "summary_ok m" "\<And>b. b < totalBlocks m \<Longrightarrow> summary_bit m (b div bits_per_iosize m) \<Longrightarrow> b \<in> taken_blocks m 0"
      using ok by (auto simp: search_ok_def summary_true_def)
    note r = hfs_release_summary_bits [OF sok(1), where s = s and n = n, folded m1_def]
    have "b \<in> taken_blocks m2 0" if "b < totalBlocks m" "summary_bit m1 (b div bits_per_iosize m)" for b
      using sok(2) [OF that(1) r(2) [OF that(2)]] r(3) [OF n, of b] that(2) tk(1) by blast
    moreover have "vcbVBMIOSize m1 = vcbVBMIOSize m" "totalBlocks m1 = totalBlocks m"
      using only by (auto simp: sum_only_def)
    ultimately show ?thesis
      using r(1) f unfolding summary_true_def by simp
  qed
  have fec: "fec_ok m1 = fec_ok m" "fec_blocks m1 = fec_blocks m"
    using only by (auto simp: sum_only_def fec_ok_def fec_array_def fec_entries_def fec_blocks_def)
  then show "fec_blocks m2 = fec_blocks m"
    using f by simp
  moreover have "volume_ok m2"
    using static_volume [OF f(1) _ same(2)] ok o by (simp add: search_ok_def)
  ultimately show "search_ok m2"
    using tru ok tk(2) f(2) fec(1) by (auto simp: search_ok_def)
qed

lemma search_ok_cache_add:
  assumes ok: "search_ok m" and n: "s + n < 4294967296" "run s n \<inter> taken_blocks m 0 = {}"
  defines "m' \<equiv> snd (add_free_extent_cache m s n)"
  shows "search_ok m'" "srch_only m m'" "fec_blocks m' \<subseteq> fec_blocks m \<union> run s n"
proof -
  have "fec_ok m" "fec_blocks m \<inter> taken_blocks m 0 = {}"
    using ok by (simp_all add: search_ok_def)
  note fo = add_free_extent_cache_only [of m s n, folded m'_def]
  show so: "srch_only m m'"
    using fec_only_srch [OF fo] .
  have fec: "fec_ok m'" "fec_blocks m' \<subseteq> fec_blocks m \<union> run s n"
    using add_free_extent_cache_result [OF \<open>fec_ok m\<close> n(1)] by (auto simp: m'_def fec_clip_def)
  then show "fec_blocks m' \<subseteq> fec_blocks m \<union> run s n" "search_ok m'"
    using ok n(2) srch_only_same(1,2) [OF so] summary_true_fec_only [OF fo] by (auto simp: search_ok_def)
qed


lemma unmap_free_same [simp]:
  "same_search m' (hfs_unmap_free_extent m a b) = same_search m' m"
  "hfs_reserved_ranges (hfs_unmap_free_extent m a b) = hfs_reserved_ranges m" "tentativeBlocks (hfs_unmap_free_extent m a b) = tentativeBlocks m"
  "lockedBlocks (hfs_unmap_free_extent m a b) = lockedBlocks m" "freeBlocks (hfs_unmap_free_extent m a b) = freeBlocks m"
  "totalBlocks (hfs_unmap_free_extent m a b) = totalBlocks m"
  by (simp_all add: hfs_unmap_free_extent_def Let_def)

text \<open>Clearing bits of the bitmap: the blocks that were really cleared, all of them on success.\<close>

definition cleared :: "hfsmount \<Rightarrow> nat \<Rightarrow> nat \<Rightarrow> hfsmount \<Rightarrow> bool" where
  "cleared m s k m' \<longleftrightarrow> same_search m m' \<and> bm_set (vcbBitmap m') = bm_set (vcbBitmap m) - run s k \<and>
     hfs_reserved_ranges m' = hfs_reserved_ranges m \<and> tentativeBlocks m' = tentativeBlocks m \<and>
     lockedBlocks m' = lockedBlocks m \<and> freeBlocks m' = freeBlocks m"

lemma cleared_hints: "cleared m s k m1 \<Longrightarrow> hints_only m1 m2 \<Longrightarrow> cleared m s k m2"
  by (auto simp: cleared_def hints_only_def same_search_trans)

lemma mark_free_cleared:
  assumes "bitmap_ok m" "0 < n" "s + n \<le> totalBlocks m" "BlockMarkFreeInternal bread m s n True = (err, m')"
  shows "if err = noErr then cleared m s n m' \<and> run s n \<subseteq> bm_set (vcbBitmap m)
    else (err \<in> range bread \<or> err = EIO \<and> \<not> run s n \<subseteq> bm_set (vcbBitmap m)) \<and> (\<exists>k\<le>n. cleared m s k m')"
proof -
  have lim: "s + n \<le> 32 * length (vcbBitmap m)" "add32 s n \<le> totalBlocks m"
    using assms(1,3) by (auto simp: bitmap_ok_def add32_def intro: order_trans [OF mod_less_eq_dividend])
  note r = BlockMarkFreeInternal_spec [OF assms(1,2) lim(1), where bread = bread and v = True, unfolded assms(4) prod.case]
  show ?thesis
  proof (cases "err = noErr")
    case True
    then obtain m2 buf cur where f: "free_done m True s n m2 buf cur m'"
      using r by auto
    then have b: "bm_only m m2"
      by (simp add: free_done_def)
    show ?thesis
      using f True bm_only_same_search [OF b] by (auto simp: free_done_def cleared_def split: prod.splits)
  next
    case False
    then obtain k where k: "k \<le> n" "bm_set (vcbBitmap m') = bm_set (vcbBitmap m) - run s k" and
      f: "free_fault bread (\<not> run s n \<subseteq> bm_set (vcbBitmap m) \<or> totalBlocks m < add32 s n) m err m'"
      using r by auto
    have hint: "hints_only m (hfs_mark_inconsistent m)"
      by simp
    have "cleared m s k m'" if "bm_only m m'"
      using bm_only_same_search [OF that] k(2) by (simp add: cleared_def)
    moreover have "cleared m s k m'" if b: "bm_only (hfs_mark_inconsistent m) m'"
      using bm_only_same_search [OF b] k(2) hint same_search_trans [of m "hfs_mark_inconsistent m" m'] by (simp add: cleared_def hints_only_def)
    ultimately show ?thesis
      using f k(1) False lim(2) by (auto simp: free_fault_def)
  qed
qed

lemma cleared_ok:
  assumes ok: "alloc_ok m" and n: "0 < n" "s + n \<le> totalBlocks m" "k \<le> n"
    and c: "cleared (snd (hfs_release_summary m s n)) s k m'"
  shows "alloc_ok m'" "static m m'" "fec_blocks m' = fec_blocks m" "hfs_reserved_ranges m' = hfs_reserved_ranges m" "freeBlocks m' = freeBlocks m"
    "taken_blocks m' 0 = taken_blocks m 0 - run s k \<union> entry_blocks (tentative m @ locked m)" "bm_set (vcbBitmap m') = bm_set (vcbBitmap m) - run s k"
proof -
  define m1 where "m1 = snd (hfs_release_summary m s n)"
  have sm: "srch_only m m1"
    using sum_only_srch [OF hfs_release_summary_sum_only, of m s n] by (simp add: m1_def)
  note e = srch_only_reserved [OF sm]
  have sr: "search_ok m" "reserved_ok m"
    using ok by (simp_all add: alloc_ok_def)
  note d = reserved_okD [OF sr(2)]
  have m': "same_search m1 m'" "bm_set (vcbBitmap m') = bm_set (vcbBitmap m) - run s k" "hfs_reserved_ranges m' = hfs_reserved_ranges m"
    "tentativeBlocks m' = tentativeBlocks m" "lockedBlocks m' = lockedBlocks m" "freeBlocks m' = freeBlocks m"
    using c e unfolding m1_def [symmetric] cleared_def by simp_all
  show "hfs_reserved_ranges m' = hfs_reserved_ranges m" "freeBlocks m' = freeBlocks m" "bm_set (vcbBitmap m') = bm_set (vcbBitmap m) - run s k"
    by (fact m')+
  show st: "static m m'"
    using static_trans [OF e(7) same_search_facts(1) [OF m'(1)]] .
  show tk: "taken_blocks m' 0 = taken_blocks m 0 - run s k \<union> entry_blocks (tentative m @ locked m)"
    by (auto simp: taken_blocks_0 m')
  have "reserved_ok m'"
    using d st m' by (intro reserved_okI) (auto simp: static_def)
  moreover have "run s k \<subseteq> run s n"
    using n(3) by (auto simp: run_def)
  then have "taken_blocks m 0 - run s n \<subseteq> taken_blocks m' 0" "taken_blocks m' 0 \<subseteq> taken_blocks m 0"
    unfolding tk by (auto simp: taken_blocks_0)
  note f = search_ok_freed [OF sr(1) n(1,2) m'(1) [unfolded m1_def] reserved_okD(10) [OF \<open>reserved_ok m'\<close>] this]
  then show "fec_blocks m' = fec_blocks m" "alloc_ok m'"
    using \<open>reserved_ok m'\<close> ok st by (simp_all add: alloc_ok_def static_def)
qed


definition dealloc_result :: "(nat \<Rightarrow> hfs_err) \<Rightarrow> hfsmount \<Rightarrow> nat \<Rightarrow> nat \<Rightarrow> u32 \<Rightarrow> hfs_err \<times> hfsmount \<Rightarrow> bool" where
  "dealloc_result bread m s n flags r \<longleftrightarrow> (case r of (err, m') \<Rightarrow>
     alloc_ok m' \<and> static m m' \<and> hfs_reserved_ranges m' = hfs_reserved_ranges m \<and>
     (if err = noErr then run s n \<subseteq> bm_set (vcbBitmap m) \<and> bm_set (vcbBitmap m') = bm_set (vcbBitmap m) - run s n \<and>
        freeBlocks m' = (if ISSET flags HFS_ALLOC_SKIPFREEBLKS then freeBlocks m else add32 (freeBlocks m) n) \<and>
        fec_blocks m' \<subseteq> fec_blocks m \<union> (if jnl m then {} else run s n)
      else (err \<in> range bread \<or> err = EIO \<and> \<not> run s n \<subseteq> bm_set (vcbBitmap m)) \<and> freeBlocks m' = freeBlocks m \<and>
        fec_blocks m' = fec_blocks m \<and> (\<exists>k\<le>n. bm_set (vcbBitmap m') = bm_set (vcbBitmap m) - run s k)))"

lemma alloc_ok_freeBlocks [simp]: "alloc_ok (m\<lparr>freeBlocks := a\<rparr>) = alloc_ok m" "fec_blocks (m\<lparr>freeBlocks := a\<rparr>) = fec_blocks m"
proof -
  have "same_search m (m\<lparr>freeBlocks := a\<rparr>)" "same_search (m\<lparr>freeBlocks := a\<rparr>) m"
    by (simp_all add: same_search_def static_def)
  then show "alloc_ok (m\<lparr>freeBlocks := a\<rparr>) = alloc_ok m"
    using search_ok_counters(1) [of m "m\<lparr>freeBlocks := a\<rparr>"] search_ok_counters(1) [of "m\<lparr>freeBlocks := a\<rparr>" m]
    by (auto simp: alloc_ok_def reserved_slack_def)
qed (simp add: fec_blocks_def fec_entries_def)

lemma alloc_ok_cache_add:
  assumes ok: "alloc_ok m" and n: "s + n \<le> totalBlocks m" "run s n \<inter> taken_blocks m 0 = {}"
  defines "m' \<equiv> snd (add_free_extent_cache m s n)"
  shows "alloc_ok m'" "srch_only m m'" "fec_blocks m' \<subseteq> fec_blocks m \<union> run s n"
proof -
  have lt: "s + n < 4294967296" "search_ok m"
    using ok n(1) by (simp_all add: alloc_ok_def)
  note a = search_ok_cache_add [OF lt(2,1) n(2), folded m'_def]
  show "srch_only m m'" "fec_blocks m' \<subseteq> fec_blocks m \<union> run s n"
    by (fact a)+
  show "alloc_ok m'"
    using ok a(1) srch_only_reserved(6) [OF a(2), of 0 0] srch_only_same(4) [OF a(2)] by (simp add: alloc_ok_def)
qed

lemma BlockDeallocate_spec:
  assumes ok: "alloc_ok m" and n: "0 < n" "s + n \<le> totalBlocks m" and fl: "\<not> ISSET flags (or HFS_ALLOC_TENTATIVE HFS_ALLOC_LOCKED)"
    and res: "run s n \<inter> entry_blocks (tentative m @ locked m) = {}"
  shows "dealloc_result bread m s n flags (BlockDeallocate bread m s n flags)"
proof -
  define m1 where "m1 = snd (hfs_release_summary m s n)"
  obtain err m2 where r: "BlockMarkFreeInternal bread m1 s n True = (err, m2)"
    by fastforce
  have sm: "srch_only m m1"
    using sum_only_srch [OF hfs_release_summary_sum_only, of m s n] by (simp add: m1_def)
  note e = srch_only_reserved [OF sm] srch_only_same [OF sm]
  have "bitmap_ok m1" "s + n \<le> totalBlocks m1"
    using ok n(2) e by (auto simp: alloc_ok_def search_ok_def volume_ok_def)
  note f = mark_free_cleared [OF this(1) n(1) this(2) r, unfolded e(2)]
  note ck = cleared_ok [OF ok n, folded m1_def]
  show ?thesis
  proof (cases "err = noErr")
    case False
    then have "BlockDeallocate bread m s n flags = (err, m2)"
      using r fl n(1) by (simp add: BlockDeallocate_def m1_def [symmetric] Let_def)
    then show ?thesis
      using False f ck by (auto simp: dealloc_result_def)
  next
    case True
    define m4 where "m4 = (let m3 = (if \<not> ISSET flags HFS_ALLOC_SKIPFREEBLKS then m2\<lparr>freeBlocks := add32 (freeBlocks m2) n\<rparr> else m2)
        in m3\<lparr>hfs_freed_block_count := add32 (hfs_freed_block_count m3) n\<rparr>)"
    define m5 where "m5 = (if nextAllocation m4 = add32 s n then HFS_UPDATE_NEXT_ALLOCATION m4 (sub32 (nextAllocation m4) n) else m4)"
    define m6 where "m6 = (if \<not> jnl m5 then let m' = snd (add_free_extent_cache m5 s n)
        in if s < sparseAllocation m' then m'\<lparr>sparseAllocation := s\<rparr> else m' else m5)"
    have eq: "BlockDeallocate bread m s n flags = (noErr, MarkVCBDirty m6)"
      using r fl n(1) True by (simp add: BlockDeallocate_def m1_def [symmetric] m4_def m5_def m6_def Let_def)
    have c: "cleared m1 s n m2" "run s n \<subseteq> bm_set (vcbBitmap m)"
      using f True by simp_all
    note k = ck [OF order_refl c(1)]
    define mf where "mf = (if \<not> ISSET flags HFS_ALLOC_SKIPFREEBLKS then m2\<lparr>freeBlocks := add32 (freeBlocks m2) n\<rparr> else m2)"
    have mf: "alloc_ok mf" "static m2 mf" "taken_blocks mf 0 = taken_blocks m2 0" "fec_blocks mf = fec_blocks m2" "vcbBitmap mf = vcbBitmap m2"
      "hfs_reserved_ranges mf = hfs_reserved_ranges m2"
      using k(1) by (simp_all add: mf_def taken_blocks_0 static_def)
    have h: "hints_only mf m5"
      by (simp add: mf_def m4_def m5_def Let_def)
    note hs = hints_only_same [OF h]
    have m5: "alloc_ok m5" "static m m5" "fec_blocks m5 = fec_blocks m" "run s n \<inter> taken_blocks m5 0 = {}"
      "freeBlocks m5 = (if ISSET flags HFS_ALLOC_SKIPFREEBLKS then freeBlocks m else add32 (freeBlocks m) n)"
      "bm_set (vcbBitmap m5) = bm_set (vcbBitmap m) - run s n" "hfs_reserved_ranges m5 = hfs_reserved_ranges m"
      using mf hs k res static_trans [OF k(2) mf(2), THEN static_trans] h by (auto simp: hints_only_def mf_def)
    then have "s + n \<le> totalBlocks m5" "jnl m5 = jnl m"
      using n(2) by (simp_all add: static_def)
    note a = alloc_ok_cache_add [OF m5(1) this(1) m5(4)]
    show ?thesis
    proof (cases "jnl m")
      case True
      then have "hints_only m5 (MarkVCBDirty m6)"
        using \<open>jnl m5 = jnl m\<close> by (simp add: m6_def)
      from this hints_only_same [OF this] show ?thesis
        using m5 c(2) static_trans [OF m5(2)] True by (auto simp: eq dealloc_result_def hints_only_def)
    next
      case False
      then have "hints_only (snd (add_free_extent_cache m5 s n)) (MarkVCBDirty m6)"
        using \<open>jnl m5 = jnl m\<close> by (simp add: m6_def Let_def)
      from this hints_only_same [OF this] show ?thesis
        using m5 c(2) a srch_only_reserved [OF a(2)] static_trans [OF static_trans [OF m5(2)]] False
        by (auto simp: eq dealloc_result_def hints_only_def)
    qed
  qed
qed

section \<open>Marking\<close>

lemma unmap_alloc_same [simp]:
  "same_search m' (hfs_unmap_alloc_extent m a b) = same_search m' m"
  "hfs_reserved_ranges (hfs_unmap_alloc_extent m a b) = hfs_reserved_ranges m" "tentativeBlocks (hfs_unmap_alloc_extent m a b) = tentativeBlocks m"
  "lockedBlocks (hfs_unmap_alloc_extent m a b) = lockedBlocks m" "freeBlocks (hfs_unmap_alloc_extent m a b) = freeBlocks m"
  "vcbBitmap (hfs_unmap_alloc_extent m a b) = vcbBitmap m"
  by (simp_all add: hfs_unmap_alloc_extent_def)

text \<open>The first \<open>k\<close> blocks of the run are marked; the journal forgets about trims of the run.\<close>

definition marked :: "hfsmount \<Rightarrow> nat \<Rightarrow> nat \<Rightarrow> nat \<Rightarrow> hfsmount \<Rightarrow> bool" where
  "marked m s n k m' \<longleftrightarrow> same_search m m' \<and> bm_set (vcbBitmap m') = bm_set (vcbBitmap m) \<union> run s k \<and>
     hfs_reserved_ranges m' = hfs_reserved_ranges m \<and> tentativeBlocks m' = tentativeBlocks m \<and>
     lockedBlocks m' = lockedBlocks m \<and> freeBlocks m' = freeBlocks m \<and> jnl_trims m' = jnl_trims (hfs_unmap_alloc_extent m s n)"

lemma mark_alloc_marked:
  assumes ok: "search_ok m" and n: "0 < n" "s + n \<le> allocLimit m" and r: "BlockMarkAllocatedInternal bread m s n flags = (err, m')"
  shows "if ISSET flags (or HFS_ALLOC_LOCKED HFS_ALLOC_TENTATIVE) then err = noErr \<and> marked m s n 0 m'
    else if err = noErr then marked m s n n m' else err \<in> range bread \<and> (\<exists>k\<le>n. marked m s n k m')"
proof (cases "ISSET flags (or HFS_ALLOC_LOCKED HFS_ALLOC_TENTATIVE)")
  case True
  then show ?thesis
    using r by (auto simp: BlockMarkAllocatedInternal_def marked_def)
next
  case False
  have lim: "bitmap_ok m" "s + n \<le> 32 * length (vcbBitmap m)"
    using ok n(2) by (auto simp: search_ok_def volume_ok_def bitmap_ok_def)
  note f = BlockMarkAllocatedInternal_spec [OF lim(1) n(1) lim(2) False, of bread, unfolded r prod.case]
  then have b: "bm_only (hfs_unmap_alloc_extent m s n) m'"
    by blast
  have sm: "same_search m (hfs_unmap_alloc_extent m s n)"
    by simp
  show ?thesis
    using f False bm_only_same_search [OF b] same_search_trans [OF sm] by (auto simp: marked_def)
qed

text \<open>The cache forgets the run.\<close>

lemma search_ok_pointers:
  assumes ok: "search_ok m" and same: "same_search m m1" "reservations_ok m1"
    and tk: "taken_blocks m 0 \<subseteq> taken_blocks m1 0" "taken_blocks m1 0 \<subseteq> taken_blocks m 0 \<union> run s n"
    and n: "0 < n" "s + n \<le> allocLimit m" and fl: "\<not> ISSET flags (or HFS_ALLOC_USE_TENTATIVE HFS_ALLOC_COMMIT)"
    and m2_def: "m2 = alloc_update_pointers m1 flags u (mk_extent s n)"
  shows "search_ok m2" "fec_blocks m2 \<subseteq> fec_blocks m - run s n" "\<exists>m'. hints_only m1 m' \<and> srch_only m' m2"
proof -
  obtain m' where m2: "m2 = remove_free_extent_cache m' s n" and h: "hints_only m1 m'"
    using fl by (simp add: m2_def alloc_update_pointers_def Let_def)
  note fo = remove_free_extent_cache_only [of m' s n, folded m2]
  note so = fec_only_srch [OF fo]
  show "\<exists>m'. hints_only m1 m' \<and> srch_only m' m2"
    using h so by blast
  note hs = hints_only_same [OF h] and f = same_search_facts [OF same(1)]
  have ss: "same_search m m'"
    using h same(1) by (auto simp: hints_only_def intro: same_search_trans)
  note f' = same_search_facts [OF ss]
  have rs: "reservations_ok m'"
    using h same(2) by (simp add: hints_only_def reservations_ok_def)
  have lim: "s + n < 4294967296" "fec_ok m'" "volume_ok m'"
    using ok n(2) f' static_volume [OF f'(1) _ rs] by (auto simp: search_ok_def volume_ok_def)
  have fec: "fec_ok m2" "fec_blocks m2 \<subseteq> fec_blocks m' - run s n"
    using remove_free_extent_cache_result [OF lim(2) n(1) lim(1)] by (simp_all add: m2 fec_remove_result_def run_def)
  then show "fec_blocks m2 \<subseteq> fec_blocks m - run s n"
    using f'(3) by simp
  have "summary_true m'"
    using ok tk(1) hs(1) f' by (auto simp: search_ok_def summary_true_def)
  moreover have "fec_blocks m2 \<inter> taken_blocks m1 0 = {}"
    using fec(2) tk(2) ok f'(3) unfolding search_ok_def by blast
  ultimately show "search_ok m2"
    using fec lim(3) srch_only_same(1,2) [OF so] summary_true_fec_only [OF fo] hs(1) by (simp add: search_ok_def)
qed


lemma alloc_steal_spec:
  assumes inv: "steal_inv s n [] (tentative m) m" and n: "0 < n" "s + n < 4294967296"
    and ig: "ISSET flags HFS_ALLOC_IGNORE_TENTATIVE \<or> entry_blocks (tentative m) \<inter> run s n = {}"
    and lk: "entry_blocks (locked m) \<inter> bm_set (vcbBitmap m) = {}" "lockedBlocks m = blocks_of (locked m)" "lockedBlocks m < 4294967296"
    and r: "alloc_steal m flags (mk_extent s n) ap = (ap', m')"
  shows "search_ok m'" "reserved_ok m'" "steal_frame m m'" "entry_blocks (tentative m') \<subseteq> entry_blocks (tentative m) - run s n"
    "\<not> ISSET flags HFS_ALLOC_IGNORE_TENTATIVE \<Longrightarrow> m' = m \<and> ap' = ap"
proof -
  have "search_ok m' \<and> reserved_ok m' \<and> steal_frame m m' \<and> entry_blocks (tentative m') \<subseteq> entry_blocks (tentative m) - run s n \<and>
    (\<not> ISSET flags HFS_ALLOC_IGNORE_TENTATIVE \<longrightarrow> m' = m \<and> ap' = ap)"
  proof (cases "ISSET flags HFS_ALLOC_IGNORE_TENTATIVE")
    case True
    have e: "sub32 (add32 s n) (Suc 0) = s + n - Suc 0"
      using n by (simp add: add32_eq sub32_eq)
    obtain cells after where st: "steal_tentative s (s + n - 1) [] (tentative m) m = (cells, m')" "steal_inv s n after [] m'" "steal_frame m m'"
      using True r steal_tentative_spec [OF inv n(1)] by (auto simp: alloc_steal_def e Let_def split: prod.splits)
    have "reserved_ok m'"
      using st(2,3) lk by (intro reserved_okI) (auto simp: steal_inv_def steal_frame_def)
    moreover have "entry_blocks (tentative m') \<inter> run s n = {}"
      using st(2) by (simp add: steal_inv_def)
    ultimately show ?thesis
      using st True by (auto simp: steal_inv_def steal_frame_def)
  next
    case False
    then have "m' = m" "ap' = ap" "entry_blocks (tentative m) \<inter> run s n = {}"
      using r ig by (simp_all add: alloc_steal_def)
    moreover from this have "reserved_ok m"
      using inv lk by (intro reserved_okI) (auto simp: steal_inv_def)
    ultimately show ?thesis
      using inv by (auto simp: steal_inv_def)
  qed
  then show "search_ok m'" "reserved_ok m'" "steal_frame m m'" "entry_blocks (tentative m') \<subseteq> entry_blocks (tentative m) - run s n"
    "\<not> ISSET flags HFS_ALLOC_IGNORE_TENTATIVE \<Longrightarrow> m' = m \<and> ap' = ap"
    by blast+
qed


text \<open>An allocation that sets bits of the bitmap.\<close>

abbreviation reserving :: "u32 \<Rightarrow> bool" where
  "reserving flags \<equiv> ISSET flags (or HFS_ALLOC_LOCKED HFS_ALLOC_TENTATIVE)"

abbreviation from_reservation :: "u32 \<Rightarrow> bool" where
  "from_reservation flags \<equiv> ISSET flags (or HFS_ALLOC_USE_TENTATIVE HFS_ALLOC_COMMIT)"

definition alloc_done :: "hfsmount \<Rightarrow> u32 \<Rightarrow> nat \<Rightarrow> nat \<Rightarrow> hfsmount \<Rightarrow> bool" where
  "alloc_done m flags s n m' \<longleftrightarrow> alloc_ok m' \<and> static m m' \<and> bm_set (vcbBitmap m') = bm_set (vcbBitmap m) \<union> run s n \<and>
     freeBlocks m' = (if ISSET flags HFS_ALLOC_SKIPFREEBLKS then freeBlocks m else sub32 (freeBlocks m) n) \<and>
     locked m' = locked m \<and> entry_blocks (tentative m') \<subseteq> entry_blocks (tentative m) - run s n \<and>
     (\<not> ISSET flags HFS_ALLOC_IGNORE_TENTATIVE \<longrightarrow> tentative m' = tentative m) \<and>
     jnl_trims m' = jnl_trims (hfs_unmap_alloc_extent m s n)"

lemma ISSET_parts:
  "ISSET flags (or a b) \<longleftrightarrow> ISSET flags a \<or> ISSET flags b"
  by (auto simp: ISSET_def bit_eq_iff bit_simps)

lemma alloc_from_none [simp]: "\<not> from_reservation flags \<Longrightarrow> alloc_from_reservation m flags r n = (m, r)"
  by (cases r) (simp_all add: alloc_from_reservation_def ISSET_parts)

lemma alloc_reserve_none [simp]: "\<not> reserving flags \<Longrightarrow> alloc_reserve m flags e r = (m, r)"
  by (simp add: alloc_reserve_def ISSET_parts)

lemma taken_blocks_flags:
  assumes "\<not> ISSET flags HFS_ALLOC_IGNORE_RESERVED"
  shows "taken_blocks m flags = bm_set (vcbBitmap m) \<union> entry_blocks (locked m) \<union>
    (if ISSET flags HFS_ALLOC_IGNORE_TENTATIVE then {} else entry_blocks (tentative m))"
  using assms by (auto simp: taken_blocks_def reserved_blocks_def)


text \<open>What the steps from the marked bitmap to the new counts leave.\<close>

lemma alloc_pointers_counts:
  assumes ok: "search_ok m" "reserved_ok m" and mk: "marked m s n k m1"
    and n: "0 < n" "s + n \<le> allocLimit m" "k \<le> n" and fl: "\<not> from_reservation flags"
    and m4: "m4 = alloc_update_counts (alloc_update_pointers m1 flags u (mk_extent s n)) flags n"
  shows "search_ok m4" "fec_blocks m4 \<subseteq> fec_blocks m - run s n" "static m m4" "bm_set (vcbBitmap m4) = bm_set (vcbBitmap m) \<union> run s k"
    "hfs_reserved_ranges m4 = hfs_reserved_ranges m" "jnl_trims m4 = jnl_trims (hfs_unmap_alloc_extent m s n)"
    "tentativeBlocks m4 = (if ISSET flags HFS_ALLOC_TENTATIVE then add32 (tentativeBlocks m) n else tentativeBlocks m)"
    "lockedBlocks m4 = (if \<not> ISSET flags HFS_ALLOC_TENTATIVE \<and> ISSET flags HFS_ALLOC_LOCKED then add32 (lockedBlocks m) n else lockedBlocks m)"
    "freeBlocks m4 = (if ISSET flags (or (or HFS_ALLOC_LOCKED HFS_ALLOC_TENTATIVE) HFS_ALLOC_SKIPFREEBLKS) then freeBlocks m else sub32 (freeBlocks m) n)"
proof -
  define m2 where "m2 = alloc_update_pointers m1 flags u (mk_extent s n)"
  have m4_def: "m4 = alloc_update_counts m2 flags n"
    by (simp add: m4 m2_def)
  have m1: "same_search m m1" "bm_set (vcbBitmap m1) = bm_set (vcbBitmap m) \<union> run s k" "hfs_reserved_ranges m1 = hfs_reserved_ranges m"
    "tentativeBlocks m1 = tentativeBlocks m" "lockedBlocks m1 = lockedBlocks m" "freeBlocks m1 = freeBlocks m"
    "jnl_trims m1 = jnl_trims (hfs_unmap_alloc_extent m s n)"
    using mk by (simp_all add: marked_def)
  have "reservations_ok m1" "taken_blocks m 0 \<subseteq> taken_blocks m1 0" "taken_blocks m1 0 \<subseteq> taken_blocks m 0 \<union> run s n"
    using reserved_okD(10) [OF ok(2)] m1(2,3) n(3) by (auto simp: reservations_ok_def taken_blocks_0 run_def)
  note p = search_ok_pointers [OF ok(1) m1(1) this n(1,2) fl m2_def]
  from p(3) obtain mh where mh: "hints_only m1 mh" "srch_only mh m2"
    by blast
  note sr = srch_only_reserved [OF mh(2)] and hs = hints_only_same [OF mh(1)]
  have m2: "vcbBitmap m2 = vcbBitmap m1" "hfs_reserved_ranges m2 = hfs_reserved_ranges m" "tentativeBlocks m2 = tentativeBlocks m"
    "lockedBlocks m2 = lockedBlocks m" "freeBlocks m2 = freeBlocks m" "jnl_trims m2 = jnl_trims (hfs_unmap_alloc_extent m s n)" "static m m2"
    using sr mh(1) m1 static_trans [OF static_trans [OF same_search_facts(1) [OF m1(1)] hs(5)] sr(7)] by (simp_all add: hints_only_def)
  have same: "same_search m2 m4" "vcbBitmap m4 = vcbBitmap m2" "hfs_reserved_ranges m4 = hfs_reserved_ranges m2" "jnl_trims m4 = jnl_trims m2"
    by (simp_all add: m4_def alloc_update_counts_def MarkVCBDirty_def)
  note c = search_ok_counters [OF p(1) same(1-3)]
  show "search_ok m4" "fec_blocks m4 \<subseteq> fec_blocks m - run s n" "static m m4" "bm_set (vcbBitmap m4) = bm_set (vcbBitmap m) \<union> run s k"
    "hfs_reserved_ranges m4 = hfs_reserved_ranges m" "jnl_trims m4 = jnl_trims (hfs_unmap_alloc_extent m s n)"
    using c p(2) m1 m2 same static_trans [OF m2(7) same_search_facts(1) [OF same(1)]] by simp_all
  show "tentativeBlocks m4 = (if ISSET flags HFS_ALLOC_TENTATIVE then add32 (tentativeBlocks m) n else tentativeBlocks m)"
    "lockedBlocks m4 = (if \<not> ISSET flags HFS_ALLOC_TENTATIVE \<and> ISSET flags HFS_ALLOC_LOCKED then add32 (lockedBlocks m) n else lockedBlocks m)"
    "freeBlocks m4 = (if ISSET flags (or (or HFS_ALLOC_LOCKED HFS_ALLOC_TENTATIVE) HFS_ALLOC_SKIPFREEBLKS) then freeBlocks m else sub32 (freeBlocks m) n)"
    using m2
    by (auto simp: ISSET_parts m4_def alloc_update_counts_def MarkVCBDirty_def)
qed

lemma alloc_mark_plain:
  assumes ok: "alloc_ok m" and fl: "\<not> reserving flags" "\<not> from_reservation flags" "\<not> ISSET flags HFS_ALLOC_IGNORE_RESERVED"
    and f: "startBlock found + blockCount found \<le> allocLimit m" "run (startBlock found) (blockCount found) \<inter> taken_blocks m flags = {}"
    and n: "0 < n" "n \<le> blockCount found" "n = alloc_align ap minBlocks (blockCount found)"
    and r: "alloc_mark bread m found flags ap minBlocks u = (err, ext, ap', m')"
  shows "if err = noErr then ext = mk_extent (startBlock found) n \<and> alloc_done m flags (startBlock found) n m'
    else err \<in> range bread \<and> ext = mk_extent 0 0 \<and> freeBlocks m' = freeBlocks m \<and> static m m'"
proof -
  define s where "s = startBlock found"
  obtain err1 m1 where b: "BlockMarkAllocatedInternal bread m s n flags = (err1, m1)"
    by fastforce
  have sr: "search_ok m" "reserved_ok m" and lim: "s + n \<le> allocLimit m" "allocLimit m < 4294967296"
    using ok f(1) n(2) by (auto simp: alloc_ok_def s_def search_ok_def fec_ok_def)
  note d = reserved_okD [OF sr(2)]
  note mk = mark_alloc_marked [OF sr(1) n(1) lim(1) b]
  show ?thesis
  proof (cases "err1 = noErr")
    case False
    then have "err = err1" "ext = mk_extent 0 0" "m' = m1"
      using r b by (simp_all add: alloc_mark_def Let_def s_def [symmetric] n(3) [symmetric])
    then show ?thesis
      using mk fl(1) False same_search_facts(1) by (auto simp: marked_def)
  next
    case True
    then have mk: "marked m s n n m1"
      using mk fl(1) by simp
    define m2 where "m2 = alloc_update_pointers m1 flags u (mk_extent s n)"
    define m4 where "m4 = alloc_update_counts m2 flags n"
    have e: "err = noErr" "ext = mk_extent s n" "\<exists>ap0. alloc_steal m4 flags (mk_extent s n) ap0 = (ap', m')"
      using r b True fl n(1) by (auto simp: ISSET_parts alloc_mark_def Let_def s_def [symmetric] n(3) [symmetric] m2_def [symmetric]
          m4_def [symmetric] split: prod.splits if_splits)
    note k = alloc_pointers_counts [OF sr mk n(1) lim(1) order_refl fl(2) m4_def [unfolded m2_def]]
    have sub: "run s n \<subseteq> run (startBlock found) (blockCount found)"
      using n(2) by (auto simp: run_def s_def)
    then have "run s n \<inter> taken_blocks m flags = {}"
      using f(2) by blast
    then have fr: "run s n \<inter> (bm_set (vcbBitmap m) \<union> entry_blocks (locked m)) = {}"
      "ISSET flags HFS_ALLOC_IGNORE_TENTATIVE \<or> entry_blocks (tentative m) \<inter> run s n = {}"
      using taken_blocks_flags [OF fl(3), of m] by (auto simp: disjoint_iff split: if_splits)
    have inv: "steal_inv s n [] (tentative m4) m4"
      using d k fl(1) by (auto simp: steal_inv_def ISSET_parts static_def)
    from e(3) obtain ap0 where st: "alloc_steal m4 flags (mk_extent s n) ap0 = (ap', m')"
      by blast
    have pre: "s + n < 4294967296" "ISSET flags HFS_ALLOC_IGNORE_TENTATIVE \<or> entry_blocks (tentative m4) \<inter> run s n = {}"
      "entry_blocks (locked m4) \<inter> bm_set (vcbBitmap m4) = {}" "lockedBlocks m4 = blocks_of (locked m4)" "lockedBlocks m4 < 4294967296"
      using lim fr d k fl(1) by (auto simp: ISSET_parts)
    note z = alloc_steal_spec [OF inv n(1) pre st]
    have "static m m'"
      using z(3) static_trans [OF k(3)] by (simp add: steal_frame_def)
    moreover from this have "alloc_ok m'"
      using z(1,2) ok by (simp add: alloc_ok_def static_def)
    moreover have "bm_set (vcbBitmap m') = bm_set (vcbBitmap m) \<union> run s n" "locked m' = locked m" "jnl_trims m' = jnl_trims (hfs_unmap_alloc_extent m s n)"
      "freeBlocks m' = (if ISSET flags HFS_ALLOC_SKIPFREEBLKS then freeBlocks m else sub32 (freeBlocks m) n)"
      using z(3) k fl(1) by (simp_all add: steal_frame_def ISSET_parts)
    ultimately have "alloc_done m flags s n m'"
      using z(4,5) k(5) by (simp add: alloc_done_def)
    then show ?thesis
      using e by (simp add: s_def)
  qed
qed


text \<open>A new reservation.\<close>

definition reserve_done :: "hfsmount \<Rightarrow> u32 \<Rightarrow> nat \<Rightarrow> nat \<Rightarrow> rl_entry \<Rightarrow> hfsmount \<Rightarrow> bool" where
  "reserve_done m flags s n e m' \<longleftrightarrow> alloc_ok m' \<and> static m m' \<and> bm_set (vcbBitmap m') = bm_set (vcbBitmap m) \<and>
     freeBlocks m' = freeBlocks m \<and> entry_blocks [e] = run s n \<and>
     (if ISSET flags HFS_ALLOC_TENTATIVE then tentative m' = e # take 3 (tentative m) \<and> locked m' = locked m
      else locked m' = e # locked m \<and> entry_blocks (tentative m') \<subseteq> entry_blocks (tentative m) - run s n \<and>
        (\<not> ISSET flags HFS_ALLOC_IGNORE_TENTATIVE \<longrightarrow> tentative m' = tentative m)) \<and>
     jnl_trims m' = jnl_trims (hfs_unmap_alloc_extent m s n)"


lemma lock_ready:
  assumes ok: "search_ok m" "reserved_slack 0 n m" and n: "0 < n" "s + n \<le> allocLimit m"
    and fr: "run s n \<inter> (bm_set (vcbBitmap m) \<union> entry_blocks (locked m)) = {}" "run s n \<inter> fec_blocks m = {}"
  defines "e \<equiv> rl_make (int s) (int (s + n - 1))"
  defines "m1 \<equiv> set_ranges HFS_LOCKED_BLOCKS (e # locked m) m"
  shows "steal_inv s n [] (tentative m1) m1" "entry_blocks [e] = run s n"
    "entry_blocks (locked m1) \<inter> bm_set (vcbBitmap m1) = {}" "lockedBlocks m1 = blocks_of (locked m1)" "lockedBlocks m1 < 4294967296"
    "tentative m1 = tentative m" "same_search m m1"
proof -
  note d = reserved_okD [OF ok(2)]
  have e: "range_ok (allocLimit m) e"
    using n by (auto simp: e_def range_ok_def)
  show er: "entry_blocks [e] = run s n"
    using entry_run(1) [OF e] n(1) by (simp add: e_def rl_len_def)
  have lk: "locked m1 = e # locked m" "tentative m1 = tentative m" "vcbBitmap m1 = vcbBitmap m" "allocLimit m1 = allocLimit m"
    by (simp_all add: m1_def)
  have rk: "ranges_ok (allocLimit m) (locked m1)"
    using d(2) e fr(1) er unfolding lk ranges_ok_Cons by blast
  show "tentative m1 = tentative m" "same_search m m1"
    by (simp_all add: m1_def)
  show "entry_blocks (locked m1) \<inter> bm_set (vcbBitmap m1) = {}"
    using d(5) fr(1) er unfolding lk entry_blocks_Cons [of e "locked m"] by blast
  have "nat (rl_len e) = n" "0 \<le> rl_len e"
    using n(1) by (simp_all add: e_def rl_len_def)
  moreover have "\<forall>x\<in>set (locked m). 0 \<le> rl_len x"
    using ranges_ok_len [OF d(2)] by fastforce
  ultimately show "lockedBlocks m1 = blocks_of (locked m1)" "lockedBlocks m1 < 4294967296"
    using d(7,9) unfolding lk by (simp_all add: blocks_of_Cons) (simp_all add: m1_def)
  have tk: "taken_blocks m1 0 = taken_blocks m 0 \<union> run s n"
    by (auto simp: taken_blocks_0 lk entry_blocks_Cons [of e "locked m"] er)
  have "search_ok m1"
  proof (rule search_ok_take [OF ok(1)])
    show "reservations_ok m1"
      using d(1) rk range_ok_entries by (auto simp: reservations_ok_def lk ranges_ok_def)
    show "fec_blocks m \<inter> taken_blocks m1 0 = {}"
      using ok(1) fr(2) tk by (auto simp: search_ok_def)
    show "same_search m m1"
      by (simp add: m1_def)
  qed (simp_all add: tk)
  moreover have "entry_blocks (tentative m) \<inter> (bm_set (vcbBitmap m) \<union> entry_blocks (locked m1)) \<subseteq> run s n"
    "run s n \<subseteq> bm_set (vcbBitmap m) \<union> entry_blocks (locked m1)"
    using d(3,4) er unfolding lk entry_blocks_Cons [of e "locked m"] by blast+
  ultimately show "steal_inv s n [] (tentative m1) m1"
    using d(1,6,8) rk by (simp add: steal_inv_def lk) (simp add: m1_def)
qed

lemma locked_bound:
  assumes "ranges_ok limit rs" "run s n \<inter> entry_blocks rs = {}" "s + n \<le> limit"
  shows "blocks_of rs + n \<le> limit"
proof -
  have "entry_blocks rs \<subseteq> {..<limit}"
    using assms(1) by (fastforce simp: ranges_ok_def range_ok_def entry_blocks_def)
  then have "entry_blocks rs \<union> run s n \<subseteq> {..<limit}"
    using assms(3) by (auto simp: run_def)
  then have "card (entry_blocks rs \<union> run s n) \<le> limit"
    using card_mono [of "{..<limit}"] by fastforce
  moreover have "card (entry_blocks rs \<union> run s n) = blocks_of rs + n"
    using blocks_of_card [OF assms(1)] assms(2) by (subst card_Un_disjoint) (auto simp: run_def)
  ultimately show ?thesis
    by simp
qed


lemma alloc_mark_reserve:
  assumes ok: "alloc_ok m" and fl: "reserving flags" "\<not> from_reservation flags" "\<not> ISSET flags HFS_ALLOC_IGNORE_RESERVED"
      "\<not> (ISSET flags HFS_ALLOC_TENTATIVE \<and> ISSET flags HFS_ALLOC_IGNORE_TENTATIVE)"
    and f: "startBlock found + blockCount found \<le> allocLimit m" "run (startBlock found) (blockCount found) \<inter> taken_blocks m flags = {}"
    and n: "0 < n" "n \<le> blockCount found" "n = alloc_align (Some a) minBlocks (blockCount found)"
  shows "\<exists>m' e a'. alloc_mark bread m found flags (Some a) minBlocks u = (noErr, mk_extent (startBlock found) n, Some a', m') \<and>
    reservation_out a' = Some e \<and> reserve_done m flags (startBlock found) n e m'"
proof -
  define s where "s = startBlock found"
  obtain err1 m1 where b: "BlockMarkAllocatedInternal bread m s n flags = (err1, m1)"
    by fastforce
  have sr: "search_ok m" "reserved_ok m" and lim: "s + n \<le> allocLimit m" "allocLimit m < 4294967296"
    using ok f(1) n(2) by (auto simp: alloc_ok_def s_def search_ok_def fec_ok_def)
  note d = reserved_okD [OF sr(2)]
  have mk: "err1 = noErr" "marked m s n 0 m1"
    using mark_alloc_marked [OF sr(1) n(1) lim(1) b] fl(1) by simp_all
  define m4 where "m4 = alloc_update_counts (alloc_update_pointers m1 flags u (mk_extent s n)) flags n"
  note k = alloc_pointers_counts [OF sr mk(2) n(1) lim(1) le0 fl(2) m4_def]
  have "run s n \<subseteq> run (startBlock found) (blockCount found)"
    using n(2) by (auto simp: run_def s_def)
  then have "run s n \<inter> taken_blocks m flags = {}"
    using f(2) by blast
  then have fr: "run s n \<inter> (bm_set (vcbBitmap m) \<union> entry_blocks (locked m)) = {}"
    "ISSET flags HFS_ALLOC_IGNORE_TENTATIVE \<or> entry_blocks (tentative m) \<inter> run s n = {}"
    using taken_blocks_flags [OF fl(3), of m] by (auto simp: disjoint_iff split: if_splits)
  have al: "allocLimit m4 = allocLimit m"
    using k(3) by (simp add: static_def)
  have fec: "run s n \<inter> fec_blocks m4 = {}"
    using k(2) by blast
  have st: "static m m'" "alloc_ok m'" if "static m4 m'" "search_ok m'" "reserved_ok m'" for m'
    using that static_trans [OF k(3)] ok by (simp_all add: alloc_ok_def static_def)
  note unf = alloc_mark_def Let_def s_def [symmetric] n(3) [symmetric] b mk(1) m4_def [symmetric]
  show ?thesis
  proof (cases "ISSET flags HFS_ALLOC_TENTATIVE")
    case True
    then have ig: "\<not> ISSET flags HFS_ALLOC_IGNORE_TENTATIVE" "run s n \<inter> entry_blocks (tentative m) = {}"
      using fl(4) fr(2) by auto
    have "blocks_of (tentative m) + n \<le> allocLimit m"
      using locked_bound [OF d(1) ig(2) lim(1)] .
    then have sl: "reserved_slack n 0 m4"
      using d k lim(2) True al by (intro reserved_okI) (auto simp: add32_eq)
    have cnt: "if HFS_TENTATIVE_BLOCKS = HFS_TENTATIVE_BLOCKS then n = 0 + n \<and> 0 = 0 else n = 0 \<and> 0 = 0 + n"
      by simp
    have "run s n \<inter> taken_blocks m4 0 = {}"
      using fr(1) ig(2) k(4,5) by (auto simp: taken_blocks_0)
    note a = add_to_reserved_list_spec [OF k(1) sl n(1) _ this fec cnt, unfolded al, OF lim(1)]
    have "alloc_mark bread m found flags (Some a) minBlocks u = (noErr, mk_extent s n,
        Some (a\<lparr>reservation_in := reservation_in a, reservation_out := Some (snd (add_to_reserved_list m4 s n HFS_TENTATIVE_BLOCKS))\<rparr>),
        fst (add_to_reserved_list m4 s n HFS_TENTATIVE_BLOCKS))"
      using True ig(1) fl(2) n(1) by (simp add: unf alloc_reserve_def alloc_steal_def split_beta)
    moreover have "reserve_done m flags s n (snd (add_to_reserved_list m4 s n HFS_TENTATIVE_BLOCKS)) (fst (add_to_reserved_list m4 s n HFS_TENTATIVE_BLOCKS))"
      using st [OF a(3,1,2)] a(4-9) k True by (auto simp: reserve_done_def ISSET_parts)
    ultimately show ?thesis
      by (auto simp: s_def)
  next
    case False
    define e where "e = rl_make (int s) (int (s + n - 1))"
    define m5 where "m5 = set_ranges HFS_LOCKED_BLOCKS (e # locked m4) m4"
    have "blocks_of (locked m) + n \<le> allocLimit m"
      using locked_bound [OF d(2) _ lim(1)] fr(1) by blast
    then have "reserved_slack 0 n m4"
      using d k lim(2) False fl(1) al by (intro reserved_okI) (auto simp: add32_eq ISSET_parts)
    moreover have "s + n \<le> allocLimit m4" "run s n \<inter> (bm_set (vcbBitmap m4) \<union> entry_blocks (locked m4)) = {}"
      using lim(1) al fr(1) k(4,5) by simp_all
    ultimately have pre: "reserved_slack 0 n m4" "s + n \<le> allocLimit m4" "run s n \<inter> (bm_set (vcbBitmap m4) \<union> entry_blocks (locked m4)) = {}"
      by blast+
    note l = lock_ready [OF k(1) pre(1) n(1) pre(2,3) fec, folded e_def, folded m5_def]
    obtain ap' m' where z: "alloc_steal m5 flags (mk_extent s n) (Some (a\<lparr>reservation_in := reservation_in a, reservation_out := Some e\<rparr>)) = (ap', m')"
      by fastforce
    have wr: "sub32 (add32 s n) (Suc 0) = s + n - Suc 0"
      using n(1) lim by (simp add: add32_eq sub32_eq)
    have add: "add_to_reserved_list m4 s n HFS_LOCKED_BLOCKS = (m5, e)"
      by (simp add: add_to_reserved_list_def m5_def e_def wr Let_def)
    have ig: "ISSET flags HFS_ALLOC_IGNORE_TENTATIVE \<or> entry_blocks (tentative m5) \<inter> run s n = {}"
      using fr(2) l(6) k(5) by simp
    have "s + n < 4294967296"
      using lim by simp
    note y = alloc_steal_spec [OF l(1) n(1) this ig l(3-5) z]
    have "\<exists>a'. ap' = Some a' \<and> reservation_out a' = Some e"
      using z False fl(1) by (auto simp: alloc_steal_def ISSET_parts Let_def split: if_splits prod.splits)
    moreover have "alloc_mark bread m found flags (Some a) minBlocks u = (noErr, mk_extent s n, ap', m')"
      using False fl(1,2) n(1) z by (simp add: unf ISSET_parts alloc_reserve_def add)
    moreover have "reserve_done m flags s n e m'"
    proof -
      have sf: "static m4 m'" "vcbBitmap m' = vcbBitmap m4" "freeBlocks m' = freeBlocks m4" "jnl_trims m' = jnl_trims m4" "locked m' = e # locked m"
        using y(3) static_trans [OF same_search_facts(1) [OF l(7)]] k(5) by (simp_all add: steal_frame_def m5_def) (simp_all add: set_ranges_def)
      show ?thesis
        using st [OF sf(1) y(1,2)] sf(2-5) y(4,5) l(2,6) k False fl(1) by (auto simp: reserve_done_def ISSET_parts)
    qed
    ultimately show ?thesis
      by (auto simp: s_def)
  qed
qed

end
