(* ===== verification/Alloc_Correct.thy ===== *)
theory Alloc_Correct
  imports Block_Alloc
begin

text \<open>
  The correctness of \<open>hfs_block_alloc_int\<close>: blocks taken from reservations, the searches for new ones, and the
  properties of allocating and freeing.
\<close>

section \<open>Blocks that come from a reservation\<close>

lemma map_replace:
  assumes "x \<notin> set (es @ fs)"
  shows "map (\<lambda>e. if e = x then y else e) (es @ x # fs) = es @ y # fs"
  using assms by (auto intro!: map_idI)

text \<open>A range loses its first \<open>n\<close> blocks, and disappears when none is left.\<close>

lemma advance_ranges:
  assumes ok: "ranges_ok limit rs" and rng: "rng \<in> set rs" and n: "0 < n" "int n \<le> rl_len rng"
  defines "rng' \<equiv> rng\<lparr>rl_start := rl_start rng + int n\<rparr>" and "s \<equiv> nat (rl_start rng)"
  defines "rs' \<equiv> map (\<lambda>e. if e = rng then rng\<lparr>rl_start := rl_start rng + int n\<rparr> else e) rs"
  defines "left \<equiv> (if rl_len rng = int n then remove1 rng' rs' else rs')"
  shows "ranges_ok limit left" "entry_blocks left = entry_blocks rs - run s n" "blocks_of left + n = blocks_of rs"
    "rng' \<in> set rs'" "run s n \<subseteq> entry_blocks rs" "entry_blocks [rng] = run s n \<union> (if rl_len rng = int n then {} else entry_blocks [rng'])"
    "rl_len rng' = rl_len rng - int n" "s + n \<le> limit" "rl_start rng' \<noteq> - 1"
    "run s n \<inter> entry_blocks [rng'] = {}"
proof -
  obtain es fs where rs: "rs = es @ rng # fs"
    using split_list [OF rng] by blast
  note p = ranges_ok_perm [OF ok [unfolded rs]]
  have rs': "rs' = es @ rng' # fs"
    unfolding rs'_def rs rng'_def using map_replace [OF p(4)] .
  note er = entry_run [OF p(2)]
  show len: "rl_len rng' = rl_len rng - int n" "s + n \<le> limit" "rl_start rng' \<noteq> - 1" "rng' \<in> set rs'"
    using er n p(2) by (auto simp: rng'_def rl_len_def s_def rs' range_ok_def)
  have st: "rl_start rng = int s"
    using er(4) by (simp add: s_def)
  have rok: "range_ok limit rng'" if "rl_len rng \<noteq> int n"
    using that p(2) n(2) by (auto simp: rng'_def range_ok_def rl_len_def)
  have sub: "run s n \<subseteq> entry_blocks [rng]"
    using er n(2) by (auto simp: s_def run_def)
  then show "run s n \<subseteq> entry_blocks rs"
    using entry_blocks_sub [OF rng] by blast
  show dis: "run s n \<inter> entry_blocks [rng'] = {}"
    by (auto simp: rng'_def entry_blocks_def run_def st)
  show sp: "entry_blocks [rng] = run s n \<union> (if rl_len rng = int n then {} else entry_blocks [rng'])"
    using n(2) by (auto simp: rng'_def entry_blocks_def run_def st rl_len_def)
  have left: "left = es @ (if rl_len rng = int n then [] else [rng']) @ fs"
  proof -
    have "rng' \<notin> set es" if "rl_len rng = int n"
      using ranges_ok_len [OF p(1), of rng'] len(1) that by auto
    then show ?thesis
      by (simp add: left_def rs' remove1_append)
  qed
  have ebs: "entry_blocks rs = entry_blocks es \<union> entry_blocks [rng] \<union> entry_blocks fs"
    unfolding rs by (simp add: entry_blocks_Cons [of rng fs] Un_assoc)
  have dis2: "entry_blocks [rng] \<inter> (entry_blocks es \<union> entry_blocks fs) = {}"
    using p(3) by simp
  have el: "entry_blocks left = entry_blocks es \<union> (if rl_len rng = int n then {} else entry_blocks [rng']) \<union> entry_blocks fs"
    unfolding left by (simp add: Un_assoc entry_blocks_Cons [of rng' fs])
  show eb: "entry_blocks left = entry_blocks rs - run s n"
    unfolding el ebs using sp dis dis2 by auto
  show rl: "ranges_ok limit left"
  proof (cases "rl_len rng = int n")
    case True
    then show ?thesis
      using p(1) left by simp
  next
    case False
    have "entry_blocks [rng'] \<inter> (entry_blocks es \<union> entry_blocks fs) = {}"
      using sp dis2 False by auto
    then show ?thesis
      using p(1) rok [OF False] False unfolding left by (auto simp: ranges_ok_append ranges_ok_Cons entry_blocks_Cons [of rng' fs])
  qed
  have "card (entry_blocks rs - run s n) + n = card (entry_blocks rs)"
    using \<open>run s n \<subseteq> entry_blocks rs\<close> blocks_of_card(2) [OF ok] card_mono [of "entry_blocks rs" "run s n"]
    by (subst card_Diff_subset) (auto simp: run_def)
  then show "blocks_of left + n = blocks_of rs"
    using blocks_of_card(1) [OF rl] blocks_of_card(1) [OF ok] eb by simp
qed


text \<open>The state behind \<open>alloc_from_reservation\<close> for a tentative range.\<close>

lemma tentative_taken:
  assumes rs: "reserved_ok m" and m1: "same_search m m1" "hfs_reserved_ranges m1 = hfs_reserved_ranges m" "tentativeBlocks m1 = tentativeBlocks m"
      "lockedBlocks m1 = lockedBlocks m"
    and rng: "rng \<in> set (tentative m)" and n: "0 < n" "int n \<le> rl_len rng" and fl: "ISSET flags HFS_ALLOC_USE_TENTATIVE"
    and r: "alloc_from_reservation m1 flags (Some rng) n = (m3, rin)"
  shows "same_search m m3" "vcbBitmap m3 = vcbBitmap m1" "freeBlocks m3 = freeBlocks m1" "jnl_trims m3 = jnl_trims m1" "lockedBlocks m3 = lockedBlocks m" "locked m3 = locked m"
    "ranges_ok (allocLimit m) (tentative m3)" "entry_blocks (tentative m3) = entry_blocks (tentative m) - run (nat (rl_start rng)) n"
    "tentativeBlocks m3 = blocks_of (tentative m3)" "tentativeBlocks m3 < 4294967296"
    "rin = (if rl_len rng = int n then None else Some (rng\<lparr>rl_start := rl_start rng + int n\<rparr>))"
proof -
  note d = reserved_okD [OF rs]
  note a = advance_ranges [OF d(1) rng n]
  define left where "left = (let rng' = rng\<lparr>rl_start := rl_start rng + int n\<rparr>;
      rs' = map (\<lambda>e. if e = rng then rng' else e) (tentative m) in if rl_len rng = int n then remove1 rng' rs' else rs')"
  have m3: "m3 = set_ranges HFS_TENTATIVE_BLOCKS left (m1\<lparr>tentativeBlocks := sub32 (tentativeBlocks m) n\<rparr>)"
    "rin = (if rl_len rng = int n then None else Some (rng\<lparr>rl_start := rl_start rng + int n\<rparr>))"
    using r fl a(7,9) n m1 by (auto simp: alloc_from_reservation_def advance_range_def left_def hfs_free_tentative_def hfs_free_locked_internal_def
        hfs_release_reserved_def set_ranges_def Let_def)
  note a = a [folded left_def [unfolded Let_def]]
  show "same_search m m3" "vcbBitmap m3 = vcbBitmap m1" "freeBlocks m3 = freeBlocks m1" "lockedBlocks m3 = lockedBlocks m" "locked m3 = locked m"
    using m1 by (simp_all add: m3)
  show "jnl_trims m3 = jnl_trims m1"
    by (simp add: m3 set_ranges_def)
  have t: "tentative m3 = left" "tentativeBlocks m3 = sub32 (tentativeBlocks m) n"
    by (simp_all add: m3)
  show "ranges_ok (allocLimit m) (tentative m3)" "entry_blocks (tentative m3) = entry_blocks (tentative m) - run (nat (rl_start rng)) n"
    "tentativeBlocks m3 = blocks_of (tentative m3)" "tentativeBlocks m3 < 4294967296"
    using a(1-3) d(6,8) by (simp_all add: t sub32_eq)
  show "rin = (if rl_len rng = int n then None else Some (rng\<lparr>rl_start := rl_start rng + int n\<rparr>))"
    by (fact m3(2))
qed


lemma search_ok_moved:
  assumes "search_ok m" "same_search m m'" "reserved_ok m'" "taken_blocks m' 0 = taken_blocks m 0"
  shows "search_ok m'" "fec_blocks m' = fec_blocks m"
  using search_ok_take [OF assms(1,2) reserved_okD(10) [OF assms(3)]] assms(1,4) same_search_facts(3) [OF assms(2)]
  by (simp_all add: search_ok_def)

lemma alloc_pointers_none [simp]: "from_reservation flags \<Longrightarrow> alloc_update_pointers m flags u e = m"
  by (simp add: alloc_update_pointers_def)

text \<open>Blocks of a tentative range are allocated.\<close>

definition use_done :: "hfsmount \<Rightarrow> u32 \<Rightarrow> nat \<Rightarrow> nat \<Rightarrow> hfsmount \<Rightarrow> bool" where
  "use_done m flags s n m' \<longleftrightarrow> alloc_ok m' \<and> static m m' \<and> bm_set (vcbBitmap m') = bm_set (vcbBitmap m) \<union> run s n \<and>
     freeBlocks m' = (if ISSET flags HFS_ALLOC_SKIPFREEBLKS then freeBlocks m else sub32 (freeBlocks m) n) \<and>
     locked m' = locked m \<and> entry_blocks (tentative m') = entry_blocks (tentative m) - run s n \<and>
     jnl_trims m' = jnl_trims (hfs_unmap_alloc_extent m s n)"

lemma alloc_mark_use:
  assumes ok: "alloc_ok m" and fl: "ISSET flags HFS_ALLOC_USE_TENTATIVE" "\<not> reserving flags" "\<not> ISSET flags HFS_ALLOC_IGNORE_TENTATIVE"
    and rng: "reservation_in a = Some rng" "rng \<in> set (tentative m)"
    and n: "0 < n" "int n \<le> rl_len rng" "n = alloc_align (Some a) minBlocks c"
    and r: "alloc_mark bread m (mk_extent (nat (rl_start rng)) c) flags (Some a) minBlocks u = (err, ext, ap', m')"
  shows "if err = noErr then ext = mk_extent (nat (rl_start rng)) n \<and> use_done m flags (nat (rl_start rng)) n m' \<and>
      ap' = Some (a\<lparr>reservation_in := (if rl_len rng = int n then None else Some (rng\<lparr>rl_start := rl_start rng + int n\<rparr>))\<rparr>)
    else err \<in> range bread \<and> ext = mk_extent 0 0 \<and> freeBlocks m' = freeBlocks m \<and> static m m'"
proof -
  define s where "s = nat (rl_start rng)"
  obtain err1 m1 where b: "BlockMarkAllocatedInternal bread m s n flags = (err1, m1)"
    by fastforce
  have sr: "search_ok m" "reserved_ok m"
    using ok by (simp_all add: alloc_ok_def)
  note d = reserved_okD [OF sr(2)]
  note adv = advance_ranges [OF d(1) rng(2) n(1,2), folded s_def]
  note mk = mark_alloc_marked [OF sr(1) n(1) adv(8) b]
  show ?thesis
  proof (cases "err1 = noErr")
    case False
    then have "err = err1" "ext = mk_extent 0 0" "m' = m1"
      using r b by (simp_all add: alloc_mark_def Let_def s_def [symmetric] n(3) [symmetric])
    then show ?thesis
      using mk fl(2) False same_search_facts(1) by (auto simp: marked_def)
  next
    case True
    then have "marked m s n n m1"
      using mk fl(2) by simp
    then have m1: "same_search m m1" "bm_set (vcbBitmap m1) = bm_set (vcbBitmap m) \<union> run s n" "hfs_reserved_ranges m1 = hfs_reserved_ranges m"
      "tentativeBlocks m1 = tentativeBlocks m" "lockedBlocks m1 = lockedBlocks m" "freeBlocks m1 = freeBlocks m"
      "jnl_trims m1 = jnl_trims (hfs_unmap_alloc_extent m s n)"
      by (simp_all add: marked_def)
    obtain m3 rin where fr: "alloc_from_reservation m1 flags (Some rng) n = (m3, rin)"
      by fastforce
    note t = tentative_taken [OF sr(2) m1(1,3-5) rng(2) n(1,2) fl(1) fr, folded s_def]
    have res: "err = noErr" "ext = mk_extent s n" "ap' = Some (a\<lparr>reservation_in := rin\<rparr>)" "m' = alloc_update_counts m3 flags n"
      using r True b fl n(1) by (auto simp: alloc_mark_def Let_def s_def [symmetric] n(3) [symmetric] rng(1) fr ISSET_parts alloc_steal_def)
    have m': "same_search m3 m'" "vcbBitmap m' = vcbBitmap m3" "hfs_reserved_ranges m' = hfs_reserved_ranges m3" "jnl_trims m' = jnl_trims m3"
      "tentativeBlocks m' = tentativeBlocks m3" "lockedBlocks m' = lockedBlocks m3"
      "freeBlocks m' = (if ISSET flags HFS_ALLOC_SKIPFREEBLKS then freeBlocks m else sub32 (freeBlocks m) n)"
      using fl(2) t(3) m1(6) by (simp_all add: res(4) alloc_update_counts_def MarkVCBDirty_def ISSET_parts)
    have same: "same_search m m'"
      using same_search_trans [OF t(1) m'(1)] .
    have tk: "taken_blocks m' 0 = taken_blocks m 0"
      using t(2,6,8) m'(2,3) m1(2) adv(5) by (auto simp: taken_blocks_0)
    have "allocLimit m' = allocLimit m"
      using same_search_facts(7) [OF same] .
    then have ro: "reserved_ok m'"
      using d(2,3,4,5,7,9) t m' m1(2) adv(5) by (intro reserved_okI) auto
    note so = search_ok_moved [OF sr(1) same ro tk]
    have "use_done m flags s n m'"
      using ro so(1) ok same_search_facts [OF same] m' t m1 by (simp add: use_done_def alloc_ok_def)
    then show ?thesis
      using res t(11) by (simp add: s_def)
  qed
qed


text \<open>A new entry of the locked list.\<close>

lemma new_locked:
  assumes ok: "ranges_ok limit rs" and n: "0 < n" "s + n \<le> limit" "limit < 4294967296" and dis: "run s n \<inter> entry_blocks rs = {}"
  defines "e \<equiv> rl_make (int s) (int (s + n - 1))"
  shows "ranges_ok limit (e # rs)" "entry_blocks (e # rs) = run s n \<union> entry_blocks rs" "blocks_of (e # rs) = blocks_of rs + n"
    "blocks_of rs + n < 4294967296" "entry_blocks [e] = run s n"
    "add_to_reserved_list m s n HFS_LOCKED_BLOCKS = (set_ranges HFS_LOCKED_BLOCKS (e # locked m) m, e)"
proof -
  have e: "range_ok limit e" "nat (rl_len e) = n" "0 \<le> rl_len e"
    using n by (auto simp: e_def range_ok_def rl_len_def)
  show er: "entry_blocks [e] = run s n"
    using entry_run(1) [OF e(1)] n(1) e(2) by (simp add: e_def)
  show "ranges_ok limit (e # rs)"
    using ok e(1) dis er unfolding ranges_ok_Cons by blast
  show "entry_blocks (e # rs) = run s n \<union> entry_blocks rs"
    using entry_blocks_Cons [of e rs] er by simp
  have "\<forall>x\<in>set rs. 0 \<le> rl_len x"
    using ranges_ok_len [OF ok] by fastforce
  then show "blocks_of (e # rs) = blocks_of rs + n"
    using e by (simp add: blocks_of_Cons)
  show "blocks_of rs + n < 4294967296"
    using locked_bound [OF ok dis n(2)] n(3) by simp
  have "sub32 (add32 s n) (Suc 0) = s + n - Suc 0"
    using n by (simp add: add32_eq sub32_eq)
  then show "add_to_reserved_list m s n HFS_LOCKED_BLOCKS = (set_ranges HFS_LOCKED_BLOCKS (e # locked m) m, e)"
    by (simp add: add_to_reserved_list_def e_def Let_def)
qed

text \<open>Blocks of a tentative range are locked.\<close>

lemma alloc_mark_lock_tentative:
  assumes ok: "alloc_ok m" and fl: "ISSET flags HFS_ALLOC_USE_TENTATIVE" "ISSET flags HFS_ALLOC_LOCKED" "\<not> ISSET flags HFS_ALLOC_TENTATIVE"
      "\<not> ISSET flags HFS_ALLOC_IGNORE_TENTATIVE"
    and rng: "reservation_in a = Some rng" "rng \<in> set (tentative m)"
    and n: "0 < n" "int n \<le> rl_len rng" "n = alloc_align (Some a) minBlocks c"
  defines "s \<equiv> nat (rl_start rng)"
  shows "\<exists>m' e rin. alloc_mark bread m (mk_extent s c) flags (Some a) minBlocks u =
      (noErr, mk_extent s n, Some (a\<lparr>reservation_in := rin, reservation_out := Some e\<rparr>), m') \<and>
    alloc_ok m' \<and> static m m' \<and> bm_set (vcbBitmap m') = bm_set (vcbBitmap m) \<and> freeBlocks m' = freeBlocks m \<and>
    entry_blocks [e] = run s n \<and> locked m' = e # locked m \<and> entry_blocks (tentative m') = entry_blocks (tentative m) - run s n"
proof -
  obtain err1 m1 where b: "BlockMarkAllocatedInternal bread m s n flags = (err1, m1)"
    by fastforce
  have sr: "search_ok m" "reserved_ok m" "allocLimit m < 4294967296"
    using ok by (simp_all add: alloc_ok_def search_ok_def fec_ok_def)
  note d = reserved_okD [OF sr(2)]
  note adv = advance_ranges [OF d(1) rng(2) n(1,2), folded s_def]
  have mk: "err1 = noErr" "marked m s n 0 m1"
    using mark_alloc_marked [OF sr(1) n(1) adv(8) b] fl(2) by (simp_all add: ISSET_parts)
  then have m1: "same_search m m1" "bm_set (vcbBitmap m1) = bm_set (vcbBitmap m)" "hfs_reserved_ranges m1 = hfs_reserved_ranges m"
    "tentativeBlocks m1 = tentativeBlocks m" "lockedBlocks m1 = lockedBlocks m" "freeBlocks m1 = freeBlocks m"
    by (simp_all add: marked_def)
  obtain m3 rin where fr: "alloc_from_reservation m1 flags (Some rng) n = (m3, rin)"
    by fastforce
  note t = tentative_taken [OF sr(2) m1(1,3-5) rng(2) n(1,2) fl(1) fr, folded s_def]
  have dis: "run s n \<inter> entry_blocks (locked m) = {}"
    using adv(5) d(3) by blast
  define e where "e = rl_make (int s) (int (s + n - 1))"
  note nl = new_locked [OF d(2) n(1) adv(8) sr(3) dis, folded e_def]
  define m4 where "m4 = alloc_update_counts m3 flags n"
  define m5 where "m5 = set_ranges HFS_LOCKED_BLOCKS (e # locked m) m4"
  have m4: "same_search m3 m4" "vcbBitmap m4 = vcbBitmap m3" "hfs_reserved_ranges m4 = hfs_reserved_ranges m3" "tentativeBlocks m4 = tentativeBlocks m3"
    "lockedBlocks m4 = lockedBlocks m + n" "freeBlocks m4 = freeBlocks m"
    using fl t(3,5) m1(6) nl(4) d(7) by (simp_all add: m4_def alloc_update_counts_def MarkVCBDirty_def add32_eq)
  have m5: "same_search m m5" "vcbBitmap m5 = vcbBitmap m1" "tentative m5 = tentative m3" "locked m5 = e # locked m" "freeBlocks m5 = freeBlocks m"
    "tentativeBlocks m5 = tentativeBlocks m3" "lockedBlocks m5 = lockedBlocks m + n"
    using same_search_trans [OF t(1) m4(1)] m4 t(2) by (simp_all add: m5_def)
  have tk: "taken_blocks m5 0 = taken_blocks m 0"
    using m5(2-4) m1(2) t(8) nl(2) adv(5) by (auto simp: taken_blocks_0)
  have ro: "reserved_ok m5"
    using d nl m5 t m1(2) same_search_facts(7) [OF m5(1)] adv(5) dis by (intro reserved_okI) auto
  have "alloc_ok m5" "static m m5"
    using search_ok_moved [OF sr(1) m5(1) ro tk] ro ok same_search_facts [OF m5(1)] by (simp_all add: alloc_ok_def)
  moreover have "alloc_mark bread m (mk_extent s c) flags (Some a) minBlocks u =
      (noErr, mk_extent s n, Some (a\<lparr>reservation_in := rin, reservation_out := Some e\<rparr>), m5)"
    using mk(1) b fl n(1) m4(3) t(6) by (simp add: alloc_mark_def Let_def n(3) [symmetric] rng(1) fr ISSET_parts m4_def [symmetric]
        alloc_reserve_def nl(6) m5_def alloc_steal_def)
  ultimately show ?thesis
    using m5 m1(2) nl(5) t(8) by auto
qed


text \<open>A locked range is committed: what was not marked of it is released.\<close>

lemma locked_taken:
  assumes ok: "search_ok m" "reserved_ok m" and mk: "marked m s n n m1"
    and rng: "rng \<in> set (locked m)" and n: "0 < n" "int n \<le> rl_len rng" and s: "s = nat (rl_start rng)"
    and fl: "\<not> ISSET flags HFS_ALLOC_USE_TENTATIVE" "ISSET flags HFS_ALLOC_COMMIT"
    and r: "alloc_from_reservation m1 flags (Some rng) n = (m3, rin)"
  shows "search_ok m3" "reserved_ok m3" "static m m3" "vcbBitmap m3 = vcbBitmap m1" "freeBlocks m3 = freeBlocks m" "jnl_trims m3 = jnl_trims m1"
    "tentative m3 = tentative m" "locked m3 = remove1 rng (locked m)" "rin = None"
proof -
  have m1: "same_search m m1" "bm_set (vcbBitmap m1) = bm_set (vcbBitmap m) \<union> run s n" "hfs_reserved_ranges m1 = hfs_reserved_ranges m"
    "tentativeBlocks m1 = tentativeBlocks m" "lockedBlocks m1 = lockedBlocks m" "freeBlocks m1 = freeBlocks m"
    using mk by (simp_all add: marked_def)
  note d = reserved_okD [OF ok(2)]
  define rng' where "rng' = rng\<lparr>rl_start := rl_start rng + int n\<rparr>"
  define rs' where "rs' = map (\<lambda>e. if e = rng then rng' else e) (locked m)"
  note a = advance_ranges [OF d(2) rng n, folded s, folded rng'_def, folded rs'_def]
  obtain es fs where es: "locked m = es @ rng # fs"
    using split_list [OF rng] by blast
  note p = ranges_ok_perm [OF d(2) [unfolded es]]
  have rs': "rs' = es @ rng' # fs"
    unfolding rs'_def es using map_replace [OF p(4)] .
  have "rng' \<notin> set es"
  proof
    assume "rng' \<in> set es"
    then have "0 < rl_len rng'" "entry_blocks [rng'] \<subseteq> entry_blocks es"
      using ranges_ok_len [OF p(1)] entry_blocks_sub by auto
    moreover have "entry_blocks [rng'] \<subseteq> entry_blocks [rng]" "entry_blocks [rng'] \<noteq> {}" if "0 < rl_len rng'"
      using a(6,7) that entry_run [OF p(2)] by (auto simp: rng'_def entry_blocks_def rl_len_def intro!: exI [of _ "nat (rl_end rng)"])
    ultimately show False
      using p(3) by auto
  qed
  then have rem: "remove1 rng' rs' = remove1 rng (locked m)"
    using p(4) by (simp add: rs' es remove1_append)
  define m2 where "m2 = (set_ranges HFS_LOCKED_BLOCKS rs' m1)\<lparr>lockedBlocks := sub32 (lockedBlocks m) n\<rparr>"
  have r2: "m3 = fst (hfs_release_reserved m2 rng' HFS_LOCKED_BLOCKS)" "rin = None"
    using r fl m1 by (auto simp: alloc_from_reservation_def advance_range_def Let_def hfs_free_locked_def hfs_free_locked_internal_def
        rng'_def [symmetric] rs'_def [symmetric] m2_def)
  show "rin = None"
    by (fact r2)
  have m2: "same_search m m2" "vcbBitmap m2 = vcbBitmap m1" "freeBlocks m2 = freeBlocks m" "jnl_trims m2 = jnl_trims m1" "tentative m2 = tentative m"
    "locked m2 = rs'" "tentativeBlocks m2 = tentativeBlocks m" "lockedBlocks m2 = sub32 (lockedBlocks m) n" "allocLimit m2 = allocLimit m"
    using m1 same_search_facts(7) [OF m1(1)] by (simp_all add: m2_def) (simp add: set_ranges_def)
  have ready: "reserved_ok m'" "search_ok m'"
    if "same_search m m'" "vcbBitmap m' = vcbBitmap m1" "tentative m' = tentative m" "tentativeBlocks m' = tentativeBlocks m" "lockedBlocks m' = sub32 (lockedBlocks m) n"
      "locked m' = (if rl_len rng = int n then remove1 rng' rs' else rs')" for m'
  proof -
    have t: "allocLimit m' = allocLimit m" "entry_blocks (locked m') = entry_blocks (locked m) - run s n"
      using same_search_facts(7) [OF that(1)] a(2) that(6) by simp_all
    show ro: "reserved_ok m'"
      using d a(1,3,5) that m1(2) t by (intro reserved_okI) (auto simp: sub32_eq)
    show "search_ok m'"
      using search_ok_moved(1) [OF ok(1) that(1) ro] t(2) that(2,3) m1(2) a(5) by (auto simp: taken_blocks_0)
  qed
  have "search_ok m3 \<and> reserved_ok m3 \<and> static m m3 \<and> vcbBitmap m3 = vcbBitmap m1 \<and> freeBlocks m3 = freeBlocks m \<and> jnl_trims m3 = jnl_trims m1 \<and>
    tentative m3 = tentative m \<and> locked m3 = remove1 rng (locked m)"
  proof (cases "rl_len rng = int n")
    case True
    then have m3: "m3 = set_ranges HFS_LOCKED_BLOCKS (remove1 rng (locked m)) m2"
      using a(7,9) by (simp add: r2(1) hfs_release_reserved_def m2(6) rem)
    have "same_search m m3" "vcbBitmap m3 = vcbBitmap m1" "tentative m3 = tentative m" "tentativeBlocks m3 = tentativeBlocks m"
      "lockedBlocks m3 = sub32 (lockedBlocks m) n" "locked m3 = remove1 rng (locked m)" "freeBlocks m3 = freeBlocks m" "jnl_trims m3 = jnl_trims m1"
      using m2 by (simp_all add: m3) (simp add: set_ranges_def)
    then show ?thesis
      using ready [of m3] True rem same_search_facts(1) by simp
  next
    case False
    have "reserved_ok m2" "search_ok m2"
      using ready [of m2] m2 False by simp_all
    then have "give_result 0 0 m2 HFS_LOCKED_BLOCKS (remove1 rng (locked m)) (entry_blocks [rng']) m3"
      using hfs_release_reserved_spec(1) [of m2 0 0 rng' HFS_LOCKED_BLOCKS] a(4) by (simp add: m2(6) rem r2(1))
    then show ?thesis
      using m2 static_trans [OF same_search_facts(1) [OF m2(1)]] by (simp add: give_result_def)
  qed
  then show "search_ok m3" "reserved_ok m3" "static m m3" "vcbBitmap m3 = vcbBitmap m1" "freeBlocks m3 = freeBlocks m" "jnl_trims m3 = jnl_trims m1"
    "tentative m3 = tentative m" "locked m3 = remove1 rng (locked m)"
    by blast+
qed

definition commit_done :: "hfsmount \<Rightarrow> u32 \<Rightarrow> rl_entry \<Rightarrow> nat \<Rightarrow> nat \<Rightarrow> hfsmount \<Rightarrow> bool" where
  "commit_done m flags rng s n m' \<longleftrightarrow> alloc_ok m' \<and> static m m' \<and> bm_set (vcbBitmap m') = bm_set (vcbBitmap m) \<union> run s n \<and>
     freeBlocks m' = (if ISSET flags HFS_ALLOC_SKIPFREEBLKS then freeBlocks m else sub32 (freeBlocks m) n) \<and>
     locked m' = remove1 rng (locked m) \<and> tentative m' = tentative m \<and> jnl_trims m' = jnl_trims (hfs_unmap_alloc_extent m s n)"

lemma alloc_mark_commit:
  assumes ok: "alloc_ok m" and fl: "ISSET flags HFS_ALLOC_COMMIT" "\<not> ISSET flags HFS_ALLOC_USE_TENTATIVE" "\<not> reserving flags"
      "\<not> ISSET flags HFS_ALLOC_IGNORE_TENTATIVE"
    and rng: "reservation_in a = Some rng" "rng \<in> set (locked m)"
    and n: "0 < n" "int n \<le> rl_len rng" "n = alloc_align (Some a) minBlocks c" and s: "s = nat (rl_start rng)"
    and r: "alloc_mark bread m (mk_extent s c) flags (Some a) minBlocks u = (err, ext, ap', m')"
  shows "if err = noErr then ext = mk_extent s n \<and> commit_done m flags rng s n m' \<and> ap' = Some (a\<lparr>reservation_in := None\<rparr>)
    else err \<in> range bread \<and> ext = mk_extent 0 0 \<and> freeBlocks m' = freeBlocks m \<and> static m m'"
proof -
  obtain err1 m1 where b: "BlockMarkAllocatedInternal bread m s n flags = (err1, m1)"
    by fastforce
  have sr: "search_ok m" "reserved_ok m"
    using ok by (simp_all add: alloc_ok_def)
  note d = reserved_okD [OF sr(2)]
  note mk = mark_alloc_marked [OF sr(1) n(1) advance_ranges(8) [OF d(2) rng(2) n(1,2), folded s] b]
  show ?thesis
  proof (cases "err1 = noErr")
    case False
    then have "err = err1" "ext = mk_extent 0 0" "m' = m1"
      using r b by (simp_all add: alloc_mark_def Let_def n(3) [symmetric])
    then show ?thesis
      using mk fl(3) False same_search_facts(1) by (auto simp: marked_def)
  next
    case True
    then have mk: "marked m s n n m1"
      using mk fl(3) by simp
    obtain m3 rin where fr: "alloc_from_reservation m1 flags (Some rng) n = (m3, rin)"
      by fastforce
    note t = locked_taken [OF sr mk rng(2) n(1,2) s fl(2,1) fr]
    have res: "err = noErr" "ext = mk_extent s n" "ap' = Some (a\<lparr>reservation_in := rin\<rparr>)" "m' = alloc_update_counts m3 flags n"
      using r True b fl n(1) by (auto simp: alloc_mark_def Let_def n(3) [symmetric] rng(1) fr ISSET_parts alloc_steal_def)
    define mf where "mf = (if ISSET flags HFS_ALLOC_SKIPFREEBLKS then m3 else m3\<lparr>freeBlocks := sub32 (freeBlocks m3) n\<rparr>)"
    have "alloc_ok m3"
      using t(1-3) ok by (simp add: alloc_ok_def static_def)
    then have mf: "alloc_ok mf" "static m mf" "vcbBitmap mf = vcbBitmap m1" "hfs_reserved_ranges mf = hfs_reserved_ranges m3" "jnl_trims mf = jnl_trims m1"
      "freeBlocks mf = (if ISSET flags HFS_ALLOC_SKIPFREEBLKS then freeBlocks m else sub32 (freeBlocks m) n)"
      using t by (simp_all add: mf_def static_def)
    have h: "hints_only mf m'"
      using fl(3) by (simp add: res(4) alloc_update_counts_def mf_def ISSET_parts)
    note hs = hints_only_same [OF h]
    have "commit_done m flags rng s n m'"
      using mf hs(5,8) static_trans [OF mf(2)] h t(7,8) mk by (auto simp: commit_done_def hints_only_def marked_def)
    then show ?thesis
      using res t(9) by simp
  qed
qed

section \<open>The searches\<close>

text \<open>The searches may set \<open>HFS_ALLOC_IGNORE_TENTATIVE\<close> and clear or set \<open>HFS_ALLOC_FLUSHTXN\<close>; no other flag changes.\<close>

definition search_mask :: u32 where
  "search_mask = not (or HFS_ALLOC_IGNORE_TENTATIVE HFS_ALLOC_FLUSHTXN)"

abbreviation same_flags :: "u32 \<Rightarrow> u32 \<Rightarrow> bool" where
  "same_flags f g \<equiv> and g search_mask = and f search_mask"

lemma same_flags_ISSET:
  assumes "same_flags f g" "and x search_mask = x"
  shows "ISSET g x = ISSET f x"
proof -
  have "and g x = and (and g search_mask) x" "and f x = and (and f search_mask) x"
    using assms(2) by (metis and.assoc and.commute)+
  then show ?thesis
    using assms(1) by (simp add: ISSET_def)
qed

lemma search_mask_flags:
  "and HFS_ALLOC_LOCKED search_mask = HFS_ALLOC_LOCKED" "and HFS_ALLOC_TENTATIVE search_mask = HFS_ALLOC_TENTATIVE"
  "and HFS_ALLOC_USE_TENTATIVE search_mask = HFS_ALLOC_USE_TENTATIVE" "and HFS_ALLOC_COMMIT search_mask = HFS_ALLOC_COMMIT"
  "and HFS_ALLOC_IGNORE_RESERVED search_mask = HFS_ALLOC_IGNORE_RESERVED" "and HFS_ALLOC_SKIPFREEBLKS search_mask = HFS_ALLOC_SKIPFREEBLKS"
  "and HFS_ALLOC_METAZONE search_mask = HFS_ALLOC_METAZONE" "and HFS_ALLOC_TRY_HARD search_mask = HFS_ALLOC_TRY_HARD"
  by (simp_all add: search_mask_def hfs_flag_defs)

lemma and_other:
  fixes f i w :: u32
  assumes "and i w = 0"
  shows "and (and f (not w)) i = and f i" "and (or f w) i = and f i"
proof -
  have "\<not> bit w n" if "bit i n" for n
    using assms that bit_imp_le_length [OF that] by (auto simp: bit_eq_iff bit_simps)
  then show "and (and f (not w)) i = and f i" "and (or f w) i = and f i"
    by (auto simp: bit_eq_iff bit_simps)
qed

lemma search_flags:
  "same_flags f (or f HFS_ALLOC_IGNORE_TENTATIVE)" "same_flags f (and f (not HFS_ALLOC_FLUSHTXN))"
  "same_flags f (or (and f (not HFS_ALLOC_FLUSHTXN)) HFS_ALLOC_FLUSHTXN)"
  "ISSET (and f (not HFS_ALLOC_FLUSHTXN)) HFS_ALLOC_IGNORE_TENTATIVE = ISSET f HFS_ALLOC_IGNORE_TENTATIVE"
  "ISSET (or (and f (not HFS_ALLOC_FLUSHTXN)) HFS_ALLOC_FLUSHTXN) HFS_ALLOC_IGNORE_TENTATIVE = ISSET f HFS_ALLOC_IGNORE_TENTATIVE"
  "ISSET (or f HFS_ALLOC_IGNORE_TENTATIVE) HFS_ALLOC_IGNORE_TENTATIVE"
proof -
  show "same_flags f (or f HFS_ALLOC_IGNORE_TENTATIVE)" "same_flags f (and f (not HFS_ALLOC_FLUSHTXN))"
    "same_flags f (or (and f (not HFS_ALLOC_FLUSHTXN)) HFS_ALLOC_FLUSHTXN)"
    by (auto simp: search_mask_def bit_eq_iff bit_simps)
  have "and HFS_ALLOC_IGNORE_TENTATIVE HFS_ALLOC_FLUSHTXN = 0"
    by (simp add: hfs_flag_defs)
  note o = and_other [OF this]
  show "ISSET (and f (not HFS_ALLOC_FLUSHTXN)) HFS_ALLOC_IGNORE_TENTATIVE = ISSET f HFS_ALLOC_IGNORE_TENTATIVE"
    "ISSET (or (and f (not HFS_ALLOC_FLUSHTXN)) HFS_ALLOC_FLUSHTXN) HFS_ALLOC_IGNORE_TENTATIVE = ISSET f HFS_ALLOC_IGNORE_TENTATIVE"
    by (simp_all add: ISSET_def o)
  have "and (or f HFS_ALLOC_IGNORE_TENTATIVE) HFS_ALLOC_IGNORE_TENTATIVE = HFS_ALLOC_IGNORE_TENTATIVE"
    by (auto simp: bit_eq_iff bit_simps)
  then show "ISSET (or f HFS_ALLOC_IGNORE_TENTATIVE) HFS_ALLOC_IGNORE_TENTATIVE"
    by (simp add: ISSET_def HFS_ALLOC_IGNORE_TENTATIVE_def)
qed

text \<open>What a search of \<open>hfs_block_alloc_int\<close> yields.\<close>

definition search_result ::
  "(nat \<Rightarrow> hfs_err) \<Rightarrow> hfsmount \<Rightarrow> u32 \<Rightarrow> nat \<Rightarrow> nat \<Rightarrow> hfs_err \<times> HFSPlusExtentDescriptor \<times> hfsmount \<Rightarrow> bool" where
  "search_result bread m flags minBlocks maxBlocks r \<longleftrightarrow>
     (case r of (err, ext, m') \<Rightarrow> srch_only m m' \<and> search_ok m' \<and> (err = noErr \<or> err = dskFulErr \<or> err \<in> range bread) \<and>
        (err = noErr \<longrightarrow> free_run m flags 0 (allocLimit m) maxBlocks ext \<and> minBlocks \<le> blockCount ext))"

lemma search_result_any:
  assumes ok: "search_ok m" "trims_ok j m" and lim: "endb \<le> allocLimit m" "start < totalBlocks m" "0 < maxBlocks"
  shows "\<exists>r. BlockFindAny bread j m start endb maxBlocks flags trust actual = Some r \<and> search_result bread m flags 1 maxBlocks r"
proof -
  obtain err ext m' where r: "BlockFindAny bread j m start endb maxBlocks flags trust actual = Some (err, ext, m')"
    "sum_only m m'" "summary_true m'" "err = noErr \<and> found_any j m flags start endb maxBlocks ext \<or>
     err = dskFulErr \<and> find_any_complete j m start endb flags \<or> err \<noteq> noErr \<and> err \<in> range bread"
    using BlockFindAny_spec [OF _ ok(2) lim, of bread flags trust actual] ok(1) by (auto simp: search_ok_def)
  have "search_result bread m flags 1 maxBlocks (err, ext, m')"
    using r(4) sum_only_srch [OF r(2)] search_ok_sum_only [OF ok(1) r(2,3)] lim(1)
    by (auto simp: search_result_def found_any_def free_run_def)
  then show ?thesis
    using r(1) by blast
qed

lemma search_result_after:
  assumes "srch_only m m1" "search_result bread m1 flags minBlocks maxBlocks r"
  shows "search_result bread m flags minBlocks maxBlocks r"
  using assms(2) srch_only_trans [OF assms(1)] srch_only_same(2,3) [OF assms(1)]
  by (auto simp: search_result_def free_run_def)

lemma search_result_known:
  assumes "search_ok m" "0 < maxBlocks" "BlockFindKnown m maxBlocks old = (err, ext, m')"
  shows "search_result bread m flags 1 maxBlocks (err, ext, m')" "m' = m"
  using BlockFindKnown_free [OF assms] assms(1) by (auto simp: search_result_def free_run_def Suc_le_eq)


lemma alloc_find_any_spec:
  assumes ok: "search_ok m" "trims_ok j m" and lim: "start < totalBlocks m" "start \<le> allocLimit m" "1 < totalBlocks m" "0 < maxBlocks"
  shows "\<exists>err ext flags' m'. alloc_find_any bread j m start maxBlocks flags extent = Some (err, ext, flags', m') \<and>
    search_result bread m flags' 1 maxBlocks (err, ext, m') \<and> same_flags flags flags' \<and>
    ISSET flags' HFS_ALLOC_IGNORE_TENTATIVE = ISSET flags HFS_ALLOC_IGNORE_TENTATIVE"
proof -
  define f1 where "f1 = and flags (not HFS_ALLOC_FLUSHTXN)"
  define f2 where "f2 = or f1 HFS_ALLOC_FLUSHTXN"
  note fs = search_flags [of flags, folded f1_def, folded f2_def]
  obtain err0 ext0 where k: "BlockFindKnown m maxBlocks extent = (err0, ext0, m)"
    using BlockFindKnown_free(1) [OF ok(1) lim(4)] by (metis prod_cases3)
  note kn = search_result_known(1) [OF ok(1) lim(4) k, of bread]
  define first where "first = (if err0 = dskFulErr then BlockFindAny bread j m start (allocLimit m) maxBlocks f1 True ext0 else Some (err0, ext0, m))"
  obtain err1 ext1 m1 where r1: "first = Some (err1, ext1, m1)" "search_result bread m f1 1 maxBlocks (err1, ext1, m1)"
    using search_result_any [OF ok order_refl lim(1,4), of bread f1 True ext0] kn by (cases "err0 = dskFulErr") (auto simp: first_def)
  have m1: "srch_only m m1" "search_ok m1"
    using r1(2) by (simp_all add: search_result_def)
  note s1 = srch_only_same [OF m1(1)]
  define last where "last = (if ISSET (hfs_flags m1) HFS_SUMMARY_TABLE then allocLimit m1 else start)"
  have l: "last \<le> allocLimit m1" "1 < totalBlocks m1" "trims_ok j m1"
    using lim s1 ok(2) by (simp_all add: last_def)
  obtain err2 ext2 m2 where r2: "BlockFindAny bread j m1 1 last maxBlocks f1 False ext1 = Some (err2, ext2, m2)"
    "search_result bread m1 f1 1 maxBlocks (err2, ext2, m2)"
    using search_result_any [OF m1(2) l(3,1,2) lim(4), of bread f1 False ext1] by (metis prod_cases3)
  note r2' = search_result_after [OF m1(1) r2(2)]
  have m2: "srch_only m m2" "search_ok m2"
    using r2' by (simp_all add: search_result_def)
  note s2 = srch_only_same [OF m2(1)]
  obtain err3 ext3 m3 where r3: "BlockFindAny bread j m2 1 (allocLimit m2) maxBlocks f2 False ext2 = Some (err3, ext3, m3)"
    "search_result bread m2 f2 1 maxBlocks (err3, ext3, m3)"
    using search_result_any [OF m2(2) _ order_refl _ lim(4), of j 1 bread f2 False ext2] ok(2) s2 lim(3) by (metis prod_cases3)
  note r3' = search_result_after [OF m2(1) r3(2)]
  have "alloc_find_any bread j m start maxBlocks flags extent =
      (if err1 \<noteq> dskFulErr then Some (err1, ext1, f1, m1)
       else if err2 = dskFulErr \<and> ISSET flags HFS_ALLOC_FLUSHTXN then Some (err3, ext3, f2, m3) else Some (err2, ext2, f1, m2))"
    using r2(1) r3(1) unfolding alloc_find_any_def Let_def k prod.case f1_def [symmetric] first_def [symmetric] r1(1) option.case f2_def [symmetric]
      last_def by (cases "ISSET (hfs_flags m1) HFS_SUMMARY_TABLE") simp_all
  then show ?thesis
    using r1(2) r2' r3' fs by auto
qed

lemma alloc_start_spec:
  assumes "alloc_start m b = (start, u)" "0 < allocLimit m"
  shows "start < allocLimit m"
  using assms by (auto simp: alloc_start_def Let_def split: if_splits)


text \<open>Whether tentative blocks may be taken, and the bounds after the check of the free blocks.\<close>

definition steals :: "hfsmount \<Rightarrow> u32 \<Rightarrow> nat \<Rightarrow> nat \<Rightarrow> bool" where
  "steals m flags minBlocks freeBlks \<longleftrightarrow>
     ISSET flags HFS_ALLOC_IGNORE_TENTATIVE \<or> freeBlks < add32 (tentativeBlocks m) minBlocks"

abbreviation contig_request :: "u32 \<Rightarrow> bool" where
  "contig_request flags \<equiv> ISSET flags (or HFS_ALLOC_FORCECONTIG HFS_ALLOC_TRY_HARD)"

definition clip_max :: "u32 \<Rightarrow> nat \<Rightarrow> nat \<Rightarrow> nat" where
  "clip_max flags maxBlocks freeBlks = (if ISSET flags HFS_ALLOC_SKIPFREEBLKS then maxBlocks else min maxBlocks freeBlks)"

definition least_count :: "u32 \<Rightarrow> nat \<Rightarrow> nat" where
  "least_count flags minBlocks = (if contig_request flags then minBlocks else 1)"

lemma alloc_search_spec:
  assumes ok: "search_ok m" "trims_ok j m" "totalBlocks m + 32 < 4294967296" "1 < allocLimit m"
    and n: "0 < blockCount extent" "blockCount extent \<le> maxBlocks" and io: "dskFulErr \<notin> range bread"
    and fl: "\<not> ISSET flags HFS_ALLOC_IGNORE_RESERVED"
    and ct: "ISSET flags HFS_ALLOC_FORCECONTIG \<Longrightarrow> ISSET flags HFS_ALLOC_TRY_HARD \<or> \<not> steals m flags (blockCount extent) freeBlks"
  shows "\<exists>err ext flags' mn u m'. alloc_search bread j m extent flags maxBlocks freeBlks = Some (err, ext, flags', mn, u, m') \<and>
    search_result bread m flags' (least_count flags (blockCount extent)) (clip_max flags maxBlocks freeBlks) (err, ext, m') \<and> same_flags flags flags' \<and>
    ISSET flags' HFS_ALLOC_IGNORE_TENTATIVE = steals m flags (blockCount extent) freeBlks \<and> 0 < mn \<and> mn \<le> blockCount extent \<and>
    (contig_request flags \<longrightarrow> mn = blockCount extent)"
proof -
  define f where "f = (if freeBlks < add32 (tentativeBlocks m) (blockCount extent) then or flags HFS_ALLOC_IGNORE_TENTATIVE else flags)"
  have f: "same_flags flags f" "ISSET f HFS_ALLOC_IGNORE_TENTATIVE = steals m flags (blockCount extent) freeBlks"
    using search_flags by (simp_all add: f_def steals_def)
  note fi = same_flags_ISSET [OF f(1)]
  have fe: "ISSET f HFS_ALLOC_TRY_HARD = ISSET flags HFS_ALLOC_TRY_HARD" "ISSET f HFS_ALLOC_SKIPFREEBLKS = ISSET flags HFS_ALLOC_SKIPFREEBLKS"
    "\<not> ISSET f HFS_ALLOC_IGNORE_RESERVED"
    using fi search_mask_flags fl by simp_all
  let ?c = "contig_request flags"
  have al: "allocLimit m \<le> totalBlocks m"
    using ok(1) by (simp add: search_ok_def volume_ok_def)
  show ?thesis
  proof (cases "alloc_check_free freeBlks f ?c (blockCount extent) maxBlocks")
    case None
    then have "alloc_search bread j m extent flags maxBlocks freeBlks = Some (dskFulErr, extent, f, blockCount extent, False, m)"
      by (simp add: alloc_search_def f_def [symmetric] Let_def)
    then show ?thesis
      using f n ok(1) by (auto simp: search_result_def)
  next
    case (Some q)
    obtain mn mx where q: "q = (mn, mx)"
      by fastforce
    have b: "mx = clip_max flags maxBlocks freeBlks" "0 < mn" "mn \<le> blockCount extent" "?c \<Longrightarrow> mn = blockCount extent" "0 < mx"
      "?c \<Longrightarrow> blockCount extent \<le> mx"
      using Some n fe by (auto simp: alloc_check_free_def q clip_max_def split: if_splits)
    note unf = alloc_search_def [of bread j m extent flags maxBlocks freeBlks, unfolded Let_def, folded f_def, unfolded Some q option.case prod.case]
    show ?thesis
    proof (cases "ISSET flags HFS_ALLOC_TRY_HARD")
      case True
      then have c: ?c
        by (simp add: ISSET_parts)
      obtain err ext m' where r: "hfs_alloc_try_hard bread j m extent mx f = Some (err, ext, m')" "hard_result bread m (blockCount extent) mx f (err, ext, m')"
        using hfs_alloc_try_hard_spec [OF ok(1) fe(3) ok(3) _ n(1) b(6) [OF c], of bread j] ok(4) by auto
      then have "search_result bread m f (least_count flags (blockCount extent)) mx (err, ext, m')"
        using c by (simp add: hard_result_def search_result_def least_count_def)
      moreover have "alloc_search bread j m extent flags maxBlocks freeBlks = Some (err, ext, f, mn, False, m')"
        using True fe(1) r(1) by (simp add: unf)
      ultimately show ?thesis
        using f b by auto
    next
      case soft: False
      obtain start u where st: "alloc_start m (startBlock extent) = (start, u)"
        by fastforce
      have start: "start < allocLimit m"
        using alloc_start_spec [OF st] ok(4) by simp
      show ?thesis
      proof (cases ?c)
        case True
        then have "plain_search f"
          using ct soft f(2) fe by (simp add: plain_search_def ISSET_parts)
        then obtain err ext m' where r: "BlockFindContig bread j m start mn mx f extent = Some (err, ext, m')" "contig_result bread j m mn mx f (err, ext, m')"
          using BlockFindContig_spec [OF ok(1,2) _ ok(3) _ b(2) _ io, of f start mx extent] start b(4,6) [OF True] by auto
        then have "search_result bread m f (least_count flags (blockCount extent)) mx (err, ext, m')"
          using b(4) [OF True] True by (auto simp: contig_result_def search_result_def least_count_def contig_good_def)
        moreover have "\<exists>v. alloc_search bread j m extent flags maxBlocks freeBlks = Some (err, ext, f, mn, v, m')"
          using True soft fe(1) r(1) st by (simp add: unf)
        ultimately show ?thesis
          using f b by auto
      next
        case False
        obtain err ext f' m' where r: "alloc_find_any bread j m start mx f extent = Some (err, ext, f', m')"
          "search_result bread m f' 1 mx (err, ext, m')" "same_flags f f'" "ISSET f' HFS_ALLOC_IGNORE_TENTATIVE = ISSET f HFS_ALLOC_IGNORE_TENTATIVE"
          using alloc_find_any_spec [OF ok(1,2) _ _ _ b(5), of start bread f extent] start al ok(4) by auto
        moreover have "alloc_search bread j m extent flags maxBlocks freeBlks = Some (err, ext, f', mn, u, m')"
          using False soft fe(1) r(1) st by (simp add: unf)
        ultimately show ?thesis
          using f b False by (auto simp: least_count_def)
      qed
    qed
  qed
qed

section \<open>Allocating new blocks\<close>

definition request_max :: "hfs_alloc_extra_args option \<Rightarrow> nat \<Rightarrow> nat" where
  "request_max ap minBlocks = (case ap of None \<Rightarrow> minBlocks | Some a \<Rightarrow> if max_blocks a \<noteq> 0 then max_blocks a else minBlocks)"

text \<open>An alignment that cannot overflow the unsigned arithmetic.\<close>

definition align_ok :: "hfs_alloc_extra_args option \<Rightarrow> nat \<Rightarrow> bool" where
  "align_ok ap minBlocks \<longleftrightarrow>
     (case ap of None \<Rightarrow> True | Some a \<Rightarrow> alignment a = 0 \<or> (0 < alignment a \<and> int minBlocks + alignment a \<le> 4294967296))"

lemma alloc_align_bounds:
  assumes "align_ok ap bound" "mn \<le> bound" "0 < mn" "0 < count" "count < 4294967296"
  shows "0 < alloc_align ap mn count" "alloc_align ap mn count \<le> count" "mn \<le> count \<Longrightarrow> mn \<le> alloc_align ap mn count"
proof -
  have "0 < alloc_align ap mn count \<and> alloc_align ap mn count \<le> count \<and> (mn \<le> count \<longrightarrow> mn \<le> alloc_align ap mn count)"
  proof (cases "\<exists>a. ap = Some a \<and> alignment a \<noteq> 0 \<and> count < max_blocks a")
    case False
    then show ?thesis
      using assms(4) by (auto simp: alloc_align_def split: option.splits)
  next
    case True
    then obtain a where a: "ap = Some a" "alignment a \<noteq> 0" "count < max_blocks a"
      by blast
    then have al: "0 < alignment a" "int mn + alignment a \<le> 4294967296"
      using assms(1,2) by (auto simp: align_ok_def)
    define rounding where "rounding = add32 count (to_u32 (alignment_offset a)) mod to_u32 (alignment a)"
    have "to_u32 (alignment a) = nat (alignment a)"
      using al assms(3) by (simp add: to_u32_def)
    then have "rounding < nat (alignment a)"
      using al(1) by (simp add: rounding_def)
    then have "mn + rounding < 4294967296"
      using al by linarith
    then have "alloc_align ap mn count = (if mn + rounding \<le> count then sub32 count rounding else count)"
      using a by (simp add: alloc_align_def rounding_def [symmetric] Let_def add32_eq)
    then show ?thesis
      using assms(3-5) by (auto simp: sub32_eq)
  qed
  then show "0 < alloc_align ap mn count" "alloc_align ap mn count \<le> count" "mn \<le> count \<Longrightarrow> mn \<le> alloc_align ap mn count"
    by blast+
qed

lemma srch_only_alloc:
  assumes "srch_only m m1" "search_ok m1" "alloc_ok m"
  shows "alloc_ok m1"
  using assms srch_only_reserved(6) [OF assms(1), of 0 0] srch_only_same(4) [OF assms(1)] by (simp add: alloc_ok_def)

lemma srch_only_trim_log:
  assumes "srch_only m m1"
  shows "jnl_trims (hfs_unmap_alloc_extent m1 s n) = jnl_trims (hfs_unmap_alloc_extent m s n)"
  using assms by (auto simp: srch_only_def hfs_unmap_alloc_extent_def)

lemma alloc_done_after:
  assumes "srch_only m m1" "alloc_done m1 flags s n m'"
  shows "alloc_done m flags s n m'"
  using assms(2) srch_only_reserved [OF assms(1)] srch_only_trim_log [OF assms(1)] static_trans [OF srch_only_reserved(7) [OF assms(1)]]
  by (simp add: alloc_done_def)

lemma reserve_done_after:
  assumes "srch_only m m1" "reserve_done m1 flags s n e m'"
  shows "reserve_done m flags s n e m'"
  using assms(2) srch_only_reserved [OF assms(1)] srch_only_trim_log [OF assms(1)] static_trans [OF srch_only_reserved(7) [OF assms(1)]]
  by (cases "ISSET flags HFS_ALLOC_TENTATIVE") (simp_all add: reserve_done_def)

text \<open>A request that is not served from a reservation.\<close>

definition new_request :: "(nat \<Rightarrow> hfs_err) \<Rightarrow> journal \<Rightarrow> nat option \<Rightarrow> hfsmount \<Rightarrow> HFSPlusExtentDescriptor \<Rightarrow> u32 \<Rightarrow> hfs_alloc_extra_args option \<Rightarrow> bool" where
  "new_request bread j backing m extent flags ap \<longleftrightarrow> alloc_ok m \<and> trims_ok j m \<and> 1 < allocLimit m \<and>
     0 < blockCount extent \<and> blockCount extent \<le> request_max ap (blockCount extent) \<and> align_ok ap (blockCount extent) \<and>
     dskFulErr \<notin> range bread \<and> \<not> from_reservation flags \<and> \<not> ISSET flags HFS_ALLOC_ROLL_BACK \<and> \<not> ISSET flags HFS_ALLOC_IGNORE_RESERVED \<and>
     (ISSET flags HFS_ALLOC_FORCECONTIG \<and> \<not> ISSET flags HFS_ALLOC_TRY_HARD \<longrightarrow>
        \<not> steals m flags (blockCount extent) (hfs_freeblks backing m False))"

text \<open>The blocks: as many as asked for, inside the volume, and free.\<close>

definition good_extent :: "nat option \<Rightarrow> hfsmount \<Rightarrow> HFSPlusExtentDescriptor \<Rightarrow> u32 \<Rightarrow> hfs_alloc_extra_args option \<Rightarrow> HFSPlusExtentDescriptor \<Rightarrow> bool" where
  "good_extent backing m extent flags ap ext \<longleftrightarrow>
     least_count flags (blockCount extent) \<le> blockCount ext \<and>
     blockCount ext \<le> clip_max flags (request_max ap (blockCount extent)) (hfs_freeblks backing m False) \<and>
     startBlock ext + blockCount ext \<le> allocLimit m \<and>
     run (startBlock ext) (blockCount ext) \<inter> (bm_set (vcbBitmap m) \<union> entry_blocks (locked m)) = {} \<and>
     (\<not> steals m flags (blockCount extent) (hfs_freeblks backing m False) \<longrightarrow>
        run (startBlock ext) (blockCount ext) \<inter> entry_blocks (tentative m) = {})"

lemma alloc_int_search:
  assumes req: "new_request bread j backing m extent flags ap"
  shows "\<exists>err found flags' mn u m1.
    hfs_block_alloc_int bread j backing m extent flags ap =
      Some (if err \<noteq> noErr then (err, mk_extent 0 0, ap, m1) else alloc_mark bread m1 found flags' ap mn u) \<and>
    srch_only m m1 \<and> alloc_ok m1 \<and> same_flags flags flags' \<and>
    ISSET flags' HFS_ALLOC_IGNORE_TENTATIVE = steals m flags (blockCount extent) (hfs_freeblks backing m False) \<and>
    (err \<noteq> noErr \<longrightarrow> err = dskFulErr \<or> err \<in> range bread) \<and>
    (err = noErr \<longrightarrow> startBlock found + blockCount found \<le> allocLimit m1 \<and>
       run (startBlock found) (blockCount found) \<inter> taken_blocks m1 flags' = {} \<and>
       0 < alloc_align ap mn (blockCount found) \<and> alloc_align ap mn (blockCount found) \<le> blockCount found \<and>
       good_extent backing m extent flags ap (mk_extent (startBlock found) (alloc_align ap mn (blockCount found))))"
proof -
  define fb where "fb = hfs_freeblks backing m False"
  define mx where "mx = request_max ap (blockCount extent)"
  have ok: "search_ok m" "trims_ok j m" "totalBlocks m + 32 < 4294967296" "1 < allocLimit m" "alloc_ok m" "align_ok ap (blockCount extent)"
    and n: "0 < blockCount extent" "blockCount extent \<le> mx" and io: "dskFulErr \<notin> range bread" and fl: "\<not> ISSET flags HFS_ALLOC_IGNORE_RESERVED"
    and no: "\<not> ISSET flags HFS_ALLOC_COMMIT" "\<not> ISSET flags HFS_ALLOC_USE_TENTATIVE" "\<not> ISSET flags HFS_ALLOC_ROLL_BACK"
    and ct: "ISSET flags HFS_ALLOC_FORCECONTIG \<Longrightarrow> ISSET flags HFS_ALLOC_TRY_HARD \<or> \<not> steals m flags (blockCount extent) fb"
    using req by (auto simp: new_request_def alloc_ok_def mx_def fb_def ISSET_parts)
  obtain err found f mn u m1 where s: "alloc_search bread j m extent flags mx fb = Some (err, found, f, mn, u, m1)"
    "search_result bread m f (least_count flags (blockCount extent)) (clip_max flags mx fb) (err, found, m1)"
    "same_flags flags f" "ISSET f HFS_ALLOC_IGNORE_TENTATIVE = steals m flags (blockCount extent) fb" "0 < mn" "mn \<le> blockCount extent"
    "contig_request flags \<longrightarrow> mn = blockCount extent"
    using alloc_search_spec [OF ok(1-4) n io fl ct] by auto
  have so: "srch_only m m1" "search_ok m1"
    using s(2) by (simp_all add: search_result_def)
  note same = srch_only_same [OF so(1)]
  have eq: "hfs_block_alloc_int bread j backing m extent flags ap =
      Some (if err \<noteq> noErr then (err, mk_extent 0 0, ap, m1) else alloc_mark bread m1 found f ap mn u)"
    using no s(1) unfolding hfs_block_alloc_int_def Let_def fb_def [symmetric] request_max_def [symmetric] mx_def [symmetric] by simp
  have fi: "\<not> ISSET f HFS_ALLOC_IGNORE_RESERVED"
    using same_flags_ISSET [OF s(3) search_mask_flags(5)] fl by simp
  have "startBlock found + blockCount found \<le> allocLimit m1 \<and> run (startBlock found) (blockCount found) \<inter> taken_blocks m1 f = {} \<and>
       0 < alloc_align ap mn (blockCount found) \<and> alloc_align ap mn (blockCount found) \<le> blockCount found \<and>
       good_extent backing m extent flags ap (mk_extent (startBlock found) (alloc_align ap mn (blockCount found)))" if "err = noErr"
  proof -
    let ?n = "alloc_align ap mn (blockCount found)"
    have fr: "free_run m f 0 (allocLimit m) (clip_max flags mx fb) found" "least_count flags (blockCount extent) \<le> blockCount found"
      using s(2) that by (simp_all add: search_result_def)
    then have c: "0 < blockCount found" "blockCount found < 4294967296"
      using ok(1) by (auto simp: free_run_def search_ok_def fec_ok_def)
    note al = alloc_align_bounds [OF ok(6) s(6,5) c]
    have "run (startBlock found) ?n \<subseteq> run (startBlock found) (blockCount found)"
      using al(2) by (auto simp: run_def)
    then have d: "run (startBlock found) ?n \<inter> taken_blocks m f = {}"
      using fr(1) by (auto simp: free_run_def)
    have "run (startBlock found) ?n \<inter> (bm_set (vcbBitmap m) \<union> entry_blocks (locked m)) = {}"
      "\<not> steals m flags (blockCount extent) fb \<longrightarrow> run (startBlock found) ?n \<inter> entry_blocks (tentative m) = {}"
      using d taken_blocks_flags [OF fi, of m] s(4) by (auto simp: disjoint_iff split: if_splits)
    moreover have "least_count flags (blockCount extent) \<le> ?n"
      using fr(2) al s(7) by (auto simp: least_count_def split: if_splits)
    ultimately show ?thesis
      using fr(1) al same by (auto simp: free_run_def good_extent_def mx_def fb_def)
  qed
  then show ?thesis
    using eq so srch_only_alloc [OF so ok(5)] s(2,3,4) unfolding fb_def by (intro exI [of _ err] exI [of _ found] exI [of _ f] exI [of _ mn] exI [of _ u] exI [of _ m1])
      (auto simp: search_result_def)
qed

end
