(* ===== verification/Volume_Calls.thy ===== *)
theory Volume_Calls
  imports Alloc_Correct
begin

text \<open>
  What the callers of the block allocator see: the outcome of every kind of request to \<open>hfs_block_alloc_int\<close> and
  \<open>BlockDeallocate\<close>, sequences of such calls as a state machine, and the abstract volume they implement.
\<close>

section \<open>Counting\<close>

lemma count_taken:
  assumes "count_ok m" "totalBlocks m' = totalBlocks m" "totalBlocks m < 4294967296" "s + n \<le> totalBlocks m"
    and "run s n \<inter> bm_set (vcbBitmap m) = {}" "bm_set (vcbBitmap m') = bm_set (vcbBitmap m) \<union> run s n"
    and "freeBlocks m' = sub32 (freeBlocks m) n"
  shows "count_ok m'" "n \<le> freeBlocks m" "freeBlocks m' = freeBlocks m - n"
proof -
  have u: "used_blocks m' = used_blocks m \<union> run s n" "used_blocks m \<inter> run s n = {}" "finite (used_blocks m)" "finite (run s n)"
    "card (run s n) = n"
    using assms(2,4-6) by (auto simp: used_blocks_def run_def)
  have "used_blocks m' \<subseteq> {..<totalBlocks m}"
    using assms(2) by (auto simp: used_blocks_def)
  then have "card (used_blocks m') \<le> totalBlocks m"
    using card_mono [of "{..<totalBlocks m}"] by fastforce
  moreover have "card (used_blocks m') = card (used_blocks m) + n"
    using u card_Un_disjoint by metis
  ultimately show "n \<le> freeBlocks m" "freeBlocks m' = freeBlocks m - n" "count_ok m'"
    using assms(1-3,7) by (auto simp: count_ok_def sub32_eq)
qed

lemma count_freed:
  assumes "count_ok m" "totalBlocks m' = totalBlocks m" "totalBlocks m < 4294967296" "s + n \<le> totalBlocks m"
    and "run s n \<subseteq> bm_set (vcbBitmap m)" "bm_set (vcbBitmap m') = bm_set (vcbBitmap m) - run s n"
    and "freeBlocks m' = add32 (freeBlocks m) n"
  shows "count_ok m'" "freeBlocks m' = freeBlocks m + n"
proof -
  have u: "used_blocks m' = used_blocks m - run s n" "run s n \<subseteq> used_blocks m" "finite (used_blocks m)" "finite (run s n)"
    "card (run s n) = n"
    using assms(2,4-6) by (auto simp: used_blocks_def run_def)
  then have "card (used_blocks m') = card (used_blocks m) - n" "n \<le> card (used_blocks m)"
    using card_Diff_subset card_mono by metis+
  then show "freeBlocks m' = freeBlocks m + n" "count_ok m'"
    using assms(1-3,7) by (auto simp: count_ok_def add32_eq)
qed

section \<open>The outcome of a request\<close>

text \<open>A failed request returns an empty extent; when the volume is full nothing else changed.\<close>

definition alloc_failed :: "(nat \<Rightarrow> hfs_err) \<Rightarrow> hfsmount \<Rightarrow> hfs_err \<Rightarrow> HFSPlusExtentDescriptor \<Rightarrow> hfsmount \<Rightarrow> bool" where
  "alloc_failed bread m err ext m' \<longleftrightarrow> ext = mk_extent 0 0 \<and> freeBlocks m' = freeBlocks m \<and> static m m' \<and>
     (err = dskFulErr \<and> alloc_ok m' \<and> vcbBitmap m' = vcbBitmap m \<and> hfs_reserved_ranges m' = hfs_reserved_ranges m \<or> err \<in> range bread)"

lemma alloc_failed_search:
  assumes "srch_only m m1" "alloc_ok m1" "err = dskFulErr \<or> err \<in> range bread"
  shows "alloc_failed bread m err (mk_extent 0 0) m1"
  using assms srch_only_reserved [OF assms(1)] by (auto simp: alloc_failed_def)

text \<open>The blocks are marked in the bitmap.\<close>

definition allocated :: "nat option \<Rightarrow> hfsmount \<Rightarrow> HFSPlusExtentDescriptor \<Rightarrow> u32 \<Rightarrow> HFSPlusExtentDescriptor \<Rightarrow> hfsmount \<Rightarrow> bool" where
  "allocated backing m extent flags ext m' \<longleftrightarrow> alloc_ok m' \<and> static m m' \<and>
     bm_set (vcbBitmap m') = bm_set (vcbBitmap m) \<union> ext_run ext \<and> locked m' = locked m \<and>
     freeBlocks m' = (if ISSET flags HFS_ALLOC_SKIPFREEBLKS then freeBlocks m else sub32 (freeBlocks m) (blockCount ext)) \<and>
     entry_blocks (tentative m') \<subseteq> entry_blocks (tentative m) - ext_run ext \<and>
     (\<not> steals m flags (blockCount extent) (hfs_freeblks backing m False) \<longrightarrow> tentative m' = tentative m) \<and>
     jnl_trims m' = jnl_trims (hfs_unmap_alloc_extent m (startBlock ext) (blockCount ext))"

lemma alloc_int_plain:
  assumes req: "new_request bread j backing m extent flags ap" and fl: "\<not> reserving flags"
  shows "\<exists>err ext ap' m'. hfs_block_alloc_int bread j backing m extent flags ap = Some (err, ext, ap', m') \<and>
    (if err = noErr then good_extent backing m extent flags ap ext \<and> 0 < blockCount ext \<and> allocated backing m extent flags ext m'
     else alloc_failed bread m err ext m')"
proof -
  obtain err found f mn u m1 where a: "hfs_block_alloc_int bread j backing m extent flags ap =
      Some (if err \<noteq> noErr then (err, mk_extent 0 0, ap, m1) else alloc_mark bread m1 found f ap mn u)"
    "srch_only m m1" "alloc_ok m1" "same_flags flags f"
    "ISSET f HFS_ALLOC_IGNORE_TENTATIVE = steals m flags (blockCount extent) (hfs_freeblks backing m False)"
    "err \<noteq> noErr \<longrightarrow> err = dskFulErr \<or> err \<in> range bread"
    "err = noErr \<longrightarrow> startBlock found + blockCount found \<le> allocLimit m1 \<and> run (startBlock found) (blockCount found) \<inter> taken_blocks m1 f = {} \<and>
       0 < alloc_align ap mn (blockCount found) \<and> alloc_align ap mn (blockCount found) \<le> blockCount found \<and>
       good_extent backing m extent flags ap (mk_extent (startBlock found) (alloc_align ap mn (blockCount found)))"
    using alloc_int_search [OF req] by blast
  note fs = same_flags_ISSET [OF a(4)]
  have f: "\<not> reserving f" "\<not> from_reservation f" "\<not> ISSET f HFS_ALLOC_IGNORE_RESERVED" "ISSET f HFS_ALLOC_SKIPFREEBLKS = ISSET flags HFS_ALLOC_SKIPFREEBLKS"
    using fs search_mask_flags fl req by (simp_all add: ISSET_parts new_request_def)
  show ?thesis
  proof (cases "err = noErr")
    case False
    then show ?thesis
      using a(1,6) alloc_failed_search [OF a(2,3)] by simp
  next
    case True
    define n where "n = alloc_align ap mn (blockCount found)"
    have g: "startBlock found + blockCount found \<le> allocLimit m1" "run (startBlock found) (blockCount found) \<inter> taken_blocks m1 f = {}" "0 < n" "n \<le> blockCount found"
      "good_extent backing m extent flags ap (mk_extent (startBlock found) n)"
      using a(7) True by (simp_all add: n_def)
    obtain err' ext ap' m' where r: "alloc_mark bread m1 found f ap mn u = (err', ext, ap', m')"
      by (metis prod_cases4)
    note p = alloc_mark_plain [OF a(3) f(1-3) g(1-4) n_def r]
    have "allocated backing m extent flags ext m'" if "err' = noErr"
    proof -
      have "ext = mk_extent (startBlock found) n" "alloc_done m f (startBlock found) n m'"
        using p that alloc_done_after [OF a(2)] by simp_all
      then show ?thesis
        using f(4) a(5) by (simp add: allocated_def alloc_done_def ext_run_def)
    qed
    moreover have "alloc_failed bread m err' ext m'" if "err' \<noteq> noErr"
      using p that srch_only_reserved(5,7) [OF a(2)] static_trans by (auto simp: alloc_failed_def)
    ultimately show ?thesis
      using a(1) True r p g(3,5) by auto
  qed
qed


text \<open>The blocks become a reservation.\<close>

lemma alloc_int_reserve:
  assumes req: "new_request bread j backing m extent flags (Some a)" and fl: "reserving flags"
    and ns: "ISSET flags HFS_ALLOC_TENTATIVE \<Longrightarrow> \<not> steals m flags (blockCount extent) (hfs_freeblks backing m False)"
  shows "(\<exists>err ap' m'. hfs_block_alloc_int bread j backing m extent flags (Some a) = Some (err, mk_extent 0 0, ap', m') \<and>
      err \<noteq> noErr \<and> alloc_failed bread m err (mk_extent 0 0) m') \<or>
    (\<exists>ext a' e m' f. hfs_block_alloc_int bread j backing m extent flags (Some a) = Some (noErr, ext, Some a', m') \<and>
      good_extent backing m extent flags (Some a) ext \<and> 0 < blockCount ext \<and> reservation_out a' = Some e \<and> same_flags flags f \<and>
      ISSET f HFS_ALLOC_IGNORE_TENTATIVE = steals m flags (blockCount extent) (hfs_freeblks backing m False) \<and>
      reserve_done m f (startBlock ext) (blockCount ext) e m')"
proof -
  obtain err found f mn u m1 where a: "hfs_block_alloc_int bread j backing m extent flags (Some a) =
      Some (if err \<noteq> noErr then (err, mk_extent 0 0, Some a, m1) else alloc_mark bread m1 found f (Some a) mn u)"
    "srch_only m m1" "alloc_ok m1" "same_flags flags f"
    "ISSET f HFS_ALLOC_IGNORE_TENTATIVE = steals m flags (blockCount extent) (hfs_freeblks backing m False)"
    "err \<noteq> noErr \<longrightarrow> err = dskFulErr \<or> err \<in> range bread"
    "err = noErr \<longrightarrow> startBlock found + blockCount found \<le> allocLimit m1 \<and> run (startBlock found) (blockCount found) \<inter> taken_blocks m1 f = {} \<and>
       0 < alloc_align (Some a) mn (blockCount found) \<and> alloc_align (Some a) mn (blockCount found) \<le> blockCount found \<and>
       good_extent backing m extent flags (Some a) (mk_extent (startBlock found) (alloc_align (Some a) mn (blockCount found)))"
    using alloc_int_search [OF req] by blast
  note fs = same_flags_ISSET [OF a(4)]
  have f: "reserving f" "\<not> from_reservation f" "\<not> ISSET f HFS_ALLOC_IGNORE_RESERVED" "\<not> (ISSET f HFS_ALLOC_TENTATIVE \<and> ISSET f HFS_ALLOC_IGNORE_TENTATIVE)"
    using fs search_mask_flags fl req ns a(5) by (auto simp: ISSET_parts new_request_def)
  show ?thesis
  proof (cases "err = noErr")
    case False
    then show ?thesis
      using a(1,6) alloc_failed_search [OF a(2,3)] by simp
  next
    case True
    define n where "n = alloc_align (Some a) mn (blockCount found)"
    have g: "startBlock found + blockCount found \<le> allocLimit m1" "run (startBlock found) (blockCount found) \<inter> taken_blocks m1 f = {}" "0 < n" "n \<le> blockCount found"
      "good_extent backing m extent flags (Some a) (mk_extent (startBlock found) n)"
      using a(7) True by (simp_all add: n_def)
    obtain m' e a' where "alloc_mark bread m1 found f (Some a) mn u = (noErr, mk_extent (startBlock found) n, Some a', m')"
      "reservation_out a' = Some e" "reserve_done m1 f (startBlock found) n e m'"
      using alloc_mark_reserve [OF a(3) f g(1-4) n_def, of bread u] by blast
    then show ?thesis
      using a(1,4,5) True g(3,5) reserve_done_after [OF a(2)]
      by (intro disjI2 exI [of _ "mk_extent (startBlock found) n"] exI [of _ a'] exI [of _ e] exI [of _ m'] exI [of _ f]) simp
  qed
qed


text \<open>Requests that name a reservation.\<close>

lemma range_u32:
  assumes "range_ok limit rng" "limit < 4294967296"
  shows "to_u32 (rl_start rng) = nat (rl_start rng)" "to_u32 (rl_len rng) = nat (rl_len rng)" "nat (rl_len rng) < 4294967296" "0 < nat (rl_len rng)"
  using assms by (auto simp: to_u32_def range_ok_def rl_len_def)

lemma alloc_int_commit:
  assumes ok: "alloc_ok m" and fl: "ISSET flags HFS_ALLOC_COMMIT" "\<not> ISSET flags HFS_ALLOC_USE_TENTATIVE" "\<not> reserving flags"
      "\<not> ISSET flags HFS_ALLOC_IGNORE_TENTATIVE"
    and rng: "reservation_in a = Some rng" "rng \<in> set (locked m)" and n: "0 < blockCount extent" "align_ok (Some a) (blockCount extent)"
  shows "\<exists>err ext ap' m'. hfs_block_alloc_int bread j backing m extent flags (Some a) = Some (err, ext, ap', m') \<and>
    (if err = noErr then startBlock ext = nat (rl_start rng) \<and> 0 < blockCount ext \<and> blockCount ext \<le> nat (rl_len rng) \<and>
       (alignment a = 0 \<longrightarrow> ext_run ext = entry_blocks [rng]) \<and> ext_run ext \<subseteq> entry_blocks [rng] \<and>
       commit_done m flags rng (startBlock ext) (blockCount ext) m' \<and> ap' = Some (a\<lparr>reservation_in := None\<rparr>)
     else err \<in> range bread \<and> alloc_failed bread m err ext m')"
proof -
  have lim: "reserved_ok m" "allocLimit m < 4294967296"
    using ok by (simp_all add: alloc_ok_def search_ok_def fec_ok_def)
  note d = reserved_okD [OF lim(1)]
  have rok: "range_ok (allocLimit m) rng"
    using d(2) rng(2) by (simp add: ranges_ok_def)
  note u = range_u32 [OF rok lim(2)] and er = entry_run [OF rok]
  define c where "c = nat (rl_len rng)"
  define s where "s = nat (rl_start rng)"
  define k where "k = alloc_align (Some a) (blockCount extent) c"
  note al = alloc_align_bounds [OF n(2) order_refl n(1) u(4,3), folded c_def, folded k_def]
  have kl: "int k \<le> rl_len rng"
    using al(2) er(3) by (simp add: c_def)
  obtain err ext ap' m' where r: "alloc_mark bread m (mk_extent s c) flags (Some a) (blockCount extent) False = (err, ext, ap', m')"
    by (metis prod_cases4)
  note p = alloc_mark_commit [OF ok fl rng al(1) kl k_def s_def r]
  have "hfs_block_alloc_int bread j backing m extent flags (Some a) = Some (err, ext, ap', m')"
    using fl(1) rng(1) u(1,2) r by (simp add: hfs_block_alloc_int_def Let_def c_def s_def)
  moreover have "run s k \<subseteq> entry_blocks [rng]" "alignment a = 0 \<Longrightarrow> run s k = entry_blocks [rng]"
    using er(1) al(2) by (auto simp: s_def c_def run_def k_def alloc_align_def)
  moreover have "err \<in> range bread \<and> alloc_failed bread m err ext m'" if "err \<noteq> noErr"
    using p that by (simp add: alloc_failed_def)
  ultimately show ?thesis
    using p al(1,2) by (auto simp: ext_run_def s_def c_def)
qed

lemma ISSET_commit:
  "ISSET (or f HFS_ALLOC_COMMIT) HFS_ALLOC_COMMIT"
  "ISSET (or f HFS_ALLOC_COMMIT) HFS_ALLOC_USE_TENTATIVE = ISSET f HFS_ALLOC_USE_TENTATIVE"
  "ISSET (or f HFS_ALLOC_COMMIT) HFS_ALLOC_LOCKED = ISSET f HFS_ALLOC_LOCKED"
  "ISSET (or f HFS_ALLOC_COMMIT) HFS_ALLOC_TENTATIVE = ISSET f HFS_ALLOC_TENTATIVE"
  "ISSET (or f HFS_ALLOC_COMMIT) HFS_ALLOC_IGNORE_TENTATIVE = ISSET f HFS_ALLOC_IGNORE_TENTATIVE"
  "ISSET (or f HFS_ALLOC_COMMIT) HFS_ALLOC_SKIPFREEBLKS = ISSET f HFS_ALLOC_SKIPFREEBLKS"
proof -
  have "and (or f HFS_ALLOC_COMMIT) HFS_ALLOC_COMMIT = HFS_ALLOC_COMMIT"
    by (auto simp: bit_eq_iff bit_simps)
  then show "ISSET (or f HFS_ALLOC_COMMIT) HFS_ALLOC_COMMIT"
    by (simp add: ISSET_def HFS_ALLOC_COMMIT_def)
  have o: "and x HFS_ALLOC_COMMIT = 0 \<Longrightarrow> ISSET (or f HFS_ALLOC_COMMIT) x = ISSET f x" for x
    using and_other(2) [of x HFS_ALLOC_COMMIT f] by (simp add: ISSET_def)
  show "ISSET (or f HFS_ALLOC_COMMIT) HFS_ALLOC_USE_TENTATIVE = ISSET f HFS_ALLOC_USE_TENTATIVE"
    "ISSET (or f HFS_ALLOC_COMMIT) HFS_ALLOC_LOCKED = ISSET f HFS_ALLOC_LOCKED"
    "ISSET (or f HFS_ALLOC_COMMIT) HFS_ALLOC_TENTATIVE = ISSET f HFS_ALLOC_TENTATIVE"
    "ISSET (or f HFS_ALLOC_COMMIT) HFS_ALLOC_IGNORE_TENTATIVE = ISSET f HFS_ALLOC_IGNORE_TENTATIVE"
    "ISSET (or f HFS_ALLOC_COMMIT) HFS_ALLOC_SKIPFREEBLKS = ISSET f HFS_ALLOC_SKIPFREEBLKS"
    by (rule o; simp add: hfs_flag_defs)+
qed

lemma alloc_int_use:
  assumes ok: "alloc_ok m" and fl: "ISSET flags HFS_ALLOC_USE_TENTATIVE" "\<not> ISSET flags HFS_ALLOC_COMMIT" "\<not> ISSET flags HFS_ALLOC_ROLL_BACK"
      "\<not> reserving flags" "\<not> ISSET flags HFS_ALLOC_IGNORE_TENTATIVE"
    and rng: "reservation_in a = Some rng" "rng \<in> set (tentative m)" and n: "0 < blockCount extent" "align_ok (Some a) (blockCount extent)"
    and count: "count = min (min (request_max (Some a) (blockCount extent)) (nat (rl_len rng))) (hfs_freeblks backing m False)" "blockCount extent \<le> count"
  shows "\<exists>err ext ap' m'. hfs_block_alloc_int bread j backing m extent flags (Some a) = Some (err, ext, ap', m') \<and>
    (if err = noErr then startBlock ext = nat (rl_start rng) \<and> blockCount extent \<le> blockCount ext \<and> blockCount ext \<le> count \<and>
       ext_run ext \<subseteq> entry_blocks [rng] \<and> use_done m flags (startBlock ext) (blockCount ext) m'
     else err \<in> range bread \<and> alloc_failed bread m err ext m')"
proof -
  have lim: "reserved_ok m" "allocLimit m < 4294967296"
    using ok by (simp_all add: alloc_ok_def search_ok_def fec_ok_def)
  note d = reserved_okD [OF lim(1)]
  have rok: "range_ok (allocLimit m) rng" "rl_start rng \<noteq> - 1"
    using d(1) rng(2) by (auto simp: ranges_ok_def range_ok_def)
  note u = range_u32 [OF rok(1) lim(2)] and er = entry_run [OF rok(1)]
  define s where "s = nat (rl_start rng)"
  define k where "k = alloc_align (Some a) (blockCount extent) count"
  have cp: "0 < count" "count < 4294967296" "count \<le> nat (rl_len rng)"
    using count n(1) u(3) by auto
  note al = alloc_align_bounds [OF n(2) order_refl n(1) cp(1,2), folded k_def]
  have kl: "int k \<le> rl_len rng"
    using al(2) cp(3) er(3) by simp
  let ?f = "or flags HFS_ALLOC_COMMIT"
  have f: "ISSET ?f HFS_ALLOC_USE_TENTATIVE" "\<not> reserving ?f" "\<not> ISSET ?f HFS_ALLOC_IGNORE_TENTATIVE"
    using fl by (simp_all add: ISSET_parts ISSET_commit)
  obtain err ext ap' m' where r: "alloc_mark bread m (mk_extent s count) ?f (Some a) (blockCount extent) False = (err, ext, ap', m')"
    by (metis prod_cases4)
  note p = alloc_mark_use [OF ok f rng al(1) kl k_def r [unfolded s_def], folded s_def]
  have "alloc_use_tentative m flags a (blockCount extent) (request_max (Some a) (blockCount extent)) (hfs_freeblks backing m False) = Inl (mk_extent s count, ?f)"
    using rng(1) rok(2) u count fl(4) by (simp add: alloc_use_tentative_def split_beta s_def ISSET_parts)
  then have "hfs_block_alloc_int bread j backing m extent flags (Some a) = Some (err, ext, ap', m')"
    using fl r by (simp add: hfs_block_alloc_int_def Let_def request_max_def)
  moreover have "run s k \<subseteq> entry_blocks [rng]"
    using er(1) al(2) cp(3) by (auto simp: s_def run_def)
  moreover have "use_done m flags s k m'" if "use_done m ?f s k m'"
    using that by (simp add: use_done_def ISSET_commit)
  moreover have "err \<in> range bread \<and> alloc_failed bread m err ext m'" if "err \<noteq> noErr"
    using p that by (simp add: alloc_failed_def)
  ultimately show ?thesis
    using p al(2,3) count(2) by (auto simp: ext_run_def s_def)
qed

section \<open>Sequences of calls\<close>

text \<open>
  A volume between two calls, with the blocks that the allocations so far have handed out and no call has freed yet.  A
  step is one call that succeeds, or an allocation that finds the volume full; its label says which blocks changed
  hands.  The journal and the backing store may answer differently at every call.
\<close>

datatype vol_event = Take "nat set" | Give "nat set" | Keep

inductive vol_call :: "(nat \<Rightarrow> hfs_err) \<Rightarrow> hfsmount \<times> nat set \<Rightarrow> vol_event \<Rightarrow> hfsmount \<times> nat set \<Rightarrow> bool" for bread where
  allocate: "new_request bread j backing m extent flags ap \<Longrightarrow> \<not> reserving flags \<Longrightarrow> \<not> ISSET flags HFS_ALLOC_SKIPFREEBLKS \<Longrightarrow>
    hfs_block_alloc_int bread j backing m extent flags ap = Some (noErr, ext, ap', m') \<Longrightarrow>
    vol_call bread (m, owned) (Take (ext_run ext)) (m', owned \<union> ext_run ext)"
| reserve: "new_request bread j backing m extent flags (Some a) \<Longrightarrow> reserving flags \<Longrightarrow>
    \<not> (ISSET flags HFS_ALLOC_TENTATIVE \<and> steals m flags (blockCount extent) (hfs_freeblks backing m False)) \<Longrightarrow>
    hfs_block_alloc_int bread j backing m extent flags (Some a) = Some (noErr, ext, ap', m') \<Longrightarrow>
    vol_call bread (m, owned) Keep (m', owned)"
| full: "new_request bread j backing m extent flags ap \<Longrightarrow> \<not> reserving flags \<Longrightarrow>
    hfs_block_alloc_int bread j backing m extent flags ap = Some (dskFulErr, ext, ap', m') \<Longrightarrow>
    vol_call bread (m, owned) Keep (m', owned)"
| commit: "ISSET flags HFS_ALLOC_COMMIT \<Longrightarrow> \<not> ISSET flags HFS_ALLOC_USE_TENTATIVE \<Longrightarrow> \<not> reserving flags \<Longrightarrow>
    \<not> ISSET flags HFS_ALLOC_IGNORE_TENTATIVE \<Longrightarrow> \<not> ISSET flags HFS_ALLOC_SKIPFREEBLKS \<Longrightarrow>
    reservation_in a = Some rng \<Longrightarrow> rng \<in> set (locked m) \<Longrightarrow> 0 < blockCount extent \<Longrightarrow> align_ok (Some a) (blockCount extent) \<Longrightarrow>
    hfs_block_alloc_int bread j backing m extent flags (Some a) = Some (noErr, ext, ap', m') \<Longrightarrow>
    vol_call bread (m, owned) (Take (ext_run ext)) (m', owned \<union> ext_run ext)"
| use_tentative: "ISSET flags HFS_ALLOC_USE_TENTATIVE \<Longrightarrow> \<not> ISSET flags HFS_ALLOC_COMMIT \<Longrightarrow> \<not> ISSET flags HFS_ALLOC_ROLL_BACK \<Longrightarrow>
    \<not> reserving flags \<Longrightarrow> \<not> ISSET flags HFS_ALLOC_IGNORE_TENTATIVE \<Longrightarrow> \<not> ISSET flags HFS_ALLOC_SKIPFREEBLKS \<Longrightarrow>
    reservation_in a = Some rng \<Longrightarrow> rng \<in> set (tentative m) \<Longrightarrow> 0 < blockCount extent \<Longrightarrow> align_ok (Some a) (blockCount extent) \<Longrightarrow>
    blockCount extent \<le> min (min (request_max (Some a) (blockCount extent)) (nat (rl_len rng))) (hfs_freeblks backing m False) \<Longrightarrow>
    hfs_block_alloc_int bread j backing m extent flags (Some a) = Some (noErr, ext, ap', m') \<Longrightarrow>
    vol_call bread (m, owned) (Take (ext_run ext)) (m', owned \<union> ext_run ext)"
| release: "rng \<in> set (hfs_reserved_ranges m l) \<Longrightarrow>
    hfs_free_locked_internal m (Some rng) l = (m', r) \<Longrightarrow> vol_call bread (m, owned) Keep (m', owned)"
| deallocate: "0 < n \<Longrightarrow> run s n \<subseteq> owned \<Longrightarrow> BlockDeallocate bread m s n 0 = (noErr, m') \<Longrightarrow>
    vol_call bread (m, owned) (Give (run s n)) (m', owned - run s n)"
| trimmed: "s + n \<le> totalBlocks m \<Longrightarrow> run s n \<inter> taken_blocks m 0 = {} \<Longrightarrow>
    hfs_trim_callback m [mk_dk_extent (s * blockSize m + hfsPlusIOPosOffset m) (n * blockSize m)] = m' \<Longrightarrow>
    vol_call bread (m, owned) Keep (m', owned)"

inductive_cases vol_callE: "vol_call bread x ev y"

section \<open>The abstract volume\<close>

text \<open>Three disjoint sets of blocks: in use, reserved tentatively, and locked.\<close>

record volume =
  in_use :: "nat set"
  tent :: "nat set"
  lock :: "nat set"

definition volume_of :: "hfsmount \<Rightarrow> volume" where
  "volume_of m = \<lparr>in_use = used_blocks m, tent = entry_blocks (tentative m), lock = entry_blocks (locked m)\<rparr>"

text \<open>
  Blocks are taken when they are free, when they are reserved tentatively, or when they are locked for the caller; blocks
  in use can be given back; reservations are made of blocks that nobody else has, and tentative ones can always vanish.
\<close>

inductive volume_step :: "volume \<Rightarrow> vol_event \<Rightarrow> volume \<Rightarrow> bool" where
  take_free: "B \<noteq> {} \<Longrightarrow> B \<inter> (in_use v \<union> lock v) = {} \<Longrightarrow> T \<subseteq> tent v - B \<Longrightarrow>
    volume_step v (Take B) (v\<lparr>in_use := in_use v \<union> B, tent := T\<rparr>)"
| take_locked: "B \<noteq> {} \<Longrightarrow> B \<subseteq> lock v \<Longrightarrow> L \<subseteq> lock v - B \<Longrightarrow> volume_step v (Take B) (v\<lparr>in_use := in_use v \<union> B, lock := L\<rparr>)"
| give: "B \<subseteq> in_use v \<Longrightarrow> volume_step v (Give B) (v\<lparr>in_use := in_use v - B\<rparr>)"
| reserve_locked: "B \<inter> (in_use v \<union> lock v) = {} \<Longrightarrow> T \<subseteq> tent v - B \<Longrightarrow> volume_step v Keep (v\<lparr>lock := lock v \<union> B, tent := T\<rparr>)"
| reserve_tentative: "B \<inter> (in_use v \<union> lock v \<union> tent v) = {} \<Longrightarrow> B \<subseteq> T \<Longrightarrow> T \<subseteq> tent v \<union> B \<Longrightarrow> volume_step v Keep (v\<lparr>tent := T\<rparr>)"
| give_up: "T \<subseteq> tent v \<Longrightarrow> L \<subseteq> lock v \<Longrightarrow> volume_step v Keep (v\<lparr>tent := T, lock := L\<rparr>)"

definition volume_sane :: "volume \<Rightarrow> bool" where
  "volume_sane v \<longleftrightarrow> in_use v \<inter> tent v = {} \<and> in_use v \<inter> lock v = {} \<and> tent v \<inter> lock v = {}"

lemma volume_step_sane: "volume_step v ev v' \<Longrightarrow> volume_sane v \<Longrightarrow> volume_sane v'"
  by (induction rule: volume_step.induct) (auto simp: volume_sane_def)

text \<open>A step takes only blocks that were not in use, and changes the blocks in use only as its label says.\<close>

lemma volume_step_use:
  "volume_step v ev v' \<Longrightarrow> volume_sane v \<Longrightarrow>
     (case ev of Take B \<Rightarrow> B \<inter> in_use v = {} \<and> in_use v' = in_use v \<union> B
      | Give B \<Rightarrow> B \<subseteq> in_use v \<and> in_use v' = in_use v - B | Keep \<Rightarrow> in_use v' = in_use v)"
  by (induction rule: volume_step.induct) (auto simp: volume_sane_def)


section \<open>The calls implement the abstract volume\<close>

text \<open>What a call has to establish, apart from the step of the abstract volume.\<close>

definition call_ok :: "hfsmount \<Rightarrow> vol_event \<Rightarrow> hfsmount \<Rightarrow> bool" where
  "call_ok m ev m' \<longleftrightarrow> volume_step (volume_of m) ev (volume_of m') \<and> alloc_ok m' \<and> count_ok m' \<and> static m m'"

lemma used_taken:
  assumes "bm_set (vcbBitmap m') = bm_set (vcbBitmap m) \<union> run s n" "totalBlocks m' = totalBlocks m" "s + n \<le> totalBlocks m"
  shows "used_blocks m' = used_blocks m \<union> run s n"
  using assms by (auto simp: used_blocks_def run_def)

lemma alloc_ok_limits: "alloc_ok m \<Longrightarrow> allocLimit m \<le> totalBlocks m \<and> totalBlocks m < 4294967296"
  by (simp add: alloc_ok_def search_ok_def volume_ok_def)

lemma static_total: "static m m' \<Longrightarrow> totalBlocks m' = totalBlocks m"
  by (simp add: static_def)

lemma run_nonempty: "0 < n \<Longrightarrow> run s n \<noteq> {}"
  by (auto simp: run_def)

lemma volume_of_sel [simp]:
  "in_use (volume_of m) = used_blocks m" "tent (volume_of m) = entry_blocks (tentative m)" "lock (volume_of m) = entry_blocks (locked m)"
  by (simp_all add: volume_of_def)

lemma call_allocate:
  assumes ok: "alloc_ok m" "count_ok m" and req: "new_request bread j backing m extent flags ap" and fl: "\<not> reserving flags" "\<not> ISSET flags HFS_ALLOC_SKIPFREEBLKS"
    and r: "hfs_block_alloc_int bread j backing m extent flags ap = Some (noErr, ext, ap', m')"
  shows "call_ok m (Take (ext_run ext)) m'"
proof -
  let ?s = "startBlock ext" and ?n = "blockCount ext"
  have g: "good_extent backing m extent flags ap ext" "0 < ?n" "allocated backing m extent flags ext m'"
    using alloc_int_plain [OF req fl(1)] r by auto
  have lim: "?s + ?n \<le> totalBlocks m" "totalBlocks m < 4294967296"
    using g(1) alloc_ok_limits [OF ok(1)] by (auto simp: good_extent_def)
  have m': "alloc_ok m'" "static m m'" "bm_set (vcbBitmap m') = bm_set (vcbBitmap m) \<union> run ?s ?n" "locked m' = locked m"
    "freeBlocks m' = sub32 (freeBlocks m) ?n" "entry_blocks (tentative m') \<subseteq> entry_blocks (tentative m) - run ?s ?n"
    using g(3) fl(2) by (simp_all add: allocated_def ext_run_def)
  have fr: "run ?s ?n \<inter> (bm_set (vcbBitmap m) \<union> entry_blocks (locked m)) = {}"
    using g(1) by (simp add: good_extent_def)
  have c: "count_ok m'"
    using count_taken(1) [OF ok(2) static_total [OF m'(2)] lim(2,1) _ m'(3,5)] fr by blast
  have "volume_of m' = (volume_of m)\<lparr>in_use := used_blocks m \<union> run ?s ?n, tent := entry_blocks (tentative m')\<rparr>"
    using used_taken [OF m'(3) static_total [OF m'(2)] lim(1)] m'(4) by (simp add: volume_of_def)
  moreover have "volume_step (volume_of m) (Take (run ?s ?n)) ((volume_of m)\<lparr>in_use := in_use (volume_of m) \<union> run ?s ?n, tent := entry_blocks (tentative m')\<rparr>)"
    using fr m'(6) run_nonempty [OF g(2)] by (intro take_free) (auto simp: used_blocks_def)
  ultimately show ?thesis
    using m'(1,2) c by (simp add: call_ok_def ext_run_def)
qed

lemma call_keep_bitmap:
  assumes "count_ok m" "static m m'" "bm_set (vcbBitmap m') = bm_set (vcbBitmap m)" "freeBlocks m' = freeBlocks m"
  shows "count_ok m'" "used_blocks m' = used_blocks m"
  using assms by (simp_all add: count_ok_def used_blocks_def static_def)

lemma call_reserve:
  assumes ok: "alloc_ok m" "count_ok m" and req: "new_request bread j backing m extent flags (Some a)" and fl: "reserving flags"
      "\<not> (ISSET flags HFS_ALLOC_TENTATIVE \<and> steals m flags (blockCount extent) (hfs_freeblks backing m False))"
    and r: "hfs_block_alloc_int bread j backing m extent flags (Some a) = Some (noErr, ext, ap', m')"
  shows "call_ok m Keep m'"
proof -
  let ?s = "startBlock ext" and ?n = "blockCount ext"
  obtain f e where g: "good_extent backing m extent flags (Some a) ext" "same_flags flags f"
    "ISSET f HFS_ALLOC_IGNORE_TENTATIVE = steals m flags (blockCount extent) (hfs_freeblks backing m False)" "reserve_done m f ?s ?n e m'"
    using alloc_int_reserve [OF req fl(1)] fl(2) r by auto
  have ft: "ISSET f HFS_ALLOC_TENTATIVE = ISSET flags HFS_ALLOC_TENTATIVE"
    using same_flags_ISSET [OF g(2) search_mask_flags(2)] .
  have m': "alloc_ok m'" "static m m'" "bm_set (vcbBitmap m') = bm_set (vcbBitmap m)" "freeBlocks m' = freeBlocks m" "entry_blocks [e] = run ?s ?n"
    using g(4) by (simp_all add: reserve_done_def)
  note k = call_keep_bitmap [OF ok(2) m'(2-4)]
  have fr: "run ?s ?n \<inter> (used_blocks m \<union> entry_blocks (locked m)) = {}"
    using g(1) by (auto simp: good_extent_def used_blocks_def)
  have "volume_step (volume_of m) Keep (volume_of m')"
  proof (cases "ISSET flags HFS_ALLOC_TENTATIVE")
    case True
    have t: "tentative m' = e # take 3 (tentative m)" "locked m' = locked m"
      using g(4) True ft by (simp_all add: reserve_done_def)
    have eb: "entry_blocks (tentative m') = run ?s ?n \<union> entry_blocks (take 3 (tentative m))"
      unfolding t using entry_blocks_Cons [of e "take 3 (tentative m)"] m'(5) by simp
    have "entry_blocks (take 3 (tentative m)) \<subseteq> entry_blocks (tentative m)"
      by (auto simp: entry_blocks_def dest: in_set_takeD)
    moreover have "run ?s ?n \<inter> entry_blocks (tentative m) = {}"
      using g(1) fl(2) True by (simp add: good_extent_def)
    ultimately have "volume_step (volume_of m) Keep ((volume_of m)\<lparr>tent := entry_blocks (tentative m')\<rparr>)"
      using fr eb by (intro reserve_tentative [of "run ?s ?n"]) auto
    then show ?thesis
      using k(2) t(2) by (simp add: volume_of_def)
  next
    case False
    have t: "locked m' = e # locked m" "entry_blocks (tentative m') \<subseteq> entry_blocks (tentative m) - run ?s ?n"
      using g(4) False ft by (simp_all add: reserve_done_def)
    have eb: "entry_blocks (locked m') = entry_blocks (locked m) \<union> run ?s ?n"
      unfolding t using entry_blocks_Cons [of e "locked m"] m'(5) by auto
    have "volume_step (volume_of m) Keep ((volume_of m)\<lparr>lock := lock (volume_of m) \<union> run ?s ?n, tent := entry_blocks (tentative m')\<rparr>)"
      using fr t(2) by (intro reserve_locked) auto
    then show ?thesis
      using k(2) eb by (simp add: volume_of_def)
  qed
  then show ?thesis
    using m'(1,2) k(1) by (simp add: call_ok_def)
qed


lemma call_full:
  assumes ok: "alloc_ok m" "count_ok m" and req: "new_request bread j backing m extent flags ap" and fl: "\<not> reserving flags"
    and r: "hfs_block_alloc_int bread j backing m extent flags ap = Some (dskFulErr, ext, ap', m')"
  shows "call_ok m Keep m'"
proof -
  have "alloc_failed bread m dskFulErr ext m'" "dskFulErr \<notin> range bread"
    using alloc_int_plain [OF req fl] r req by (auto simp: new_request_def)
  then have m': "alloc_ok m'" "static m m'" "vcbBitmap m' = vcbBitmap m" "freeBlocks m' = freeBlocks m" "hfs_reserved_ranges m' = hfs_reserved_ranges m"
    by (auto simp: alloc_failed_def)
  have b: "bm_set (vcbBitmap m') = bm_set (vcbBitmap m)"
    using m'(3) by simp
  note k = call_keep_bitmap [OF ok(2) m'(2) b m'(4)]
  have "volume_of m' = (volume_of m)\<lparr>tent := tent (volume_of m), lock := lock (volume_of m)\<rparr>"
    using k(2) m'(5) by (simp add: volume_of_def)
  then show ?thesis
    using m'(1,2) k(1) give_up [of "tent (volume_of m)" "volume_of m" "lock (volume_of m)"] by (simp add: call_ok_def)
qed

lemma call_take_reserved:
  assumes ok: "alloc_ok m" "count_ok m" and m': "alloc_ok m'" "static m m'" "bm_set (vcbBitmap m') = bm_set (vcbBitmap m) \<union> run s n"
      "freeBlocks m' = sub32 (freeBlocks m) n"
    and sub: "run s n \<subseteq> entry_blocks (tentative m @ locked m)" "s + n \<le> totalBlocks m"
  shows "count_ok m'" "used_blocks m' = used_blocks m \<union> run s n" "run s n \<inter> used_blocks m = {}"
proof -
  note d = reserved_okD [of 0 0 m]
  have "run s n \<inter> bm_set (vcbBitmap m) = {}"
    using sub(1) d(4,5) ok(1) by (auto simp: alloc_ok_def)
  then show "count_ok m'" "run s n \<inter> used_blocks m = {}"
    using count_taken(1) [OF ok(2) static_total [OF m'(2)] _ sub(2) _ m'(3,4)] alloc_ok_limits [OF ok(1)] by (auto simp: used_blocks_def)
  show "used_blocks m' = used_blocks m \<union> run s n"
    using used_taken [OF m'(3) static_total [OF m'(2)] sub(2)] .
qed

lemma entry_in_limit:
  assumes "alloc_ok m" "rng \<in> set (hfs_reserved_ranges m l)" "n \<le> nat (rl_len rng)"
  shows "nat (rl_start rng) + n \<le> totalBlocks m"
proof -
  have "ranges_ok (allocLimit m) (hfs_reserved_ranges m l)"
    using reserved_okD(1,2) [of 0 0 m] assms(1) by (cases l) (simp_all add: alloc_ok_def)
  then have "nat (rl_start rng) + nat (rl_len rng) \<le> allocLimit m"
    using assms(2) entry_run(2) by (auto simp: ranges_ok_def)
  then show ?thesis
    using assms(3) alloc_ok_limits [OF assms(1)] by simp
qed

lemma call_commit:
  assumes ok: "alloc_ok m" "count_ok m" and fl: "ISSET flags HFS_ALLOC_COMMIT" "\<not> ISSET flags HFS_ALLOC_USE_TENTATIVE" "\<not> reserving flags"
      "\<not> ISSET flags HFS_ALLOC_IGNORE_TENTATIVE" "\<not> ISSET flags HFS_ALLOC_SKIPFREEBLKS"
    and rng: "reservation_in a = Some rng" "rng \<in> set (locked m)" and n: "0 < blockCount extent" "align_ok (Some a) (blockCount extent)"
    and r: "hfs_block_alloc_int bread j backing m extent flags (Some a) = Some (noErr, ext, ap', m')"
  shows "call_ok m (Take (ext_run ext)) m'"
proof -
  let ?s = "startBlock ext" and ?n = "blockCount ext"
  have g: "?s = nat (rl_start rng)" "0 < ?n" "?n \<le> nat (rl_len rng)" "run ?s ?n \<subseteq> entry_blocks [rng]" "commit_done m flags rng ?s ?n m'"
    using alloc_int_commit [OF ok(1) fl(1-4) rng n, of bread j backing] r by (auto simp: ext_run_def)
  have m': "alloc_ok m'" "static m m'" "bm_set (vcbBitmap m') = bm_set (vcbBitmap m) \<union> run ?s ?n" "freeBlocks m' = sub32 (freeBlocks m) ?n"
    "locked m' = remove1 rng (locked m)" "tentative m' = tentative m"
    using g(5) fl(5) by (simp_all add: commit_done_def)
  have sub: "run ?s ?n \<subseteq> entry_blocks (locked m)" "?s + ?n \<le> totalBlocks m"
    using g(1,3,4) entry_blocks_sub [OF rng(2)] entry_in_limit [OF ok(1) rng(2)] by auto
  then have all: "run ?s ?n \<subseteq> entry_blocks (tentative m @ locked m)"
    by auto
  note k = call_take_reserved [OF ok m'(1-4) all sub(2)]
  have "ranges_ok (allocLimit m) (locked m)"
    using ok(1) reserved_okD(2) by (auto simp: alloc_ok_def)
  then have "entry_blocks (locked m') \<subseteq> entry_blocks (locked m) - run ?s ?n"
    using remove1_ranges [OF _ rng(2)] g(4) m'(5) by auto
  then have "volume_step (volume_of m) (Take (run ?s ?n)) ((volume_of m)\<lparr>in_use := in_use (volume_of m) \<union> run ?s ?n, lock := entry_blocks (locked m')\<rparr>)"
    using sub(1) run_nonempty [OF g(2)] by (intro take_locked) auto
  then show ?thesis
    using m'(1,2,6) k(1,2) sub(1) by (simp add: call_ok_def volume_of_def ext_run_def)
qed

lemma call_use:
  assumes ok: "alloc_ok m" "count_ok m" and fl: "ISSET flags HFS_ALLOC_USE_TENTATIVE" "\<not> ISSET flags HFS_ALLOC_COMMIT" "\<not> ISSET flags HFS_ALLOC_ROLL_BACK"
      "\<not> reserving flags" "\<not> ISSET flags HFS_ALLOC_IGNORE_TENTATIVE" "\<not> ISSET flags HFS_ALLOC_SKIPFREEBLKS"
    and rng: "reservation_in a = Some rng" "rng \<in> set (tentative m)" and n: "0 < blockCount extent" "align_ok (Some a) (blockCount extent)"
    and count: "blockCount extent \<le> min (min (request_max (Some a) (blockCount extent)) (nat (rl_len rng))) (hfs_freeblks backing m False)"
    and r: "hfs_block_alloc_int bread j backing m extent flags (Some a) = Some (noErr, ext, ap', m')"
  shows "call_ok m (Take (ext_run ext)) m'"
proof -
  let ?s = "startBlock ext" and ?n = "blockCount ext"
  have g: "?s = nat (rl_start rng)" "0 < ?n" "?n \<le> nat (rl_len rng)" "run ?s ?n \<subseteq> entry_blocks [rng]" "use_done m flags ?s ?n m'"
    using alloc_int_use [OF ok(1) fl(1-5) rng n refl count, of bread j] r n(1) by (auto simp: ext_run_def)
  have m': "alloc_ok m'" "static m m'" "bm_set (vcbBitmap m') = bm_set (vcbBitmap m) \<union> run ?s ?n" "freeBlocks m' = sub32 (freeBlocks m) ?n"
    "locked m' = locked m" "entry_blocks (tentative m') = entry_blocks (tentative m) - run ?s ?n"
    using g(5) fl(6) by (simp_all add: use_done_def)
  have sub: "run ?s ?n \<subseteq> entry_blocks (tentative m)" "?s + ?n \<le> totalBlocks m"
    using g(1,3,4) entry_blocks_sub [OF rng(2)] entry_in_limit [OF ok(1) rng(2)] by auto
  then have all: "run ?s ?n \<subseteq> entry_blocks (tentative m @ locked m)"
    by auto
  note k = call_take_reserved [OF ok m'(1-4) all sub(2)]
  have "entry_blocks (tentative m) \<inter> entry_blocks (locked m) = {}"
    using ok(1) reserved_okD(3) by (auto simp: alloc_ok_def)
  then have "volume_step (volume_of m) (Take (run ?s ?n)) ((volume_of m)\<lparr>in_use := in_use (volume_of m) \<union> run ?s ?n, tent := entry_blocks (tentative m')\<rparr>)"
    using sub(1) run_nonempty [OF g(2)] k(3) m'(6) by (intro take_free) auto
  then show ?thesis
    using m'(1,2,5) k(1,2) sub(1) by (simp add: call_ok_def volume_of_def ext_run_def)
qed


lemma call_release:
  assumes ok: "alloc_ok m" "count_ok m" and rng: "rng \<in> set (hfs_reserved_ranges m l)" and r: "hfs_free_locked_internal m (Some rng) l = (m', q)"
  shows "call_ok m Keep m'"
proof -
  have sr: "search_ok m" "reserved_ok m"
    using ok(1) by (simp_all add: alloc_ok_def)
  have "give_result 0 0 m l (remove1 rng (hfs_reserved_ranges m l)) (entry_blocks [rng]) m'"
    using hfs_release_reserved_spec(1) [OF sr rng] r by (auto simp: hfs_free_locked_internal_def)
  then have m': "search_ok m'" "reserved_ok m'" "static m m'" "vcbBitmap m' = vcbBitmap m" "freeBlocks m' = freeBlocks m"
    "hfs_reserved_ranges m' = (hfs_reserved_ranges m)(l := remove1 rng (hfs_reserved_ranges m l))"
    by (simp_all add: give_result_def)
  have a: "alloc_ok m'"
    using m'(1-3) ok(1) by (simp add: alloc_ok_def static_def)
  have b: "bm_set (vcbBitmap m') = bm_set (vcbBitmap m)"
    using m'(4) by simp
  note k = call_keep_bitmap [OF ok(2) m'(3) b m'(5)]
  have "entry_blocks (remove1 x xs) \<subseteq> entry_blocks xs" for x xs
    using set_remove1_subset [of x xs] by (auto simp: entry_blocks_def)
  then have "volume_step (volume_of m) Keep ((volume_of m)\<lparr>tent := entry_blocks (tentative m'), lock := entry_blocks (locked m')\<rparr>)"
    using m'(6) by (intro give_up) auto
  then show ?thesis
    using a m'(3) k by (simp add: call_ok_def volume_of_def)
qed

lemma call_deallocate:
  assumes ok: "alloc_ok m" "count_ok m" and n: "0 < n" "run s n \<subseteq> used_blocks m" and r: "BlockDeallocate bread m s n 0 = (noErr, m')"
  shows "call_ok m (Give (run s n)) m'"
proof -
  have d: "reserved_ok m"
    using ok(1) by (simp add: alloc_ok_def)
  have "s + n - 1 \<in> run s n"
    using n(1) by (auto simp: run_def)
  then have "s + n - 1 \<in> used_blocks m"
    using n(2) by blast
  then have lim: "s + n \<le> totalBlocks m"
    using n(1) by (auto simp: used_blocks_def)
  have res: "run s n \<inter> entry_blocks (tentative m @ locked m) = {}"
    using n(2) reserved_okD(4,5) [OF d] by (auto simp: used_blocks_def)
  have "dealloc_result bread m s n 0 (noErr, m')"
    using BlockDeallocate_spec [OF ok(1) n(1) lim _ res, of 0 bread] r by (simp add: ISSET_def)
  then have m': "alloc_ok m'" "static m m'" "hfs_reserved_ranges m' = hfs_reserved_ranges m" "run s n \<subseteq> bm_set (vcbBitmap m)"
    "bm_set (vcbBitmap m') = bm_set (vcbBitmap m) - run s n" "freeBlocks m' = add32 (freeBlocks m) n"
    by (simp_all add: dealloc_result_def ISSET_def)
  have "totalBlocks m < 4294967296"
    using alloc_ok_limits [OF ok(1)] by simp
  note c = count_freed [OF ok(2) static_total [OF m'(2)] this lim m'(4-6)]
  have "used_blocks m' = used_blocks m - run s n"
    using m'(5) static_total [OF m'(2)] by (auto simp: used_blocks_def)
  then have "volume_of m' = (volume_of m)\<lparr>in_use := in_use (volume_of m) - run s n\<rparr>"
    using m'(3) by (simp add: volume_of_def)
  then show ?thesis
    using give [of "run s n" "volume_of m"] n(2) m'(1,2) c(1) by (simp add: call_ok_def)
qed

lemma call_trimmed:
  assumes ok: "alloc_ok m" "count_ok m" and n: "s + n \<le> totalBlocks m" "run s n \<inter> taken_blocks m 0 = {}"
    and r: "hfs_trim_callback m [mk_dk_extent (s * blockSize m + hfsPlusIOPosOffset m) (n * blockSize m)] = m'"
  shows "call_ok m Keep m'"
proof -
  have "0 < blockSize m" "s < 4294967296" "n < 4294967296"
    using ok(1) n(1) by (auto simp: alloc_ok_def search_ok_def volume_ok_def)
  then have m': "m' = snd (add_free_extent_cache m s n)"
    using r by (simp add: hfs_trim_callback_def mk_dk_extent_def)
  note a = alloc_ok_cache_add [OF ok(1) n, folded m']
  note e = srch_only_reserved [OF a(2)]
  have "volume_of m' = (volume_of m)\<lparr>tent := tent (volume_of m), lock := lock (volume_of m)\<rparr>" "count_ok m'"
    using e static_total [OF e(7)] ok(2) by (simp_all add: volume_of_def used_blocks_def count_ok_def)
  then show ?thesis
    using a(1) e(7) give_up [of "tent (volume_of m)" "volume_of m" "lock (volume_of m)"] by (simp add: call_ok_def)
qed

lemma vol_call_ok:
  assumes "vol_call bread (m, owned) ev (m', owned')" "alloc_ok m" "count_ok m" "owned \<subseteq> used_blocks m"
  shows "call_ok m ev m'"
    "case ev of Take B \<Rightarrow> owned' = owned \<union> B | Give B \<Rightarrow> B \<subseteq> owned \<and> owned' = owned - B | Keep \<Rightarrow> owned' = owned"
proof -
  show "case ev of Take B \<Rightarrow> owned' = owned \<union> B | Give B \<Rightarrow> B \<subseteq> owned \<and> owned' = owned - B | Keep \<Rightarrow> owned' = owned"
    using assms(1) by (cases rule: vol_call.cases) auto
  show "call_ok m ev m'"
    using assms(1)
    by (cases rule: vol_call.cases)
      (use assms(2-4) in \<open>auto intro: call_allocate call_reserve call_full call_commit call_use call_release call_deallocate call_trimmed\<close>)
qed

section \<open>Reachable volumes\<close>

abbreviation reaches :: "(nat \<Rightarrow> hfs_err) \<Rightarrow> hfsmount \<times> nat set \<Rightarrow> hfsmount \<times> nat set \<Rightarrow> bool" where
  "reaches bread \<equiv> (\<lambda>x y. \<exists>ev. vol_call bread x ev y)\<^sup>*\<^sup>*"

lemma volume_of_sane: "alloc_ok m \<Longrightarrow> volume_sane (volume_of m)"
  using reserved_okD(3,4,5) [of 0 0 m] by (auto simp: alloc_ok_def volume_sane_def used_blocks_def)

definition owns :: "hfsmount \<Rightarrow> hfsmount \<Rightarrow> nat set \<Rightarrow> bool" where
  "owns m0 m owned \<longleftrightarrow> alloc_ok m \<and> count_ok m \<and> static m0 m \<and> used_blocks m = used_blocks m0 \<union> owned \<and> used_blocks m0 \<inter> owned = {}"

lemma owns_step:
  assumes "owns m0 m owned" "vol_call bread (m, owned) ev (m', owned')"
  shows "owns m0 m' owned'"
proof -
  have m: "alloc_ok m" "count_ok m" "static m0 m" "used_blocks m = used_blocks m0 \<union> owned" "used_blocks m0 \<inter> owned = {}"
    using assms(1) by (simp_all add: owns_def)
  note c = vol_call_ok [OF assms(2) m(1,2)]
  have k: "volume_step (volume_of m) ev (volume_of m')" "alloc_ok m'" "count_ok m'" "static m0 m'"
    using c(1) m(4) static_trans [OF m(3)] by (auto simp: call_ok_def)
  note u = volume_step_use [OF k(1) volume_of_sane [OF m(1)]]
  show ?thesis
    using k(2-4) u c(2) m(4,5) by (cases ev) (auto simp: owns_def)
qed

lemma reaches_owns:
  assumes "reaches bread (m0, {}) (m, owned)" "alloc_ok m0" "count_ok m0"
  shows "owns m0 m owned"
  using assms(1)
proof (induction rule: rtranclp_induct2)
  case refl
  show ?case
    using assms(2,3) by (simp add: owns_def)
next
  case (step m1 o1 m2 o2)
  then show ?case
    using owns_step by blast
qed

text \<open>Reserved blocks are counted as free.\<close>

lemma reserved_bound:
  assumes "alloc_ok m" "count_ok m"
  shows "tentativeBlocks m + lockedBlocks m \<le> freeBlocks m" "freeBlocks m \<le> totalBlocks m"
proof -
  have r: "reserved_ok m" "allocLimit m \<le> totalBlocks m"
    using assms(1) alloc_ok_limits by (auto simp: alloc_ok_def)
  note d = reserved_okD [OF r(1)]
  define A where "A = entry_blocks (tentative m) \<union> entry_blocks (locked m)"
  have "A \<subseteq> {..<totalBlocks m}"
    using d(1,2) r(2) by (fastforce simp: A_def ranges_ok_def range_ok_def entry_blocks_def)
  moreover have "A \<inter> used_blocks m = {}" "used_blocks m \<subseteq> {..<totalBlocks m}"
    using d(4,5) by (auto simp: A_def used_blocks_def)
  moreover have "card A = tentativeBlocks m + lockedBlocks m"
    using blocks_of_card [OF d(1)] blocks_of_card [OF d(2)] d(3,6,7) by (simp add: A_def card_Un_disjoint)
  ultimately have "tentativeBlocks m + lockedBlocks m + card (used_blocks m) \<le> totalBlocks m"
    using card_mono [of "{..<totalBlocks m}" "A \<union> used_blocks m"] card_Un_disjoint [of A "used_blocks m"]
      finite_subset [of A "{..<totalBlocks m}"] finite_subset [of "used_blocks m" "{..<totalBlocks m}"] by auto
  then show "tentativeBlocks m + lockedBlocks m \<le> freeBlocks m" "freeBlocks m \<le> totalBlocks m"
    using assms(2) by (simp_all add: count_ok_def)
qed

section \<open>Properties\<close>

lemma trim_mount_alloc_ok: "alloc_ok trim_mount" "count_ok trim_mount"
proof -
  have "reserved_ok trim_mount" "count_ok trim_mount"
    by (simp_all add: reserved_slack_def ranges_ok_def blocks_of_def trim_mount_def small_mount_def plain_mount_def count_ok_def used_blocks_def bm_set_zero)
  then show "alloc_ok trim_mount" "count_ok trim_mount"
    using trim_mount_search_ok trim_mount_ok by (simp_all add: alloc_ok_def)
qed

lemma tent_mount_alloc_ok: "alloc_ok tent_mount" "count_ok tent_mount" "freeBlocks tent_mount = 64" "totalBlocks tent_mount = 64"
proof -
  show f: "freeBlocks tent_mount = 64" "totalBlocks tent_mount = 64"
    by (simp_all add: tent_mount_def set_ranges_def trim_mount_def small_mount_def plain_mount_def)
  then show "alloc_ok tent_mount" "count_ok tent_mount"
    using tent_mount_ok(1,2,5) by (simp_all add: alloc_ok_def count_ok_def used_blocks_def bm_set_zero)
qed

text \<open>A request for eight to twenty blocks.\<close>

definition eight_args :: hfs_alloc_extra_args where
  "eight_args = \<lparr>max_blocks = 20, reservation_in = None, reservation_out = None, alignment = 0, alignment_offset = 0\<rparr>"

lemma eight_request:
  assumes "flags = 0 \<or> flags = HFS_ALLOC_LOCKED"
  shows "new_request (\<lambda>_. noErr) two_trims None trim_mount (mk_extent 3 8) flags (Some eight_args)"
  using trim_mount_alloc_ok trim_mount_ok(2,5) assms
  by (auto simp: new_request_def eight_args_def request_max_def align_ok_def hfs_flag_defs)







text \<open>
  C6. Committing a locked reservation.  When the bitmap can be read the call succeeds: it returns exactly the reserved
  blocks (when no alignment is asked for), marks exactly them, takes exactly this reservation out of the list and leaves
  the tentative ranges alone; the free block count falls by their number.
\<close>

theorem commit_reservation:
  assumes "alloc_ok m" "count_ok m" "ISSET flags HFS_ALLOC_COMMIT" "\<not> ISSET flags HFS_ALLOC_USE_TENTATIVE" "\<not> reserving flags"
    and "\<not> ISSET flags HFS_ALLOC_IGNORE_TENTATIVE" "\<not> ISSET flags HFS_ALLOC_SKIPFREEBLKS"
    and "reservation_in a = Some rng" "rng \<in> set (locked m)" "0 < blockCount extent" "alignment a = 0" "range bread = {noErr}"
  shows "\<exists>ext ap' m'. hfs_block_alloc_int bread j backing m extent flags (Some a) = Some (noErr, ext, ap', m') \<and>
    ext_run ext = entry_blocks [rng] \<and> Option.bind ap' reservation_in = None \<and> alloc_ok m' \<and> count_ok m' \<and>
    used_blocks m' = used_blocks m \<union> entry_blocks [rng] \<and> locked m' = remove1 rng (locked m) \<and> tentative m' = tentative m \<and>
    freeBlocks m' = freeBlocks m - nat (rl_len rng)"
proof -
  have "align_ok (Some a) (blockCount extent)"
    using assms(11) by (simp add: align_ok_def)
  then obtain err ext ap' m' where r: "hfs_block_alloc_int bread j backing m extent flags (Some a) = Some (err, ext, ap', m')"
    "if err = noErr then startBlock ext = nat (rl_start rng) \<and> 0 < blockCount ext \<and> blockCount ext \<le> nat (rl_len rng) \<and>
       (alignment a = 0 \<longrightarrow> ext_run ext = entry_blocks [rng]) \<and> ext_run ext \<subseteq> entry_blocks [rng] \<and>
       commit_done m flags rng (startBlock ext) (blockCount ext) m' \<and> ap' = Some (a\<lparr>reservation_in := None\<rparr>)
     else err \<in> range bread \<and> alloc_failed bread m err ext m'"
    using alloc_int_commit [OF assms(1,3-6,8-10)] by blast
  then have e: "err = noErr"
    using assms(12) by (auto split: if_splits)
  then have c: "ext_run ext = entry_blocks [rng]" "commit_done m flags rng (startBlock ext) (blockCount ext) m'" "Option.bind ap' reservation_in = None"
    "blockCount ext \<le> nat (rl_len rng)" "startBlock ext = nat (rl_start rng)"
    using r(2) assms(11) by auto
  note m' = c(2) [unfolded commit_done_def]
  have lim: "startBlock ext + blockCount ext \<le> totalBlocks m"
    using entry_in_limit [OF assms(1,9) c(4)] c(5) by simp
  have sub: "run (startBlock ext) (blockCount ext) \<subseteq> entry_blocks (tentative m @ locked m)"
    using c(1) entry_blocks_sub [OF assms(9)] by (auto simp: ext_run_def)
  have fb: "freeBlocks m' = sub32 (freeBlocks m) (blockCount ext)"
    using m' assms(7) by simp
  note k = call_take_reserved [OF assms(1,2) _ _ _ fb sub lim]
  have "run (startBlock ext) (blockCount ext) \<inter> bm_set (vcbBitmap m) = {}"
    using reserved_okD(4,5) [of 0 0 m] assms(1) sub by (auto simp: alloc_ok_def)
  then have "freeBlocks m' = freeBlocks m - blockCount ext"
    using count_taken(3) [OF assms(2) _ _ lim _ _ fb] m' static_total alloc_ok_limits [OF assms(1)] by blast
  moreover have "card (entry_blocks [rng]) = nat (rl_len rng)"
    using entry_run(1) [of "allocLimit m" rng] reserved_okD(2) [of 0 0 m] assms(1,9) by (simp add: run_def alloc_ok_def ranges_ok_def)
  then have "blockCount ext = nat (rl_len rng)"
    using arg_cong [OF c(1), of card] by (simp add: ext_run_def run_def)
  ultimately show ?thesis
    using r(1) e c(1,3) m' k(1,2) by (auto simp: ext_run_def)
qed

text \<open>
  C7. Freeing.  Blocks of the volume that are not reserved can be freed: the call succeeds only if all of them are
  allocated, clears exactly their bits and adds their number to the free block count without wrapping around; they enter
  the free extent cache at once only on a volume without a journal.  If some block is not allocated, or the bitmap cannot
  be read, an error is returned and the count does not change.  In every case the summary table, the cache and the
  reservations stay right.
\<close>

theorem BlockDeallocate_correct:
  assumes "alloc_ok m" "count_ok m" "0 < n" "s + n \<le> totalBlocks m" "\<not> ISSET flags (or HFS_ALLOC_TENTATIVE HFS_ALLOC_LOCKED)"
    and "\<not> ISSET flags HFS_ALLOC_SKIPFREEBLKS" "run s n \<inter> entry_blocks (tentative m @ locked m) = {}"
  shows "\<exists>err m'. BlockDeallocate bread m s n flags = (err, m') \<and> alloc_ok m' \<and> hfs_reserved_ranges m' = hfs_reserved_ranges m \<and>
    (if err = noErr then run s n \<subseteq> used_blocks m \<and> used_blocks m' = used_blocks m - run s n \<and> count_ok m' \<and>
       freeBlocks m' = freeBlocks m + n \<and> fec_blocks m' \<subseteq> fec_blocks m \<union> (if jnl m then {} else run s n)
     else (err \<in> range bread \<or> err = EIO \<and> \<not> run s n \<subseteq> used_blocks m) \<and> freeBlocks m' = freeBlocks m)"
proof -
  obtain err m' where r: "BlockDeallocate bread m s n flags = (err, m')"
    by fastforce
  note d = BlockDeallocate_spec [OF assms(1,3,4,5,7), of bread, unfolded r dealloc_result_def prod.case]
  have sub: "run s n \<subseteq> used_blocks m \<longleftrightarrow> run s n \<subseteq> bm_set (vcbBitmap m)"
    using assms(4) by (auto simp: used_blocks_def)
  show ?thesis
  proof (cases "err = noErr")
    case True
    then have t: "totalBlocks m' = totalBlocks m" "run s n \<subseteq> bm_set (vcbBitmap m)" "bm_set (vcbBitmap m') = bm_set (vcbBitmap m) - run s n"
      "freeBlocks m' = add32 (freeBlocks m) n"
      using d assms(6) static_total by auto
    have "totalBlocks m < 4294967296"
      using alloc_ok_limits [OF assms(1)] by simp
    note c = count_freed [OF assms(2) t(1) this assms(4) t(2-4)]
    have "used_blocks m' = used_blocks m - run s n"
      using t(1,3) by (auto simp: used_blocks_def)
    then show ?thesis
      using d True r c sub by auto
  next
    case False
    then show ?thesis
      using d r sub by auto
  qed
qed


theorem BlockDeallocate_correct_witness:
  "\<exists>err m'. BlockDeallocate (\<lambda>_. noErr) (trim_mount\<lparr>vcbBitmap := [mask 16, 0], freeBlocks := 48\<rparr>) 20 5 0 = (err, m') \<and> alloc_ok m' \<and>
     freeBlocks m' \<le> 53"
proof -
  let ?m = "trim_mount\<lparr>vcbBitmap := [mask 16, 0], freeBlocks := 48\<rparr>"
  have b: "bm_set [mask 16 :: u32, 0] = run 16 16"
    by (auto simp: in_bm_set bit_simps run_def nth_Cons split: nat.splits)
  have m: "same_search trim_mount ?m" "tentative ?m = []" "locked ?m = []" "totalBlocks ?m = 64" "taken_blocks ?m 0 = run 16 16"
    by (simp_all add: same_search_def static_def taken_blocks_0 b trim_mount_def small_mount_def plain_mount_def)
  have "{16..<32} \<inter> {..<64} = {16..<32 :: nat}"
    by auto
  then have "reserved_ok ?m" "count_ok ?m"
    using m(4) by (auto simp: reserved_slack_def ranges_ok_def blocks_of_def count_ok_def used_blocks_def b run_def
        trim_mount_def small_mount_def plain_mount_def)
  moreover have "search_ok ?m"
  proof (rule search_ok_take [OF trim_mount_search_ok m(1)])
    show "reservations_ok ?m"
      using m(2,3) by (simp add: reservations_ok_def entries_ok_def)
    show "fec_blocks trim_mount \<inter> taken_blocks ?m 0 = {}"
      by (simp add: fec_blocks_def fec_entries_def trim_mount_def small_mount_def plain_mount_def)
  qed (simp add: trim_mount_free)
  ultimately have "alloc_ok ?m" "count_ok ?m"
    using m(4) by (simp_all add: alloc_ok_def)
  then show ?thesis
    using BlockDeallocate_correct [of ?m 5 20 0 "\<lambda>_. noErr"] m(2-4) by (fastforce simp: ISSET_def split: if_splits)
qed

text \<open>A volume on which blocks 30 to 34 are locked.\<close>

definition lock_mount :: hfsmount where
  "lock_mount = set_ranges HFS_LOCKED_BLOCKS [rl_make 30 34] (trim_mount\<lparr>lockedBlocks := 5\<rparr>)"

lemma lock_mount_ok: "alloc_ok lock_mount" "count_ok lock_mount" "locked lock_mount = [rl_make 30 34]" "freeBlocks lock_mount = 64"
proof -
  let ?m = "trim_mount\<lparr>lockedBlocks := 5\<rparr>"
  have f: "fec_blocks trim_mount = {}"
    by (simp add: fec_blocks_def fec_entries_def trim_mount_def small_mount_def plain_mount_def)
  note s = search_ok_counters [OF trim_mount_search_ok, of ?m, simplified, unfolded trim_mount_free f]
  have "reserved_slack 0 5 ?m"
    by (simp add: reserved_slack_def ranges_ok_def blocks_of_def trim_mount_def small_mount_def plain_mount_def)
  note a = add_to_reserved_list_spec [OF s(1) this, where s = 30 and n = 5 and l = HFS_LOCKED_BLOCKS and t' = 0 and k' = 0]
  have r: "add_to_reserved_list ?m 30 5 HFS_LOCKED_BLOCKS = (lock_mount, rl_make 30 34)"
    by (simp add: add_to_reserved_list_def lock_mount_def trim_mount_def small_mount_def plain_mount_def add32_eq sub32_eq Let_def)
  show l: "locked lock_mount = [rl_make 30 34]" "freeBlocks lock_mount = 64" "count_ok lock_mount"
    by (simp_all add: lock_mount_def trim_mount_def small_mount_def plain_mount_def count_ok_def used_blocks_def bm_set_zero)
  have "totalBlocks lock_mount = 64"
    by (simp add: lock_mount_def trim_mount_def small_mount_def plain_mount_def)
  then show "alloc_ok lock_mount"
    using a s by (simp add: r trim_mount_ok alloc_ok_def)
qed

theorem commit_reservation_witness:
  "\<exists>ext ap' m'. hfs_block_alloc_int (\<lambda>_. noErr) two_trims None lock_mount (mk_extent 0 1) HFS_ALLOC_COMMIT
       (Some (eight_args\<lparr>reservation_in := Some (rl_make 30 34)\<rparr>)) = Some (noErr, ext, ap', m') \<and>
     ext_run ext = entry_blocks [rl_make 30 34] \<and> count_ok m' \<and> locked m' = [] \<and> freeBlocks m' = 59"
  using commit_reservation [OF lock_mount_ok(1,2), of HFS_ALLOC_COMMIT "eight_args\<lparr>reservation_in := Some (rl_make 30 34)\<rparr>" "rl_make 30 34"
      "mk_extent 0 1" "\<lambda>_. noErr" two_trims None] lock_mount_ok(3,4)
  by (auto simp: hfs_flag_defs eight_args_def rl_len_def)



lemma use_four:
  "\<exists>B m'. vol_call (\<lambda>_. noErr) (tent_mount, {}) (Take B) (m', B)"
proof -
  let ?a = "eight_args\<lparr>reservation_in := Some (rl_make 10 19)\<rparr>"
  have c: "reservation_in ?a = Some (rl_make 10 19)" "rl_make 10 19 \<in> set (tentative tent_mount)" "0 < blockCount (mk_extent 0 4)"
    "align_ok (Some ?a) (blockCount (mk_extent 0 4))"
    "blockCount (mk_extent 0 4) \<le> min (min (request_max (Some ?a) (blockCount (mk_extent 0 4))) (nat (rl_len (rl_make 10 19)))) (hfs_freeblks None tent_mount False)"
    using tent_mount_ok(3) tent_mount_alloc_ok(3)
    by (simp_all add: eight_args_def align_ok_def request_max_def rl_len_def hfs_freeblks_def tent_mount_def trim_mount_def small_mount_def
        plain_mount_def add32_eq set_ranges_def)
  have f: "ISSET HFS_ALLOC_USE_TENTATIVE HFS_ALLOC_USE_TENTATIVE" "\<not> ISSET HFS_ALLOC_USE_TENTATIVE HFS_ALLOC_COMMIT"
    "\<not> ISSET HFS_ALLOC_USE_TENTATIVE HFS_ALLOC_ROLL_BACK" "\<not> reserving HFS_ALLOC_USE_TENTATIVE" "\<not> ISSET HFS_ALLOC_USE_TENTATIVE HFS_ALLOC_IGNORE_TENTATIVE"
    "\<not> ISSET HFS_ALLOC_USE_TENTATIVE HFS_ALLOC_SKIPFREEBLKS"
    by (simp_all add: hfs_flag_defs)
  obtain ext ap' m' where "hfs_block_alloc_int (\<lambda>_. noErr) two_trims None tent_mount (mk_extent 0 4) HFS_ALLOC_USE_TENTATIVE (Some ?a) = Some (noErr, ext, ap', m')"
    using alloc_int_use [OF tent_mount_alloc_ok(1) f(1-5) c(1-4) refl c(5), of "\<lambda>_. noErr" two_trims] by (auto split: if_splits)
  from use_tentative [OF f c this, of "{}"] show ?thesis
    by auto
qed






end
