(* ===== verification/Trim_Safety.thy ===== *)
theory Trim_Safety
  imports Volume_Calls
begin

text \<open>
  The block allocator together with the journal's trim lists.  Every call that \<open>hfs_unmap_alloc_extent\<close> and
  \<open>hfs_unmap_free_extent\<close> make is carried out on the lists of \<open>Journal_Trim\<close>, and the journal reports finished trims to
  \<open>hfs_trim_callback\<close>.
\<close>

section \<open>The calls of the allocator to the journal\<close>

primrec journal_call :: "bool \<Rightarrow> jnl_trim_call \<Rightarrow> journal \<Rightarrow> hfs_err \<times> journal" where
  "journal_call mem (Trim_add offset len) j = journal_trim_add_extent mem j offset len"
| "journal_call mem (Trim_remove offset len) j = journal_trim_remove_extent mem j offset len"

primrec is_add :: "jnl_trim_call \<Rightarrow> bool" where
  "is_add (Trim_add offset len) = True"
| "is_add (Trim_remove offset len) = False"

text \<open>
  The volume, the blocks handed out, and the journal.  A call of the allocator may tell the journal nothing or something;
  memory may run out, but not while blocks that are being allocated are taken off the lists.  Between calls the journal
  moves its lists along, which never adds to them, and reports a range that was waiting for its trim as trimmed.
\<close>

inductive jnl_step :: "(nat \<Rightarrow> hfs_err) \<Rightarrow> hfsmount \<times> nat set \<times> journal \<Rightarrow> hfsmount \<times> nat set \<times> journal \<Rightarrow> bool" for bread where
  silent: "vol_call bread (m, owned) ev (m', owned') \<Longrightarrow> jnl_trims m' = jnl_trims m \<Longrightarrow>
    jnl_step bread (m, owned, j) (m', owned', j)"
| told: "vol_call bread (m, owned) ev (m', owned') \<Longrightarrow> jnl_trims m' = c # jnl_trims m \<Longrightarrow>
    journal_call mem c j = (err, j') \<Longrightarrow> err = noErr \<or> is_add c \<Longrightarrow> jnl_step bread (m, owned, j) (m', owned', j')"
| settled: "jnl_ok j' \<Longrightarrow> \<not> jnl_invalid j' \<Longrightarrow> pending_bytes j' \<subseteq> pending_bytes j \<Longrightarrow>
    jnl_step bread (m, owned, j) (m, owned, j')"
| reported: "s + n \<le> totalBlocks m \<Longrightarrow> e = mk_dk_extent (s * blockSize m + hfsPlusIOPosOffset m) (n * blockSize m) \<Longrightarrow>
    {de_offset e..<de_end e} \<subseteq> pending_bytes j \<Longrightarrow> hfs_trim_callback m [e] = m' \<Longrightarrow>
    jnl_step bread (m, owned, j) (m', owned, j)"

section \<open>The bytes of blocks\<close>

definition block_bytes :: "hfsmount \<Rightarrow> nat set \<Rightarrow> nat set" where
  "block_bytes m B = (\<Union>b\<in>B. {b * blockSize m + hfsPlusIOPosOffset m..<Suc b * blockSize m + hfsPlusIOPosOffset m})"

definition data_bytes :: "hfsmount \<Rightarrow> nat set" where
  "data_bytes m = block_bytes m (taken_blocks m 0)"

lemma in_block_bytes:
  assumes "0 < blockSize m"
  shows "x \<in> block_bytes m B \<longleftrightarrow> hfsPlusIOPosOffset m \<le> x \<and> (x - hfsPlusIOPosOffset m) div blockSize m \<in> B"
proof -
  let ?y = "x - hfsPlusIOPosOffset m"
  have "x \<in> {b * blockSize m + hfsPlusIOPosOffset m..<Suc b * blockSize m + hfsPlusIOPosOffset m} \<longleftrightarrow>
      hfsPlusIOPosOffset m \<le> x \<and> ?y div blockSize m = b" for b
  proof -
    have "b \<le> ?y div blockSize m \<longleftrightarrow> b * blockSize m \<le> ?y" "?y div blockSize m < Suc b \<longleftrightarrow> ?y < Suc b * blockSize m"
      using assms by (simp_all add: less_eq_div_iff_mult_less_eq div_less_iff_less_mult)
    then have "?y div blockSize m = b \<longleftrightarrow> b * blockSize m \<le> ?y \<and> ?y < Suc b * blockSize m"
      by linarith
    then show ?thesis
      by (simp only: atLeastLessThan_iff) linarith
  qed
  then show ?thesis
    unfolding block_bytes_def by (simp only: UN_iff) blast
qed

lemma block_bytes_run:
  assumes "0 < blockSize m"
  shows "block_bytes m (run s n) = {s * blockSize m + hfsPlusIOPosOffset m..<s * blockSize m + hfsPlusIOPosOffset m + n * blockSize m}"
proof (rule set_eqI)
  fix x
  let ?y = "x - hfsPlusIOPosOffset m"
  have "s \<le> ?y div blockSize m \<longleftrightarrow> s * blockSize m \<le> ?y" "?y div blockSize m < s + n \<longleftrightarrow> ?y < (s + n) * blockSize m"
    using assms by (simp_all add: less_eq_div_iff_mult_less_eq div_less_iff_less_mult)
  then show "x \<in> block_bytes m (run s n) \<longleftrightarrow>
      x \<in> {s * blockSize m + hfsPlusIOPosOffset m..<s * blockSize m + hfsPlusIOPosOffset m + n * blockSize m}"
    by (auto simp: in_block_bytes [OF assms] run_def add_mult_distrib)
qed

lemma block_bytes_static: "static m m' \<Longrightarrow> block_bytes m' B = block_bytes m B"
  by (simp add: block_bytes_def static_def)

lemma block_bytes_mono: "A \<subseteq> B \<Longrightarrow> block_bytes m A \<subseteq> block_bytes m B"
  by (auto simp: block_bytes_def)

lemma block_bytes_Un: "block_bytes m (A \<union> B) = block_bytes m A \<union> block_bytes m B"
  by (simp add: block_bytes_def)

lemma block_bytes_disjoint: "0 < blockSize m \<Longrightarrow> A \<inter> B = {} \<Longrightarrow> block_bytes m A \<inter> block_bytes m B = {}"
  by (auto simp: in_block_bytes)

section \<open>What the calls tell the journal\<close>

text \<open>
  Blocks become taken only when the journal is told not to trim them, and the journal is told to trim only blocks that
  are not taken any more.
\<close>

definition trims_told :: "hfsmount \<Rightarrow> hfsmount \<Rightarrow> bool" where
  "trims_told m m' \<longleftrightarrow>
     jnl_trims m' = jnl_trims m \<and> taken_blocks m' 0 \<subseteq> taken_blocks m 0 \<or>
     (\<exists>s n. 0 < n \<and> jnl_trims m' = jnl_trims (hfs_unmap_alloc_extent m s n) \<and> taken_blocks m' 0 \<subseteq> taken_blocks m 0 \<union> run s n) \<or>
     (\<exists>s n. 0 < n \<and> jnl_trims m' = jnl_trims (hfs_unmap_free_extent m s n) \<and> taken_blocks m' 0 \<subseteq> taken_blocks m 0 - run s n)"

lemma trims_toldI_take:
  "0 < n \<Longrightarrow> jnl_trims m' = jnl_trims (hfs_unmap_alloc_extent m s n) \<Longrightarrow> taken_blocks m' 0 \<subseteq> taken_blocks m 0 \<union> run s n \<Longrightarrow> trims_told m m'"
  unfolding trims_told_def by blast

lemma entry_blocks_remove1: "entry_blocks (remove1 x xs) \<subseteq> entry_blocks xs"
  using set_remove1_subset [of x xs] by (auto simp: entry_blocks_def)

lemma told_allocate:
  assumes "new_request bread j backing m extent flags ap" "\<not> reserving flags"
    and "hfs_block_alloc_int bread j backing m extent flags ap = Some (noErr, ext, ap', m')"
  shows "trims_told m m'"
proof -
  have "0 < blockCount ext" "allocated backing m extent flags ext m'"
    using alloc_int_plain [OF assms(1,2)] assms(3) by auto
  then show ?thesis
    by (intro trims_toldI_take [of "blockCount ext" _ _ "startBlock ext"]) (auto simp: allocated_def taken_blocks_0 ext_run_def)
qed

lemma told_reserve:
  assumes "new_request bread j backing m extent flags (Some a)" "reserving flags"
      "\<not> (ISSET flags HFS_ALLOC_TENTATIVE \<and> steals m flags (blockCount extent) (hfs_freeblks backing m False))"
    and "hfs_block_alloc_int bread j backing m extent flags (Some a) = Some (noErr, ext, ap', m')"
  shows "trims_told m m'"
proof -
  let ?s = "startBlock ext" and ?n = "blockCount ext"
  obtain f e where g: "0 < ?n" "reserve_done m f ?s ?n e m'"
    using alloc_int_reserve [OF assms(1,2)] assms(3,4) by auto
  have "entry_blocks (take 3 (tentative m)) \<subseteq> entry_blocks (tentative m)"
    by (auto simp: entry_blocks_def dest: in_set_takeD)
  then have "entry_blocks (tentative m') \<union> entry_blocks (locked m') \<subseteq> entry_blocks (tentative m) \<union> entry_blocks (locked m) \<union> run ?s ?n"
    using g(2) entry_blocks_Cons [of e "take 3 (tentative m)"] entry_blocks_Cons [of e "locked m"]
    by (auto simp: reserve_done_def split: if_splits)
  then show ?thesis
    using g by (intro trims_toldI_take [of ?n _ _ ?s]) (auto simp: reserve_done_def taken_blocks_0)
qed

lemma told_full:
  assumes "new_request bread j backing m extent flags ap" "\<not> reserving flags"
    and "hfs_block_alloc_int bread j backing m extent flags ap = Some (dskFulErr, ext, ap', m')"
  shows "trims_told m m'"
proof -
  obtain err found f mn u m1 where a: "hfs_block_alloc_int bread j backing m extent flags ap =
      Some (if err \<noteq> noErr then (err, mk_extent 0 0, ap, m1) else alloc_mark bread m1 found f ap mn u)"
    "srch_only m m1" "alloc_ok m1" "same_flags flags f"
    "err = noErr \<longrightarrow> startBlock found + blockCount found \<le> allocLimit m1 \<and> run (startBlock found) (blockCount found) \<inter> taken_blocks m1 f = {} \<and>
       0 < alloc_align ap mn (blockCount found) \<and> alloc_align ap mn (blockCount found) \<le> blockCount found"
    using alloc_int_search [OF assms(1)] by blast
  have f: "\<not> reserving f" "\<not> from_reservation f" "\<not> ISSET f HFS_ALLOC_IGNORE_RESERVED"
    using same_flags_ISSET [OF a(4)] search_mask_flags assms(1,2) by (simp_all add: ISSET_parts new_request_def)
  have "err \<noteq> noErr"
  proof
    assume e: "err = noErr"
    then have "alloc_mark bread m1 found f ap mn u = (dskFulErr, ext, ap', m')"
      using a(1) assms(3) by simp
    from alloc_mark_plain [OF a(3) f _ _ _ _ refl this] have "dskFulErr \<in> range bread"
      using a(5) e by auto
    then show False
      using assms(1) by (simp add: new_request_def)
  qed
  then have "srch_only m m'"
    using a(1,2) assms(3) by simp
  from srch_only_reserved [OF this] show ?thesis
    by (simp add: trims_told_def taken_blocks_0)
qed

lemma told_commit:
  assumes ok: "alloc_ok m" and fl: "ISSET flags HFS_ALLOC_COMMIT" "\<not> ISSET flags HFS_ALLOC_USE_TENTATIVE" "\<not> reserving flags"
      "\<not> ISSET flags HFS_ALLOC_IGNORE_TENTATIVE"
    and rng: "reservation_in a = Some rng" "rng \<in> set (locked m)" and n: "0 < blockCount extent" "align_ok (Some a) (blockCount extent)"
    and r: "hfs_block_alloc_int bread j backing m extent flags (Some a) = Some (noErr, ext, ap', m')"
  shows "trims_told m m'"
proof -
  have "0 < blockCount ext" "commit_done m flags rng (startBlock ext) (blockCount ext) m'"
    using alloc_int_commit [OF ok fl rng n, of bread j backing] r by auto
  then show ?thesis
    using entry_blocks_remove1 [of rng "locked m"]
    by (intro trims_toldI_take [of "blockCount ext" _ _ "startBlock ext"]) (auto simp: commit_done_def taken_blocks_0)
qed

lemma told_use:
  assumes ok: "alloc_ok m" and fl: "ISSET flags HFS_ALLOC_USE_TENTATIVE" "\<not> ISSET flags HFS_ALLOC_COMMIT" "\<not> ISSET flags HFS_ALLOC_ROLL_BACK"
      "\<not> reserving flags" "\<not> ISSET flags HFS_ALLOC_IGNORE_TENTATIVE"
    and rng: "reservation_in a = Some rng" "rng \<in> set (tentative m)" and n: "0 < blockCount extent" "align_ok (Some a) (blockCount extent)"
    and count: "blockCount extent \<le> min (min (request_max (Some a) (blockCount extent)) (nat (rl_len rng))) (hfs_freeblks backing m False)"
    and r: "hfs_block_alloc_int bread j backing m extent flags (Some a) = Some (noErr, ext, ap', m')"
  shows "trims_told m m'"
proof -
  have "0 < blockCount ext" "use_done m flags (startBlock ext) (blockCount ext) m'"
    using alloc_int_use [OF ok fl rng n refl count, of bread j] r n(1) by auto
  then show ?thesis
    by (intro trims_toldI_take [of "blockCount ext" _ _ "startBlock ext"]) (auto simp: use_done_def taken_blocks_0)
qed

lemma told_release:
  assumes "alloc_ok m" "rng \<in> set (hfs_reserved_ranges m l)" "hfs_free_locked_internal m (Some rng) l = (m', q)"
  shows "trims_told m m'"
proof -
  have "give_result 0 0 m l (remove1 rng (hfs_reserved_ranges m l)) (entry_blocks [rng]) m'"
    using hfs_release_reserved_spec(1) [of m 0 0 rng l] assms by (auto simp: alloc_ok_def hfs_free_locked_internal_def)
  then show ?thesis
    by (auto simp: give_result_def trims_told_def)
qed

lemma told_trimmed:
  assumes ok: "alloc_ok m" and n: "s + n \<le> totalBlocks m" "run s n \<inter> taken_blocks m 0 = {}"
    and r: "hfs_trim_callback m [mk_dk_extent (s * blockSize m + hfsPlusIOPosOffset m) (n * blockSize m)] = m'"
  shows "jnl_trims m' = jnl_trims m" "taken_blocks m' 0 = taken_blocks m 0"
proof -
  have "0 < blockSize m" "s < 4294967296" "n < 4294967296"
    using ok n(1) by (auto simp: alloc_ok_def search_ok_def volume_ok_def)
  then have m': "m' = snd (add_free_extent_cache m s n)"
    using r by (simp add: hfs_trim_callback_def mk_dk_extent_def)
  note e = srch_only_reserved [OF alloc_ok_cache_add(2) [OF ok n, folded m']]
  show "jnl_trims m' = jnl_trims m" "taken_blocks m' 0 = taken_blocks m 0"
    using e by (simp_all add: taken_blocks_0)
qed

text \<open>Behind \<open>BlockMarkFreeInternal\<close>, freeing blocks tells the journal nothing more.\<close>

lemma BlockDeallocate_trims:
  assumes "BlockDeallocate bread m s n 0 = (noErr, m')" "0 < n"
  obtains m2 where "BlockMarkFreeInternal bread (snd (hfs_release_summary m s n)) s n True = (noErr, m2)" "jnl_trims m' = jnl_trims m2"
proof -
  obtain err m2 where r: "BlockMarkFreeInternal bread (snd (hfs_release_summary m s n)) s n True = (err, m2)"
    by fastforce
  have "jnl_trims (snd (add_free_extent_cache x s n)) = jnl_trims x" for x
    using srch_only_reserved(8) [OF fec_only_srch [OF add_free_extent_cache_only]] by blast
  then have "jnl_trims m' = jnl_trims m2" "err = noErr"
    using assms r by (auto simp: BlockDeallocate_def Let_def ISSET_def MarkVCBDirty_def HFS_UPDATE_NEXT_ALLOCATION_def split: if_splits)
  then show ?thesis
    using r that by blast
qed

lemma told_deallocate:
  assumes ok: "alloc_ok m" and n: "0 < n" "run s n \<subseteq> used_blocks m" and r: "BlockDeallocate bread m s n 0 = (noErr, m')"
  shows "trims_told m m'"
proof -
  define m1 where "m1 = snd (hfs_release_summary m s n)"
  have sm: "srch_only m m1"
    using sum_only_srch [OF hfs_release_summary_sum_only, of m s n] by (simp add: m1_def)
  note e = srch_only_reserved [OF sm] srch_only_same [OF sm]
  obtain m2 where m2: "BlockMarkFreeInternal bread m1 s n True = (noErr, m2)" "jnl_trims m' = jnl_trims m2"
    using BlockDeallocate_trims [OF r n(1)] unfolding m1_def by blast
  have "s + n - 1 \<in> used_blocks m"
    using n by (auto simp: run_def)
  then have lim: "s + n \<le> totalBlocks m"
    using n(1) by (auto simp: used_blocks_def)
  have rk: "reserved_ok m" "bitmap_ok m1" "totalBlocks m1 = totalBlocks m" "totalBlocks m < 4294967296"
    using ok e by (auto simp: alloc_ok_def search_ok_def volume_ok_def)
  note d = reserved_okD [OF rk(1)]
  have res: "run s n \<inter> entry_blocks (tentative m @ locked m) = {}"
    using n(2) d(4,5) by (auto simp: used_blocks_def)
  have m1: "reservations_ok m1" "s + n \<le> 32 * length (vcbBitmap m1)" "s + n \<le> totalBlocks m1" "s + n < 4294967296"
    using d(10) e lim rk by (auto simp: bitmap_ok_def reservations_ok_def entries_ok_def)
  obtain mx us uc where t: "m2 = hfs_unmap_free_extent mx us uc" "bm_only m1 mx" "run s n \<subseteq> run us uc" "run us uc \<inter> bm_set (vcbBitmap m2) = {}"
    "(run us uc - run s n) \<inter> (bm_set (vcbBitmap m1) \<union> reserved_blocks m1 0) = {}"
    using mark_free_trims [OF rk(2) m1(1) n(1) m1(2,4) m2(1)] by blast
  have "cleared m1 s n m2"
    using mark_free_cleared [OF rk(2) n(1) m1(3) m2(1)] by simp
  moreover have "dealloc_result bread m s n 0 (noErr, m')"
    using BlockDeallocate_spec [OF ok n(1) lim _ res, of 0 bread] r by (simp add: ISSET_def)
  ultimately have m': "bm_set (vcbBitmap m') = bm_set (vcbBitmap m2)" "hfs_reserved_ranges m' = hfs_reserved_ranges m"
    "bm_set (vcbBitmap m2) \<subseteq> bm_set (vcbBitmap m)"
    using e by (auto simp: cleared_def dealloc_result_def)
  have "jnl_trims m' = jnl_trims (hfs_unmap_free_extent m us uc)"
    using t(2) sm by (auto simp: m2(2) t(1) bm_only_def srch_only_def hfs_unmap_free_extent_def Let_def)
  moreover have "run us uc \<inter> (entry_blocks (tentative m) \<union> entry_blocks (locked m)) = {}"
    using t(5) res e by (auto simp: reserved_blocks_def ISSET_def)
  then have "taken_blocks m' 0 \<subseteq> taken_blocks m 0 - run us uc"
    using m' t(4) by (auto simp: taken_blocks_0)
  moreover have "0 < uc"
    using t(3) run_nonempty [OF n(1), of s] by (cases uc) (auto simp: run_def)
  ultimately show ?thesis
    unfolding trims_told_def by blast
qed

lemma vol_call_told:
  assumes "vol_call bread (m, owned) ev (m', owned')" "alloc_ok m" "owned \<subseteq> used_blocks m"
  shows "trims_told m m'"
  using assms(1)
proof (cases rule: vol_call.cases)
  case allocate
  show ?thesis
    by (rule told_allocate [OF allocate(3,4,6)])
next
  case reserve
  show ?thesis
    by (rule told_reserve [OF reserve(3-6)])
next
  case full
  show ?thesis
    by (rule told_full [OF full(3-5)])
next
  case commit
  show ?thesis
    by (rule told_commit [OF assms(2) commit(3-6,8-12)])
next
  case use_tentative
  show ?thesis
    by (rule told_use [OF assms(2) use_tentative(3-7,9-14)])
next
  case release
  show ?thesis
    by (rule told_release [OF assms(2) release(3,4)])
next
  case (deallocate n s)
  show ?thesis
    using told_deallocate [OF assms(2) deallocate(3) _ deallocate(5)] deallocate(4) assms(3) by blast
next
  case (trimmed s n)
  note t = told_trimmed [OF assms(2) trimmed(3,4,5)]
  show ?thesis
    unfolding trims_told_def by (rule disjI1, rule conjI, rule t(1), rule equalityD1, rule t(2))
qed

section \<open>Trims and data stay apart\<close>

text \<open>What holds between two steps, seen from the volume at the start.\<close>

definition trims_apart :: "hfsmount \<Rightarrow> hfsmount \<times> nat set \<times> journal \<Rightarrow> bool" where
  "trims_apart m0 x \<longleftrightarrow> (case x of (m, owned, j) \<Rightarrow>
     owns m0 m owned \<and> jnl m \<and> jnl_ok j \<and> \<not> jnl_invalid j \<and> pending_bytes j \<inter> data_bytes m = {})"

lemma told_apart:
  assumes bs: "0 < blockSize m" and st: "static m m'" and told: "trims_told m m'" and jm: "jnl m"
    and j: "jnl_ok j" "\<not> jnl_invalid j" "pending_bytes j \<inter> data_bytes m = {}"
    and c: "jnl_trims m' = c # jnl_trims m" "journal_call mem c j = (err, j')" "err = noErr \<or> is_add c"
  shows "jnl_ok j' \<and> \<not> jnl_invalid j' \<and> pending_bytes j' \<inter> data_bytes m' = {}"
proof -
  have db: "data_bytes m' = block_bytes m (taken_blocks m' 0)" "data_bytes m = block_bytes m (taken_blocks m 0)"
    by (simp_all add: data_bytes_def block_bytes_static [OF st])
  have "jnl_trims m' \<noteq> jnl_trims m"
    using c(1) by simp
  then consider (take) s n where "0 < n" "jnl_trims m' = jnl_trims (hfs_unmap_alloc_extent m s n)" "taken_blocks m' 0 \<subseteq> taken_blocks m 0 \<union> run s n"
    | (give) s n where "0 < n" "jnl_trims m' = jnl_trims (hfs_unmap_free_extent m s n)" "taken_blocks m' 0 \<subseteq> taken_blocks m 0 - run s n"
    using told unfolding trims_told_def by blast
  then show ?thesis
  proof cases
    case take
    let ?o = "s * blockSize m + hfsPlusIOPosOffset m" and ?l = "n * blockSize m"
    have "c = Trim_remove ?o ?l"
      using c(1) take(2) jm by (simp add: hfs_unmap_alloc_extent_def)
    then have rem: "journal_trim_remove_extent mem j ?o ?l = (noErr, j')"
      using c(2,3) by simp
    have "0 < ?l"
      using take(1) bs by simp
    note sp = journal_trim_remove_extent_spec [OF j(1,2) this rem]
    have "data_bytes m' \<subseteq> data_bytes m \<union> {?o..<?o + ?l}"
      using block_bytes_mono [OF take(3), of m] by (simp add: db block_bytes_Un block_bytes_run [OF bs])
    then show ?thesis
      using sp j(2,3) by auto
  next
    case give
    let ?o = "s * blockSize m + hfsPlusIOPosOffset m" and ?l = "n * blockSize m"
    have "c = Trim_add ?o ?l"
      using c(1) give(2) jm by (auto simp: hfs_unmap_free_extent_def Let_def split: if_splits)
    then have add: "journal_trim_add_extent mem j ?o ?l = (err, j')"
      using c(2) by simp
    have "0 < ?l"
      using give(1) bs by simp
    note sp = journal_trim_add_extent_spec [OF j(1,2) this add]
    have "taken_blocks m' 0 \<inter> run s n = {}"
      using give(3) by blast
    note dis = block_bytes_disjoint [OF bs this, unfolded block_bytes_run [OF bs], folded db(1)]
    have "data_bytes m' \<subseteq> data_bytes m"
      using block_bytes_mono [of _ _ m] give(3) unfolding db by blast
    moreover have "pending_bytes j' \<subseteq> pending_bytes j \<union> {?o..<?o + ?l}"
      using sp by (auto simp: pending_bytes_def async_bytes_def split: if_splits)
    ultimately show ?thesis
      using sp j(2,3) dis by blast
  qed
qed

text \<open>A range that was waiting for its trim has no data, so the callback may put it into the free extent cache.\<close>

lemma reported_free:
  assumes bs: "0 < blockSize m" and e: "e = mk_dk_extent (s * blockSize m + hfsPlusIOPosOffset m) (n * blockSize m)"
    and p: "{de_offset e..<de_end e} \<subseteq> pending_bytes j" "pending_bytes j \<inter> data_bytes m = {}"
  shows "run s n \<inter> taken_blocks m 0 = {}"
proof -
  have "{de_offset e..<de_end e} = block_bytes m (run s n)"
    by (simp add: e mk_dk_extent_def block_bytes_run [OF bs])
  then have d: "block_bytes m (run s n) \<inter> block_bytes m (taken_blocks m 0) = {}"
    using p by (auto simp: data_bytes_def)
  have "b * blockSize m + hfsPlusIOPosOffset m \<in> block_bytes m B" if "b \<in> B" for b B
    using that bs by (simp add: in_block_bytes)
  then show ?thesis
    using d by blast
qed

lemma alloc_ok_blockSize: "alloc_ok m \<Longrightarrow> 0 < blockSize m"
  by (simp add: alloc_ok_def search_ok_def volume_ok_def)

lemma silent_apart:
  assumes "static m m'" "taken_blocks m' 0 \<subseteq> taken_blocks m 0" "pending_bytes j \<inter> data_bytes m = {}"
  shows "pending_bytes j \<inter> data_bytes m' = {}"
  using block_bytes_mono [OF assms(2), of m] assms(3) by (auto simp: data_bytes_def block_bytes_static [OF assms(1)])

lemma told_silent:
  assumes "trims_told m m'" "jnl m" "jnl_trims m' = jnl_trims m"
  shows "taken_blocks m' 0 \<subseteq> taken_blocks m 0"
  using assms by (auto simp: trims_told_def hfs_unmap_alloc_extent_def hfs_unmap_free_extent_def Let_def split: if_splits)

lemma jnl_step_call:
  assumes "owns m0 m owned" "vol_call bread (m, owned) ev (m', owned')"
  shows "owns m0 m' owned'" "static m m'" "trims_told m m'"
proof -
  have m: "alloc_ok m" "count_ok m" "owned \<subseteq> used_blocks m"
    using assms(1) by (auto simp: owns_def)
  show "owns m0 m' owned'"
    by (rule owns_step [OF assms])
  show "static m m'" "trims_told m m'"
    using vol_call_ok(1) [OF assms(2) m] vol_call_told [OF assms(2) m(1,3)] by (simp_all add: call_ok_def)
qed

lemma jnl_step_apart:
  assumes "jnl_step bread (m, owned, j) (m', owned', j')" "trims_apart m0 (m, owned, j)"
  shows "trims_apart m0 (m', owned', j')" "reaches bread (m, owned) (m', owned')"
proof -
  have a: "owns m0 m owned" "jnl m" "jnl_ok j" "\<not> jnl_invalid j" "pending_bytes j \<inter> data_bytes m = {}" "alloc_ok m"
    using assms(2) by (auto simp: trims_apart_def owns_def)
  note bs = alloc_ok_blockSize [OF a(6)]
  have "trims_apart m0 (m', owned', j') \<and> reaches bread (m, owned) (m', owned')"
    using assms(1)
  proof (cases rule: jnl_step.cases)
    case (silent ev)
    note c = jnl_step_call [OF a(1) silent(2)]
    have "pending_bytes j \<inter> data_bytes m' = {}" "jnl m'"
      using silent_apart [OF c(2) told_silent [OF c(3) a(2) silent(3)] a(5)] a(2) c(2) by (simp_all add: static_def)
    moreover have "reaches bread (m, owned) (m', owned')"
      using silent(2) by blast
    ultimately show ?thesis
      using c(1) a(3,4) silent(1) by (simp add: trims_apart_def)
  next
    case (told ev c mem err)
    note c = jnl_step_call [OF a(1) told(1)]
    have "jnl_ok j' \<and> \<not> jnl_invalid j' \<and> pending_bytes j' \<inter> data_bytes m' = {}" "jnl m'"
      using told_apart [OF bs c(2,3) a(2-5) told(2-4)] a(2) c(2) by (simp_all add: static_def)
    moreover have "reaches bread (m, owned) (m', owned')"
      using told(1) by blast
    ultimately show ?thesis
      using c(1) by (simp add: trims_apart_def)
  next
    case settled
    then show ?thesis
      using a by (auto simp: trims_apart_def)
  next
    case (reported s n e)
    note fr = reported_free [OF bs reported(4,5) a(5)]
    have "vol_call bread (m, owned) Keep (m', owned)"
      using trimmed [OF reported(3) fr, of m' bread owned] reported(4,6) by simp
    then have call: "vol_call bread (m, owned) Keep (m', owned')"
      using reported(1) by simp
    note c = jnl_step_call [OF a(1) call] and t = told_trimmed [OF a(6) reported(3) fr reported(6) [unfolded reported(4)]]
    have "pending_bytes j \<inter> data_bytes m' = {}" "jnl m'"
      using silent_apart [OF c(2) equalityD1 [OF t(2)] a(5)] a(2) c(2) by (simp_all add: static_def)
    moreover have "reaches bread (m, owned) (m', owned')"
      using call by blast
    ultimately show ?thesis
      using c(1) a(3,4) reported(2) by (simp add: trims_apart_def)
  qed
  then show "trims_apart m0 (m', owned', j')" "reaches bread (m, owned) (m', owned')"
    by blast+
qed

lemma jnl_steps_apart:
  assumes "(jnl_step bread)\<^sup>*\<^sup>* (m0, {}, j0) (m, owned, j)" "trims_apart m0 (m0, {}, j0)"
  shows "trims_apart m0 (m, owned, j)" "reaches bread (m0, {}) (m, owned)"
proof -
  have "trims_apart m0 (m, owned, j) \<and> reaches bread (m0, {}) (m, owned)"
    using assms(1)
  proof (induction "(m, owned, j)" arbitrary: m owned j rule: rtranclp_induct)
    case base
    show ?case
      using assms(2) by simp
  next
    case (step y)
    obtain m1 o1 j1 where y: "y = (m1, o1, j1)"
      by (cases y)
    show ?case
      using jnl_step_apart [OF step(2) [unfolded y]] step(3) [OF y] by (meson rtranclp_trans)
  qed
  then show "trims_apart m0 (m, owned, j)" "reaches bread (m0, {}) (m, owned)"
    by blast+
qed

text \<open>Whatever a call tells the journal, the journal can do it when there is memory.\<close>

lemma jnl_step_exists:
  assumes "trims_apart m0 (m, owned, j)" "vol_call bread (m, owned) ev (m', owned')"
  shows "\<exists>j'. jnl_step bread (m, owned, j) (m', owned', j')"
proof -
  have a: "owns m0 m owned" "jnl m" "jnl_ok j" "\<not> jnl_invalid j"
    using assms(1) by (simp_all add: trims_apart_def)
  have bs: "0 < blockSize m"
    using a(1) alloc_ok_blockSize by (simp add: owns_def)
  consider "jnl_trims m' = jnl_trims m" | s n where "0 < n" "jnl_trims m' = jnl_trims (hfs_unmap_alloc_extent m s n)"
    | s n where "0 < n" "jnl_trims m' = jnl_trims (hfs_unmap_free_extent m s n)"
    using jnl_step_call(3) [OF a(1) assms(2)] unfolding trims_told_def by blast
  then show ?thesis
  proof cases
    case 1
    then show ?thesis
      using silent [OF assms(2)] by blast
  next
    case (2 s n)
    define off len where "off = s * blockSize m + hfsPlusIOPosOffset m" and "len = n * blockSize m"
    have log: "jnl_trims m' = Trim_remove off len # jnl_trims m" "0 < len"
      using 2 a(2) bs by (simp_all add: hfs_unmap_alloc_extent_def off_def len_def)
    obtain err j' where r: "journal_trim_remove_extent True j off len = (err, j')"
      by fastforce
    then have "err = noErr"
      using journal_trim_remove_extent_spec [OF a(3,4) log(2) r] by (auto split: if_splits)
    then show ?thesis
      using told [OF assms(2) log(1), of True j err j'] r by auto
  next
    case (3 s n)
    then consider "jnl_trims m' = jnl_trims m" | off len where "jnl_trims m' = Trim_add off len # jnl_trims m"
      using a(2) by (auto simp: hfs_unmap_free_extent_def Let_def split: if_splits)
    then show ?thesis
    proof cases
      case 1
      then show ?thesis
        using silent [OF assms(2)] by blast
    next
      case 2
      then show ?thesis
        using told [OF assms(2) 2, of True j] by (cases "journal_trim_add_extent True j off len") auto
    qed
  qed
qed

text \<open>The volume with a tentative range, and a journal whose trims avoid it.\<close>

lemma tent_mount_apart: "trims_apart tent_mount (tent_mount, {}, two_trims)"
proof -
  have m: "blockSize tent_mount = 4096" "hfsPlusIOPosOffset tent_mount = 0" "jnl tent_mount"
    by (simp_all add: tent_mount_def set_ranges_def trim_mount_def small_mount_def plain_mount_def)
  have "data_bytes tent_mount = {40960..<81920}"
    using block_bytes_run [of tent_mount 10 10] m by (simp add: data_bytes_def tent_mount_ok(7))
  moreover have "pending_bytes two_trims \<subseteq> {0..<24576}"
    by (auto simp: pending_bytes_def two_trims_def async_bytes_def trim_bytes_def trim_used_def de_bytes_def)
  ultimately have "pending_bytes two_trims \<inter> data_bytes tent_mount = {}"
    by fastforce
  then show ?thesis
    using two_trims_ok tent_mount_alloc_ok(1,2) m(3) by (simp add: trims_apart_def owns_def)
qed

end
