(* ===== verification/Notifications.thy ===== *)
theory Notifications
  imports Block_Alloc
begin

text \<open>
  The free space notifications of \<^verbatim>\<open>core/hfs_notification.c\<close>, the levels that \<open>hfs_mountfs\<close> gives a volume and the
  \<open>fsctl\<close> requests that read and change them.  The fields of \<^verbatim>\<open>struct hfsmount\<close> that only this code uses are a record of
  their own.  The flags of an event are defined by the kernel's headers: a word of them is the set of the flags that are
  set in it.  A call returns the events it signals.
\<close>

section \<open>State\<close>

datatype vq = VQ_LOWDISK | VQ_VERYLOWDISK | VQ_NEARLOWDISK | VQ_UPDATE | VQ_DESIRED_DISK

record notify =
  hfs_notification_conditions :: "vq set"
  hfs_freespace_notify_dangerlimit :: nat
  hfs_freespace_notify_warninglimit :: nat
  hfs_freespace_notify_nearwarninglimit :: nat
  hfs_freespace_notify_desiredlevel :: nat

definition HFS_READ_ONLY :: u32 where
  "HFS_READ_ONLY = 0x1"

section \<open>Signalling\<close>

text \<open>The first level that the free blocks fit into, from 4 for the lowest down to 0.\<close>

definition notify_level :: "notify \<Rightarrow> nat \<Rightarrow> nat" where
  "notify_level v freeblks =
     (if freeblks < hfs_freespace_notify_dangerlimit v then 4
      else if freeblks < hfs_freespace_notify_warninglimit v then 3
      else if freeblks < hfs_freespace_notify_nearwarninglimit v then 2
      else if freeblks < hfs_freespace_notify_desiredlevel v then 1
      else 0)"

definition set_conditions :: "vq set \<Rightarrow> notify \<Rightarrow> vq set list \<times> notify" where
  "set_conditions c v = ([c], v\<lparr>hfs_notification_conditions := c\<rparr>)"

definition notify_volume :: "nat \<Rightarrow> notify \<Rightarrow> vq set list \<times> notify" where
  "notify_volume freeblks v =
     (let state = notify_level v freeblks; cond = hfs_notification_conditions v
      in if state = 4 \<and> VQ_VERYLOWDISK \<notin> cond then set_conditions (cond \<union> {VQ_VERYLOWDISK, VQ_LOWDISK, VQ_NEARLOWDISK}) v
         else if state = 3 then
           if VQ_LOWDISK \<notin> cond then set_conditions (cond \<union> {VQ_LOWDISK, VQ_NEARLOWDISK}) v
           else if VQ_VERYLOWDISK \<in> cond then set_conditions (cond - {VQ_VERYLOWDISK}) v
           else ([], v)
         else if state = 2 then
           if VQ_NEARLOWDISK \<notin> cond then set_conditions (cond \<union> {VQ_NEARLOWDISK}) v
           else
             let cond1 = cond - {VQ_LOWDISK}
             in if VQ_VERYLOWDISK \<in> cond1 then set_conditions (cond1 - {VQ_VERYLOWDISK}) v
                else ([], v\<lparr>hfs_notification_conditions := cond1\<rparr>)
         else if state = 1 then
           if VQ_VERYLOWDISK \<in> cond then set_conditions (cond - {VQ_VERYLOWDISK}) v else ([], v)
         else if state = 0 \<and> cond \<inter> {VQ_NEARLOWDISK, VQ_LOWDISK, VQ_VERYLOWDISK} \<noteq> {} then
           let cond1 = cond - {VQ_VERYLOWDISK, VQ_LOWDISK, VQ_NEARLOWDISK}
           in ([if cond1 = {} then {VQ_UPDATE, VQ_DESIRED_DISK} else cond1], v\<lparr>hfs_notification_conditions := cond1\<rparr>)
         else ([], v))"

definition hfs_generate_volume_notifications :: "nat option \<Rightarrow> hfsmount \<Rightarrow> notify \<Rightarrow> vq set list \<times> notify" where
  "hfs_generate_volume_notifications backing m v =
     (if ISSET (hfs_flags m) HFS_READ_ONLY then ([], v) else notify_volume (hfs_freeblks backing m True) v)"

text \<open>A sequence of calls, with the number of free blocks at each of them, and all events signalled.\<close>

fun notify_run :: "nat list \<Rightarrow> notify \<Rightarrow> vq set list \<times> notify" where
  "notify_run [] v = ([], v)"
| "notify_run (n # ns) v = (let (s, v1) = notify_volume n v; (s', v') = notify_run ns v1 in (s @ s', v'))"

section \<open>Levels\<close>

text \<open>
  A limit is a number of bytes or a part of the volume in half percents, whichever is less.  The only part that is not a
  whole number of percents is 10.5, whose product with a 32-bit number is exact in floating point and then truncated.
\<close>

definition notify_limit :: "hfsmount \<Rightarrow> nat \<Rightarrow> nat \<Rightarrow> nat" where
  "notify_limit m level halves = min (level div blockSize m) (totalBlocks m div 100 * halves div 2)"

definition hfs_mount_levels :: "bool \<Rightarrow> hfsmount \<Rightarrow> notify" where
  "hfs_mount_levels args m =
     (if args then
        \<lparr>hfs_notification_conditions = {},
         hfs_freespace_notify_dangerlimit = notify_limit m (150 * 1024 * 1024) 2,
         hfs_freespace_notify_warninglimit = notify_limit m (500 * 1024 * 1024) 4,
         hfs_freespace_notify_nearwarninglimit = notify_limit m (1024 * 1024 * 1024) 20,
         hfs_freespace_notify_desiredlevel = notify_limit m (1024 * 1024 * 1024 + 200 * 1024 * 1024) 24\<rparr>
      else
        \<lparr>hfs_notification_conditions = {},
         hfs_freespace_notify_dangerlimit = notify_limit m (512 * 1024 * 1024) 10,
         hfs_freespace_notify_warninglimit = notify_limit m (1024 * 1024 * 1024) 20,
         hfs_freespace_notify_nearwarninglimit = notify_limit m (1024 * 1024 * 1024 + 100 * 1024 * 1024) 21,
         hfs_freespace_notify_desiredlevel = notify_limit m (1024 * 1024 * 1024 + 250 * 1024 * 1024) 22\<rparr>)"

datatype level_ioc = VERY_LOW_DISK | LOW_DISK | NEAR_LOW_DISK | DESIRED_DISK

primrec hfs_ioc_get :: "level_ioc \<Rightarrow> notify \<Rightarrow> nat" where
  "hfs_ioc_get VERY_LOW_DISK v = hfs_freespace_notify_dangerlimit v"
| "hfs_ioc_get LOW_DISK v = hfs_freespace_notify_warninglimit v"
| "hfs_ioc_get NEAR_LOW_DISK v = hfs_freespace_notify_nearwarninglimit v"
| "hfs_ioc_get DESIRED_DISK v = hfs_freespace_notify_desiredlevel v"

primrec hfs_ioc_set :: "level_ioc \<Rightarrow> nat \<Rightarrow> notify \<Rightarrow> hfs_err \<times> notify" where
  "hfs_ioc_set VERY_LOW_DISK n v =
     (if n \<ge> hfs_freespace_notify_warninglimit v then (EINVAL, v) else (noErr, v\<lparr>hfs_freespace_notify_dangerlimit := n\<rparr>))"
| "hfs_ioc_set LOW_DISK n v =
     (if n \<ge> hfs_freespace_notify_desiredlevel v \<or> n \<le> hfs_freespace_notify_dangerlimit v then (EINVAL, v)
      else (noErr, v\<lparr>hfs_freespace_notify_warninglimit := n\<rparr>))"
| "hfs_ioc_set NEAR_LOW_DISK n v =
     (if n \<ge> hfs_freespace_notify_desiredlevel v \<or> n \<le> hfs_freespace_notify_warninglimit v then (EINVAL, v)
      else (noErr, v\<lparr>hfs_freespace_notify_nearwarninglimit := n\<rparr>))"
| "hfs_ioc_set DESIRED_DISK n v =
     (if n \<le> hfs_freespace_notify_warninglimit v then (EINVAL, v) else (noErr, v\<lparr>hfs_freespace_notify_desiredlevel := n\<rparr>))"

section \<open>Invariants\<close>

text \<open>A low level is announced together with all levels above it.\<close>

definition conditions_ok :: "vq set \<Rightarrow> bool" where
  "conditions_ok c \<longleftrightarrow> c \<subseteq> {VQ_LOWDISK, VQ_VERYLOWDISK, VQ_NEARLOWDISK} \<and>
     (VQ_VERYLOWDISK \<in> c \<longrightarrow> VQ_LOWDISK \<in> c) \<and> (VQ_LOWDISK \<in> c \<longrightarrow> VQ_NEARLOWDISK \<in> c)"

definition levels_ok :: "notify \<Rightarrow> bool" where
  "levels_ok v \<longleftrightarrow> hfs_freespace_notify_dangerlimit v \<le> hfs_freespace_notify_warninglimit v \<and>
     hfs_freespace_notify_warninglimit v \<le> hfs_freespace_notify_nearwarninglimit v \<and>
     hfs_freespace_notify_nearwarninglimit v \<le> hfs_freespace_notify_desiredlevel v"

text \<open>The conditions after a call depend only on the level and on those before it.\<close>

definition conditions_after :: "nat \<Rightarrow> vq set \<Rightarrow> vq set" where
  "conditions_after level c =
     (if level = 4 then {VQ_VERYLOWDISK, VQ_LOWDISK, VQ_NEARLOWDISK} else if level = 3 then {VQ_LOWDISK, VQ_NEARLOWDISK}
      else if level = 2 then {VQ_NEARLOWDISK} else if level = 1 then c - {VQ_VERYLOWDISK} else {})"

lemma conditions_cases:
  assumes "conditions_ok c"
  shows "c = {} \<or> c = {VQ_NEARLOWDISK} \<or> c = {VQ_LOWDISK, VQ_NEARLOWDISK} \<or> c = {VQ_VERYLOWDISK, VQ_LOWDISK, VQ_NEARLOWDISK}"
  using assms
  by (cases "VQ_VERYLOWDISK \<in> c"; cases "VQ_LOWDISK \<in> c"; cases "VQ_NEARLOWDISK \<in> c") (auto simp: conditions_ok_def)

lemma conditions_after_ok: "conditions_ok c \<Longrightarrow> conditions_ok (conditions_after level c)"
  by (auto simp: conditions_ok_def conditions_after_def)

lemma notify_level_cases: "notify_level v n = 0 \<or> notify_level v n = 1 \<or> notify_level v n = 2 \<or> notify_level v n = 3 \<or> notify_level v n = 4"
  by (simp add: notify_level_def)

lemma notify_volume_after:
  assumes "conditions_ok (hfs_notification_conditions v)"
  shows "snd (notify_volume n v) = v\<lparr>hfs_notification_conditions := conditions_after (notify_level v n) (hfs_notification_conditions v)\<rparr>"
  using conditions_cases [OF assms] notify_level_cases [of v n]
  by (cases v; elim disjE) (simp_all add: notify_volume_def Let_def set_conditions_def conditions_after_def insert_absorb insert_Diff_if)

text \<open>An event is signalled when a condition is new, when the lowest level is left, and when the desired level is reached.\<close>

lemma notify_volume_events:
  assumes "conditions_ok (hfs_notification_conditions v)"
  shows "fst (notify_volume n v) =
    (let c = hfs_notification_conditions v; c' = conditions_after (notify_level v n) c
     in if c' = {} \<and> c \<noteq> {} \<and> notify_level v n = 0 then [{VQ_UPDATE, VQ_DESIRED_DISK}]
        else if \<not> c' \<subseteq> c \<or> VQ_VERYLOWDISK \<in> c - c' then [c'] else [])"
  using conditions_cases [OF assms] notify_level_cases [of v n]
  by (elim disjE) (simp_all add: notify_volume_def Let_def set_conditions_def conditions_after_def insert_absorb insert_Diff_if)

lemma conditions_after_again: "conditions_after level (conditions_after level c) = conditions_after level c"
  by (simp add: conditions_after_def)

lemma notify_level_conditions [simp]: "notify_level (v\<lparr>hfs_notification_conditions := c\<rparr>) n = notify_level v n"
  by (simp add: notify_level_def)

lemma notify_again:
  assumes "conditions_ok (hfs_notification_conditions v)"
  shows "notify_volume n (snd (notify_volume n v)) = ([], snd (notify_volume n v))"
proof -
  have "conditions_ok (hfs_notification_conditions (snd (notify_volume n v)))"
    using conditions_after_ok [OF assms] by (simp add: notify_volume_after [OF assms])
  from notify_volume_after [OF this] notify_volume_events [OF this] show ?thesis
    by (simp add: notify_volume_after [OF assms] conditions_after_again prod_eq_iff Let_def)
qed

text \<open>Every run of calls keeps the conditions nested and the levels as they are.\<close>

lemma notify_run_ok:
  assumes "conditions_ok (hfs_notification_conditions v)"
  shows "conditions_ok (hfs_notification_conditions (snd (notify_run ns v))) \<and>
    (\<exists>c. snd (notify_run ns v) = v\<lparr>hfs_notification_conditions := c\<rparr>)"
  using assms
proof (induction ns arbitrary: v)
  case Nil
  then show ?case
    by (cases v) auto
next
  case (Cons n ns)
  let ?v = "snd (notify_volume n v)"
  have v: "?v = v\<lparr>hfs_notification_conditions := conditions_after (notify_level v n) (hfs_notification_conditions v)\<rparr>"
    by (rule notify_volume_after [OF Cons.prems])
  then have "conditions_ok (hfs_notification_conditions ?v)"
    using conditions_after_ok [OF Cons.prems] by simp
  from Cons.IH [OF this] v show ?case
    by (auto simp: Let_def split_beta)
qed

text \<open>
  Between the near low level and the low level the low disk condition is dropped without an event, so that a volume whose
  free space moves to and fro around the low level announces it every time, although the desired level is never
  reached; one that comes back from above the near low level announces it once.
\<close>

lemma low_disk_refires:
  assumes "hfs_notification_conditions v = {}" "notify_level v low = 3" "notify_level v near = 2" "notify_level v high = 1"
  shows "fst (notify_run [low, near, low] v) = [{VQ_LOWDISK, VQ_NEARLOWDISK}, {VQ_LOWDISK, VQ_NEARLOWDISK}]"
    "fst (notify_run [low, high, low] v) = [{VQ_LOWDISK, VQ_NEARLOWDISK}]"
  using assms by (simp_all add: notify_volume_def Let_def set_conditions_def insert_Diff_if)

section \<open>Levels stay in order\<close>

lemma notify_limit_mono: "a \<le> a' \<Longrightarrow> h \<le> h' \<Longrightarrow> notify_limit m a h \<le> notify_limit m a' h'"
  unfolding notify_limit_def by (intro min.mono div_le_mono mult_le_mono order_refl)

lemma hfs_mount_levels_ok: "levels_ok (hfs_mount_levels args m)" "conditions_ok (hfs_notification_conditions (hfs_mount_levels args m))"
  by (auto simp: levels_ok_def hfs_mount_levels_def conditions_ok_def intro!: notify_limit_mono)

text \<open>The near low level is not looked at when the low level or the desired level is changed.\<close>

lemma hfs_ioc_set_unordered:
  assumes "levels_ok v"
  shows "hfs_freespace_notify_nearwarninglimit v < n \<Longrightarrow> n < hfs_freespace_notify_desiredlevel v \<Longrightarrow>
      fst (hfs_ioc_set LOW_DISK n v) = noErr \<and> \<not> levels_ok (snd (hfs_ioc_set LOW_DISK n v))"
    "hfs_freespace_notify_warninglimit v < n \<Longrightarrow> n < hfs_freespace_notify_nearwarninglimit v \<Longrightarrow>
      fst (hfs_ioc_set DESIRED_DISK n v) = noErr \<and> notify_level (snd (hfs_ioc_set DESIRED_DISK n v)) n = 2"
  using assms by (auto simp: levels_ok_def notify_level_def)

section \<open>Properties\<close>



text \<open>
  C40. A request to change a level either fails with \<open>EINVAL\<close> and changes
  nothing, or reading that level returns the new value while all others keep theirs; the danger limit stays below
  the warning limit and this below the desired level.
\<close>

theorem hfs_ioc_set_correct:
  assumes "hfs_ioc_set k n v = (err, v')" "hfs_freespace_notify_dangerlimit v < hfs_freespace_notify_warninglimit v"
    "hfs_freespace_notify_warninglimit v < hfs_freespace_notify_desiredlevel v"
  shows "(if err = noErr then hfs_ioc_get k v' = n \<and> (\<forall>k'. k' \<noteq> k \<longrightarrow> hfs_ioc_get k' v' = hfs_ioc_get k' v) else err = EINVAL \<and> v' = v) \<and>
    hfs_notification_conditions v' = hfs_notification_conditions v \<and>
    hfs_freespace_notify_dangerlimit v' < hfs_freespace_notify_warninglimit v' \<and>
    hfs_freespace_notify_warninglimit v' < hfs_freespace_notify_desiredlevel v'"
proof -
  have "(\<forall>k'. k' \<noteq> k \<longrightarrow> hfs_ioc_get k' v' = hfs_ioc_get k' v)" if "err = noErr"
    using assms(1) that by (intro allI, rename_tac k', case_tac k'; cases k) (auto split: if_splits)
  then show ?thesis
    using assms by (cases k) (auto split: if_splits)
qed

theorem hfs_ioc_set_correct_witness:
  "hfs_ioc_get DESIRED_DISK (snd (hfs_ioc_set DESIRED_DISK 300 (hfs_mount_levels True (plain_mount 1000 4096 (replicate 32 0))))) = 300 \<and>
   hfs_ioc_get LOW_DISK (snd (hfs_ioc_set DESIRED_DISK 300 (hfs_mount_levels True (plain_mount 1000 4096 (replicate 32 0))))) = 20"
proof -
  let ?v = "hfs_mount_levels True (plain_mount 1000 4096 (replicate 32 0))"
  have v: "hfs_freespace_notify_dangerlimit ?v = 10" "hfs_freespace_notify_warninglimit ?v = 20" "hfs_freespace_notify_desiredlevel ?v = 120"
    by (simp_all add: hfs_mount_levels_def notify_limit_def plain_mount_def)
  obtain err v' where r: "hfs_ioc_set DESIRED_DISK 300 ?v = (err, v')"
    by fastforce
  then have "err = noErr"
    using v by simp
  then show ?thesis
    using hfs_ioc_set_correct [OF r] v r by auto
qed

end
